(* ===== verification/Prelude.thy ===== *)
theory Prelude
  imports Main "HOL-Library.Word" "HOL-Library.List_Lexorder"
begin

text \<open>
  Shared vocabulary of the development: bytes and C++ integers, the exceptions of
  \<^verbatim>\<open>client/sml/exception.h\<close>, the state-and-exception actions in which every mutating member
  function is written, and the generic lemmas the components share.
\<close>

section \<open>Bytes, strings and C++ integers\<close>

unbundle bit_operations_syntax

type_synonym byte = "8 word"
type_synonym bytes = "byte list"
type_synonym u16 = "16 word"
type_synonym u32 = "32 word"

text \<open>
  A \<^verbatim>\<open>std::string\<close> is its sequence of bytes; \<open>str\<close> gives the bytes of a string literal.
\<close>

definition str :: "string \<Rightarrow> bytes" where
  "str s = map (\<lambda>c. word_of_nat (of_char c)) s"

text \<open>
  A C++ \<^verbatim>\<open>int\<close> is modelled by its value; \<open>s32\<close> is the conversion of an arbitrary value to
  \<^verbatim>\<open>int\<close> (wrapping, as C++20 defines it) and \<open>u64\<close> the conversion to \<^verbatim>\<open>size_t\<close> or
  \<^verbatim>\<open>uint64_t\<close>.
\<close>

definition s32 :: "int \<Rightarrow> int" where
  "s32 x = (x + 2 ^ 31) mod 2 ^ 32 - 2 ^ 31"

definition u64 :: "int \<Rightarrow> int" where
  "u64 x = x mod 2 ^ 64"

lemma s32_id [simp]: "- (2 ^ 31) \<le> x \<Longrightarrow> x < 2 ^ 31 \<Longrightarrow> s32 x = x"
  by (simp add: s32_def)

lemma s32_nonneg [simp]: "0 \<le> x \<Longrightarrow> x < 2 ^ 31 \<Longrightarrow> s32 x = x"
  by (simp add: s32_def)

lemma u64_id [simp]: "0 \<le> x \<Longrightarrow> x < 2 ^ 64 \<Longrightarrow> u64 x = x"
  by (simp add: u64_def)

lemma s32_range: "- (2 ^ 31) \<le> s32 x \<and> s32 x < 2 ^ 31"
  using pos_mod_bound [of "2 ^ 32 :: int" "x + 2 ^ 31"]
    pos_mod_sign [of "2 ^ 32 :: int" "x + 2 ^ 31"]
  by (simp add: s32_def)

section \<open>Exceptions\<close>

text \<open>
  The exceptions of \<^verbatim>\<open>client/sml/exception.h\<close>, \<^verbatim>\<open>seek_out_of_range\<close> of
  \<^verbatim>\<open>byte_string.h\<close>, the standard exceptions the code can raise, two outcomes that
  stand for undefined behaviour: \<open>Null_deref\<close> (a null pointer is dereferenced) and
  \<open>Undefined\<close> (memory outside a buffer is read or written, or an assertion fails), and \<open>Aborted\<close>
  for the end of the process by \<^verbatim>\<open>std::terminate\<close> or \<^verbatim>\<open>qFatal\<close>.
\<close>

datatype err =
    Mem_error
  | Access_violation
  | Io_error
  | File_read_error
  | Data_error
  | Invalid_data_error
  | Duplicate_data_error
  | Nonexistent_data_error
  | Unknown_error
  | Seek_out_of_range
  | Std_invalid_argument
  | Std_out_of_range
  | Std_runtime_error
  | Std_bad_alloc
  | Null_deref
  | Undefined
  | Aborted

section \<open>Actions: state passing with exceptions\<close>

text \<open>
  A member function that mutates its object is an action: it maps the state to its outcome
  (an exception or a result) and the state it leaves behind. As in C++, the state reached
  before a \<^verbatim>\<open>throw\<close> survives it.
\<close>

type_synonym ('s, 'a) action = "'s \<Rightarrow> (err + 'a) \<times> 's"

definition ret :: "'a \<Rightarrow> ('s, 'a) action" where
  "ret a = (\<lambda>s. (Inr a, s))"

definition throw :: "err \<Rightarrow> ('s, 'a) action" where
  "throw e = (\<lambda>s. (Inl e, s))"

definition seq :: "('s, 'a) action \<Rightarrow> ('a \<Rightarrow> ('s, 'b) action) \<Rightarrow> ('s, 'b) action" where
  "seq m k = (\<lambda>s. case m s of (Inl e, s') \<Rightarrow> (Inl e, s') | (Inr a, s') \<Rightarrow> k a s')"

definition andthen :: "('s, 'a) action \<Rightarrow> ('s, 'b) action \<Rightarrow> ('s, 'b) action" where
  "andthen m n = seq m (\<lambda>_. n)"

definition gets :: "('s \<Rightarrow> 'a) \<Rightarrow> ('s, 'a) action" where
  "gets f = (\<lambda>s. (Inr (f s), s))"

definition modify :: "('s \<Rightarrow> 's) \<Rightarrow> ('s, unit) action" where
  "modify f = (\<lambda>s. (Inr (), f s))"

definition whenever :: "bool \<Rightarrow> ('s, unit) action \<Rightarrow> ('s, unit) action" where
  "whenever b m = (if b then m else ret ())"

fun for_each :: "('x \<Rightarrow> ('s, unit) action) \<Rightarrow> 'x list \<Rightarrow> ('s, unit) action" where
  "for_each f [] = ret ()"
| "for_each f (x # xs) = andthen (f x) (for_each f xs)"

lemma for_each_map: "for_each f (map g xs) = for_each (\<lambda>x. f (g x)) xs"
  by (induction xs) simp_all

named_theorems act \<open>evaluation rules of the action combinators\<close>

lemma ret_apply [act]: "ret a s = (Inr a, s)"
  by (simp add: ret_def)

lemma throw_apply [act]: "throw e s = (Inl e, s)"
  by (simp add: throw_def)

lemma seq_apply [act]:
  "seq m k s = (case m s of (Inl e, s') \<Rightarrow> (Inl e, s') | (Inr a, s') \<Rightarrow> k a s')"
  by (simp add: seq_def)

lemma andthen_apply [act]:
  "andthen m n s = (case m s of (Inl e, s') \<Rightarrow> (Inl e, s') | (Inr a, s') \<Rightarrow> n s')"
  by (simp add: andthen_def seq_def)

lemma gets_apply [act]: "gets f s = (Inr (f s), s)"
  by (simp add: gets_def)

lemma modify_apply [act]: "modify f s = (Inr (), f s)"
  by (simp add: modify_def)

lemma whenever_apply [act]: "whenever b m s = (if b then m s else (Inr (), s))"
  by (simp add: whenever_def ret_def)

definition lift :: "err + 'a \<Rightarrow> ('s, 'a) action" where
  "lift r = (\<lambda>s. (r, s))"

lemma lift_apply [act]: "lift r s = (r, s)"
  by (simp add: lift_def)

lemma for_each_fine: "(\<And>x s. x \<in> set xs \<Longrightarrow> fst (f x s) = Inr ()) \<Longrightarrow> fst (for_each f xs s) = Inr ()"
proof (induction xs arbitrary: s)
  case (Cons a xs)
  have "fst (f a s) = Inr ()" "fst (for_each f xs t) = Inr ()" for t using Cons by simp_all
  then show ?case by (cases "f a s") (simp add: act)
qed (simp add: act)

lemma for_each_append: "for_each f (xs @ ys) s = andthen (for_each f xs) (for_each f ys) s"
  by (induction xs arbitrary: s) (simp_all add: act split: prod.splits sum.splits)

lemma andthen_seq: "andthen (seq m k) n = seq m (\<lambda>a. andthen (k a) n)"
  by (simp add: fun_eq_iff act split: prod.splits sum.splits)

text \<open>One step of a program whose first action is known.\<close>

lemma steps:
  "seq (gets f) k s = k (f s) s"
  "andthen (modify g) n s = n (g s)"
  "whenever True n = n"
  by (simp_all add: act whenever_def)

section \<open>Weakest preconditions\<close>

text \<open>
  \<open>wp m Q E s\<close>: from \<open>s\<close> the action returns with \<open>Q\<close> or throws with \<open>E\<close>. The rules are
  equations, so the simplifier walks through a program.
\<close>

definition wp :: "('s, 'a) action \<Rightarrow> ('a \<Rightarrow> 's \<Rightarrow> bool) \<Rightarrow> (err \<Rightarrow> 's \<Rightarrow> bool) \<Rightarrow> 's \<Rightarrow> bool" where
  "wp m Q E s \<longleftrightarrow> (case m s of (Inr a, s') \<Rightarrow> Q a s' | (Inl e, s') \<Rightarrow> E e s')"

named_theorems wps \<open>weakest preconditions of the action combinators\<close>

lemma wp_ret [wps]: "wp (ret a) Q E s \<longleftrightarrow> Q a s"
  by (simp add: wp_def act)

lemma wp_throw [wps]: "wp (throw e) Q E s \<longleftrightarrow> E e s"
  by (simp add: wp_def act)

lemma wp_seq [wps]: "wp (seq m k) Q E s \<longleftrightarrow> wp m (\<lambda>a. wp (k a) Q E) E s"
  by (simp add: wp_def act split: prod.splits sum.splits)

lemma wp_andthen [wps]: "wp (andthen m n) Q E s \<longleftrightarrow> wp m (\<lambda>_. wp n Q E) E s"
  by (simp add: wp_def act split: prod.splits sum.splits)

lemma wp_gets [wps]: "wp (gets f) Q E s \<longleftrightarrow> Q (f s) s"
  by (simp add: wp_def act)

lemma wp_modify [wps]: "wp (modify f) Q E s \<longleftrightarrow> Q () (f s)"
  by (simp add: wp_def act)

lemma wp_whenever [wps]: "wp (whenever b m) Q E s \<longleftrightarrow> (if b then wp m Q E s else Q () s)"
  by (simp add: wp_def act)

lemma wp_lift [wps]: "wp (lift r) Q E s \<longleftrightarrow> (case r of Inl e \<Rightarrow> E e s | Inr a \<Rightarrow> Q a s)"
  by (simp add: wp_def act split: sum.splits)

lemma wp_for_each_Nil [wps]: "wp (for_each f []) Q E s \<longleftrightarrow> Q () s"
  by (simp add: wps)

lemma wp_for_each_Cons [wps]:
  "wp (for_each f (x # xs)) Q E s \<longleftrightarrow> wp (f x) (\<lambda>_. wp (for_each f xs) Q E) E s"
  by (simp add: wps)

lemma wp_mono: "wp m Q E s \<Longrightarrow> (\<And>a s. Q a s \<Longrightarrow> Q' a s) \<Longrightarrow> (\<And>e s. E e s \<Longrightarrow> E' e s) \<Longrightarrow> wp m Q' E' s"
  by (auto simp: wp_def split: prod.splits sum.splits)

lemma wp_for_each:
  assumes "P s" and "\<And>x s. x \<in> set xs \<Longrightarrow> P s \<Longrightarrow> wp (f x) (\<lambda>_. P) E s" and "\<And>s. P s \<Longrightarrow> Q () s"
  shows "wp (for_each f xs) Q E s"
  using assms
proof (induction xs arbitrary: s)
  case Nil
  then show ?case by (simp only: wps)
next
  case (Cons x xs)
  then have "wp (f x) (\<lambda>_. P) E s" by simp
  then show ?case unfolding wps
    by (rule wp_mono) (use Cons in simp)+
qed

lemma wp_result: "wp m Q E s \<Longrightarrow> m s = (Inr a, s') \<Longrightarrow> Q a s'"
  by (simp add: wp_def)

lemma wp_error: "wp m Q E s \<Longrightarrow> m s = (Inl e, s') \<Longrightarrow> E e s'"
  by (simp add: wp_def)

text \<open>An action whose weakest precondition is that of one outcome has that outcome.\<close>

lemma wp_run: "(\<And>Q E. wp m Q E s \<longleftrightarrow> Q a s') \<Longrightarrow> m s = (Inr a, s')"
proof -
  assume "\<And>Q E. wp m Q E s \<longleftrightarrow> Q a s'"
  then have "wp m (\<lambda>b t. b = a \<and> t = s') (\<lambda>_ _. False) s" by simp
  then show ?thesis by (auto simp: wp_def split: prod.splits sum.splits)
qed

section \<open>Relations every action respects\<close>

text \<open>
  \<open>moves R m\<close>: the action takes a state only to states related by \<open>R\<close>, thrown or not. For a
  preorder the rules are compositional.
\<close>

definition moves :: "('s \<Rightarrow> 's \<Rightarrow> bool) \<Rightarrow> ('s, 'a) action \<Rightarrow> bool" where
  "moves R m \<longleftrightarrow> (\<forall>s. R s (snd (m s)))"

lemma moves_ret: "reflp R \<Longrightarrow> moves R (ret a)"
  by (simp add: moves_def act reflpD)

lemma moves_throw: "reflp R \<Longrightarrow> moves R (throw e)"
  by (simp add: moves_def act reflpD)

lemma moves_lift: "reflp R \<Longrightarrow> moves R (lift r)"
  by (simp add: moves_def act reflpD)

lemma moves_seq:
  assumes "transp R" and "moves R m" and "\<And>a. moves R (k a)"
  shows "moves R (seq m k)"
  unfolding moves_def
proof
  fix s
  have "R s (snd (m s))" using assms(2) by (simp add: moves_def)
  moreover have "R t (snd (k a t))" for a t using assms(3) by (simp add: moves_def)
  ultimately show "R s (snd (seq m k s))"
    using transpD [OF assms(1)] by (auto simp: act split: prod.splits sum.splits)
qed

lemma moves_andthen: "transp R \<Longrightarrow> moves R m \<Longrightarrow> moves R n \<Longrightarrow> moves R (andthen m n)"
  by (simp add: andthen_def moves_seq)

lemma moves_whenever: "reflp R \<Longrightarrow> moves R m \<Longrightarrow> moves R (whenever b m)"
  by (simp add: whenever_def moves_ret)

lemma moves_for_each: "reflp R \<Longrightarrow> transp R \<Longrightarrow> (\<And>x. moves R (f x)) \<Longrightarrow> moves R (for_each f xs)"
  by (induction xs) (simp_all add: moves_ret moves_andthen)

lemma moves_modify: "(\<And>s. R s (f s)) \<Longrightarrow> moves R (modify f)"
  by (simp add: moves_def act)

lemma moves_gets: "reflp R \<Longrightarrow> moves R (gets f)"
  by (simp add: moves_def act reflp_def)

lemma moves_option: "moves R m \<Longrightarrow> (\<And>a. moves R (f a)) \<Longrightarrow> moves R (case v of None \<Rightarrow> m | Some a \<Rightarrow> f a)"
  by (cases v) simp_all

lemma moves_if: "moves R m \<Longrightarrow> moves R m' \<Longrightarrow> moves R (if b then m else m')"
  by simp

lemmas moves_refl = moves_ret moves_throw moves_lift moves_whenever

lemmas moves_trans = moves_seq moves_andthen

section \<open>List lemmas\<close>

lemma take_drop_chain: "take n (drop m xs) @ drop (n + m) xs = drop m xs"
  by (metis append_take_drop_id drop_drop)

lemma remove_nth_tag:
  assumes "distinct (map fst ps)" and "n < length ps" and "ps ! n = (i, op)"
  shows "distinct (map fst (take n ps @ drop (Suc n) ps))" "i \<notin> fst ` set (take n ps @ drop (Suc n) ps)"
    "set ps = insert (i, op) (set (take n ps @ drop (Suc n) ps))"
proof -
  have ps: "ps = take n ps @ (i, op) # drop (Suc n) ps" using id_take_nth_drop [OF assms(2)] assms(3) by simp
  have "distinct (map fst (take n ps @ (i, op) # drop (Suc n) ps))" using assms(1) ps by simp
  then show "distinct (map fst (take n ps @ drop (Suc n) ps))" "i \<notin> fst ` set (take n ps @ drop (Suc n) ps)"
    by auto
  show "set ps = insert (i, op) (set (take n ps @ drop (Suc n) ps))" by (subst ps) auto
qed

lemma length_str [simp]: "length (str s) = length s"
  by (simp add: str_def)

end
