(* ===== verification/Std_Map.thy ===== *)
theory Std_Map
  imports Prelude
begin

text \<open>
  The containers the code keeps its tables in. A \<^verbatim>\<open>std::map\<close> is a list of entries in
  strictly increasing key order, so that \<^verbatim>\<open>begin()\<close>, \<^verbatim>\<open>rbegin()\<close> and iteration mean what
  they mean in C++; a \<^verbatim>\<open>boost::unordered_map\<close>, which is never iterated, is a partial
  function. The locale \<open>key_table\<close> is the contract the clients rely on, \<open>ordered_table\<close>
  adds what the stream's segment queues need of the first entry.
\<close>

section \<open>The contract of a table\<close>

locale key_table =
  fixes empty :: 'm
    and find :: "'m \<Rightarrow> 'k \<Rightarrow> 'v option"
    and insert :: "'k \<Rightarrow> 'v \<Rightarrow> 'm \<Rightarrow> 'm"
    and assign :: "'k \<Rightarrow> 'v \<Rightarrow> 'm \<Rightarrow> 'm"
    and erase :: "'k \<Rightarrow> 'm \<Rightarrow> 'm"
    and ok :: "'m \<Rightarrow> bool"
  assumes ok_empty: "ok empty"
    and ok_insert: "ok m \<Longrightarrow> ok (insert k v m)"
    and ok_assign: "ok m \<Longrightarrow> ok (assign k v m)"
    and ok_erase: "ok m \<Longrightarrow> ok (erase k m)"
    and find_empty: "find empty k = None"
    and find_insert: "ok m \<Longrightarrow> find (insert k v m) k' =
      (if k' = k \<and> find m k = None then Some v else find m k')"
    and find_assign: "ok m \<Longrightarrow> find (assign k v m) k' = (if k' = k then Some v else find m k')"
    and find_erase: "ok m \<Longrightarrow> find (erase k m) k' = (if k' = k then None else find m k')"
begin

lemma insert_new: "ok m \<Longrightarrow> find m k = None \<Longrightarrow> find (insert k v m) k = Some v"
  by (simp add: find_insert)

lemma insert_present: "ok m \<Longrightarrow> find m k = Some w \<Longrightarrow> find (insert k v m) k' = find m k'"
  by (simp add: find_insert)

lemma insert_other: "ok m \<Longrightarrow> k' \<noteq> k \<Longrightarrow> find (insert k v m) k' = find m k'"
  by (simp add: find_insert)

lemma insert_twice: "ok m \<Longrightarrow> find (insert k w (insert k v m)) k' = find (insert k v m) k'"
  by (simp add: find_insert ok_insert)

lemma insert_defined: "ok m \<Longrightarrow> find (insert k v m) k \<noteq> None"
  by (simp add: find_insert)

lemma erase_absent: "ok m \<Longrightarrow> find m k = None \<Longrightarrow> find (erase k m) k' = find m k'"
  by (simp add: find_erase)

lemma insert_after_erase: "ok m \<Longrightarrow> find (insert k v (erase k m)) k = Some v"
  by (simp add: find_insert find_erase ok_erase)

text \<open>A predicate on all stored values survives every operation that stores only such values.\<close>

definition every :: "('v \<Rightarrow> bool) \<Rightarrow> 'm \<Rightarrow> bool" where
  "every P m \<longleftrightarrow> (\<forall>k v. find m k = Some v \<longrightarrow> P v)"

lemma every_empty: "every P empty"
  by (simp add: every_def find_empty)

lemma every_insert: "ok m \<Longrightarrow> every P m \<Longrightarrow> P v \<Longrightarrow> every P (insert k v m)"
  by (auto simp: every_def find_insert)

lemma every_assign: "ok m \<Longrightarrow> every P m \<Longrightarrow> P v \<Longrightarrow> every P (assign k v m)"
  by (auto simp: every_def find_assign)

lemma every_erase: "ok m \<Longrightarrow> every P m \<Longrightarrow> every P (erase k m)"
  by (auto simp: every_def find_erase)

end

text \<open>The ordered tables also have a first entry, the one with the least key.\<close>

locale ordered_table = key_table empty find insert assign erase ok
  for empty :: 'm
    and find :: "'m \<Rightarrow> 'k::linorder \<Rightarrow> 'v option"
    and insert :: "'k \<Rightarrow> 'v \<Rightarrow> 'm \<Rightarrow> 'm"
    and assign :: "'k \<Rightarrow> 'v \<Rightarrow> 'm \<Rightarrow> 'm"
    and erase :: "'k \<Rightarrow> 'm \<Rightarrow> 'm"
    and ok :: "'m \<Rightarrow> bool" +
  fixes first :: "'m \<Rightarrow> ('k \<times> 'v) option"
  assumes first_None: "ok m \<Longrightarrow> first m = None \<Longrightarrow> find m k = None"
    and first_find: "ok m \<Longrightarrow> first m = Some (k, v) \<Longrightarrow> find m k = Some v"
    and first_least: "ok m \<Longrightarrow> first m = Some (k, v) \<Longrightarrow> find m k' = Some w \<Longrightarrow> k \<le> k'"
begin

lemma first_unique: "ok m \<Longrightarrow> find m k = Some v \<Longrightarrow> (\<And>k' w. find m k' = Some w \<Longrightarrow> k \<le> k') \<Longrightarrow>
    first m = Some (k, v)"
  by (metis first_None first_find first_least option.collapse option.distinct(1) option.inject order.antisym prod.collapse)

lemma first_blocked:
  assumes "ok m" and "find m k = Some v" and "k < n"
  shows "\<exists>k' w. first m = Some (k', w) \<and> k' < n"
proof (cases "first m")
  case None
  with assms show ?thesis by (simp add: first_None)
next
  case (Some e)
  moreover obtain k' w where "e = (k', w)" by (cases e)
  ultimately show ?thesis using assms first_least by fastforce
qed

lemma assign_first_blocked:
  assumes "ok m" and "first m = Some (k, v)" and "k < n"
  shows "\<exists>k' w. first (assign j x m) = Some (k', w) \<and> k' < n"
proof -
  from assms have "find (assign j x m) k \<noteq> None"
    by (auto simp: find_assign dest: first_find)
  with assms show ?thesis
    by (metis first_blocked ok_assign option.exhaust)
qed

end

section \<open>std::map\<close>

type_synonym ('k, 'v) std_map = "('k \<times> 'v) list"

definition sorted_keys :: "('k::linorder, 'v) std_map \<Rightarrow> bool" where
  "sorted_keys m \<longleftrightarrow> sorted_wrt (<) (map fst m)"

text \<open>\<^verbatim>\<open>insert\<close> and \<^verbatim>\<open>emplace\<close> leave an entry that is already there alone.\<close>

fun map_insert :: "'k::linorder \<Rightarrow> 'v \<Rightarrow> ('k, 'v) std_map \<Rightarrow> ('k, 'v) std_map" where
  "map_insert k v [] = [(k, v)]"
| "map_insert k v ((k', v') # m) =
     (if k < k' then (k, v) # (k', v') # m
      else if k = k' then (k', v') # m
      else (k', v') # map_insert k v m)"

text \<open>\<^verbatim>\<open>m[k] = v\<close> overwrites it.\<close>

fun map_assign :: "'k::linorder \<Rightarrow> 'v \<Rightarrow> ('k, 'v) std_map \<Rightarrow> ('k, 'v) std_map" where
  "map_assign k v [] = [(k, v)]"
| "map_assign k v ((k', v') # m) =
     (if k < k' then (k, v) # (k', v') # m
      else if k = k' then (k, v) # m
      else (k', v') # map_assign k v m)"

fun map_erase :: "'k::linorder \<Rightarrow> ('k, 'v) std_map \<Rightarrow> ('k, 'v) std_map" where
  "map_erase k [] = []"
| "map_erase k ((k', v') # m) = (if k = k' then m else (k', v') # map_erase k m)"

fun map_first :: "('k, 'v) std_map \<Rightarrow> ('k \<times> 'v) option" where
  "map_first [] = None"
| "map_first (e # m) = Some e"

lemma sorted_keys_Nil [simp]: "sorted_keys []"
  by (simp add: sorted_keys_def)

lemma sorted_keys_Cons [simp]:
  "sorted_keys ((k, v) # m) \<longleftrightarrow> (\<forall>k' \<in> fst ` set m. k < k') \<and> sorted_keys m"
  by (auto simp: sorted_keys_def)

lemma map_insert_keys: "fst ` set (map_insert k v m) = Set.insert k (fst ` set m)"
  by (induction k v m rule: map_insert.induct) auto

lemma map_assign_keys: "fst ` set (map_assign k v m) = Set.insert k (fst ` set m)"
  by (induction k v m rule: map_assign.induct) auto

lemma map_erase_keys: "fst ` set (map_erase k m) \<subseteq> fst ` set m"
  by (induction k m rule: map_erase.induct) auto

lemma sorted_map_insert: "sorted_keys m \<Longrightarrow> sorted_keys (map_insert k v m)"
  by (induction k v m rule: map_insert.induct) (auto simp: map_insert_keys)

lemma sorted_map_assign: "sorted_keys m \<Longrightarrow> sorted_keys (map_assign k v m)"
  by (induction k v m rule: map_assign.induct) (auto simp: map_assign_keys)

lemma sorted_map_erase: "sorted_keys m \<Longrightarrow> sorted_keys (map_erase k m)"
  by (induction k m rule: map_erase.induct) (use map_erase_keys in fastforce)+

lemma find_None_sorted: "\<forall>e \<in> set m. (k :: 'k :: linorder) < fst e \<Longrightarrow> map_of m k = None"
  by (induction m) auto

lemma find_None_below: "\<forall>e \<in> set m. (j :: 'k :: linorder) < fst e \<Longrightarrow> k < j \<Longrightarrow> map_of m k = None"
  by (induction m) auto

lemma find_map_insert: "sorted_keys m \<Longrightarrow> map_of (map_insert k v m) k' =
    (if k' = k \<and> map_of m k = None then Some v else map_of m k')"
  by (induction k v m rule: map_insert.induct) (auto simp: find_None_sorted find_None_below)

lemma find_map_assign:
  "sorted_keys m \<Longrightarrow> map_of (map_assign k v m) k' = (if k' = k then Some v else map_of m k')"
  by (induction k v m rule: map_assign.induct) (auto simp: find_None_sorted find_None_below)

lemma find_map_erase:
  "sorted_keys m \<Longrightarrow> map_of (map_erase k m) k' = (if k' = k then None else map_of m k')"
  by (induction k m rule: map_erase.induct) (auto simp: find_None_sorted find_None_below)

lemma sorted_find: "sorted_keys m \<Longrightarrow> (k, v) \<in> set m \<Longrightarrow> map_of m k = Some v"
  by (rule map_of_is_SomeI) (auto simp: sorted_keys_def strict_sorted_iff)

lemma map_first_None: "map_first m = None \<longleftrightarrow> m = []"
  by (cases m) auto

lemma map_first_Some: "map_first m = Some e \<longleftrightarrow> (\<exists>m'. m = e # m')"
  by (cases m) auto

lemma map_first_least:
  "sorted_keys m \<Longrightarrow> map_first m = Some (k, v) \<Longrightarrow> map_of m k' = Some w \<Longrightarrow> k \<le> k'"
  by (cases m) (fastforce dest!: map_of_SomeD split: if_splits)+

interpretation smap: ordered_table "[]" map_of map_insert map_assign map_erase sorted_keys map_first
  by unfold_locales
    (auto simp: sorted_map_insert sorted_map_assign sorted_map_erase find_map_insert find_map_assign
      find_map_erase map_first_None map_first_Some split: if_splits
      dest: map_first_least)

text \<open>Appending beyond the greatest key puts the entry last.\<close>

lemma map_insert_last:
  "(\<forall>k' \<in> fst ` set m. k' < k) \<Longrightarrow> map_insert k v m = m @ [(k, v)]"
  by (induction k v m rule: map_insert.induct) auto

lemma map_insert_found: "sorted_keys m \<Longrightarrow> k \<in> fst ` set m \<Longrightarrow> map_insert k v m = m"
  by (induction k v m rule: map_insert.induct) auto

section \<open>boost::unordered_map\<close>

definition umap_insert :: "'k \<Rightarrow> 'v \<Rightarrow> ('k \<rightharpoonup> 'v) \<Rightarrow> ('k \<rightharpoonup> 'v)" where
  "umap_insert k v m = (case m k of None \<Rightarrow> m(k \<mapsto> v) | Some _ \<Rightarrow> m)"

definition umap_assign :: "'k \<Rightarrow> 'v \<Rightarrow> ('k \<rightharpoonup> 'v) \<Rightarrow> ('k \<rightharpoonup> 'v)" where
  "umap_assign k v m = m(k \<mapsto> v)"

definition umap_erase :: "'k \<Rightarrow> ('k \<rightharpoonup> 'v) \<Rightarrow> ('k \<rightharpoonup> 'v)" where
  "umap_erase k m = m(k := None)"

interpretation umap: key_table "\<lambda>_. None" "\<lambda>m. m" umap_insert umap_assign umap_erase "\<lambda>_. True"
  by unfold_locales
    (auto simp: umap_insert_def umap_assign_def umap_erase_def split: option.splits)

end
