(* ===== verification/Byte_String.thy ===== *)
theory Byte_String
  imports Prelude
begin

text \<open>
  \<^verbatim>\<open>client/sml/byte_string.h\<close> and \<^verbatim>\<open>byte_string.cpp\<close>: a growable byte buffer with a cursor,
  on which datagrams are encoded and decoded. The buffer is modelled cell by cell, a cell
  that was never written being \<open>None\<close>; reads and writes outside the buffer are the outcome
  \<open>Undefined\<close>. Its correctness is in \<open>Byte_Stream\<close>.
\<close>

section \<open>The object\<close>

type_synonym cell = "byte option"

record byte_string =
  bs_buf :: "cell list"   \<comment> \<open>\<open>buf_\<close>, the empty list when it is null\<close>
  bs_len :: int           \<comment> \<open>\<open>data_len_\<close>\<close>
  bs_size :: int          \<comment> \<open>\<open>buf_size_\<close>\<close>
  bs_off :: int           \<comment> \<open>\<open>offset_\<close>\<close>

definition bs_empty :: byte_string where
  "bs_empty = \<lparr>bs_buf = [], bs_len = 0, bs_size = 0, bs_off = 0\<rparr>"

text \<open>The value of a cell; an indeterminate one reads as 0, which the invariant excludes.\<close>

definition cell_val :: "cell \<Rightarrow> byte" where
  "cell_val c = (case c of None \<Rightarrow> 0 | Some x \<Rightarrow> x)"

section \<open>Buffer management\<close>

definition ALIGNED_SIZE :: int where
  "ALIGNED_SIZE = 16"

definition bs_align :: "int \<Rightarrow> int" where
  "bs_align sz =
     (if sz \<ge> 1 then u64 (((sz - 1) AND u64 (NOT (ALIGNED_SIZE - 1))) + ALIGNED_SIZE) else 0)"

text \<open>
  \<^verbatim>\<open>_change_buffer_size_to\<close>. An allocation beyond the platform's \<^verbatim>\<open>PTRDIFF_MAX\<close> raises
  \<^verbatim>\<open>std::bad_alloc\<close>; any other allocation succeeds.
\<close>

definition bs_change_buffer_size :: "int \<Rightarrow> (byte_string, int) action" where
  "bs_change_buffer_size want = (\<lambda>b.
     let sz = bs_align want in
     if sz = 0 then (Inr 0, b\<lparr>bs_buf := [], bs_size := 0\<rparr>)
     else if sz \<ge> 2 ^ 63 then (Inl Std_bad_alloc, b)
     else
       let keep = (if bs_buf b \<noteq> [] then u64 (s32 (min sz (u64 (bs_len b)))) else 0) in
       if nat keep > length (bs_buf b) then (Inl Undefined, b)
       else (Inr (u64 (s32 sz)),
             b\<lparr>bs_buf := take (nat keep) (bs_buf b) @ replicate (nat (sz - keep)) None,
               bs_size := s32 sz\<rparr>))"

text \<open>
  The doubling loop of \<^verbatim>\<open>adjust_buffer_size\<close>: \<open>Some None\<close> is its early return when \<open>dst\<close>
  became 0, and \<open>None\<close> that the fuel ran out; 34 rounds always suffice
  (\<open>bs_double_loop_ends\<close>).
\<close>

fun bs_double_loop :: "nat \<Rightarrow> int \<Rightarrow> int \<Rightarrow> int option option" where
  "bs_double_loop 0 need dst = None"
| "bs_double_loop (Suc fuel) need dst =
     (if u64 dst < need
      then (let dst' = s32 (2 * dst) in
            if dst' = 0 then Some None else bs_double_loop fuel need dst')
      else Some (Some dst))"

definition bs_adjust_buffer_size :: "int \<Rightarrow> (byte_string, int) action" where
  "bs_adjust_buffer_size need =
     (case bs_double_loop 34 need 1 of
        None \<Rightarrow> throw Undefined
      | Some None \<Rightarrow> gets (\<lambda>b. u64 (bs_size b))
      | Some (Some dst) \<Rightarrow> bs_change_buffer_size (u64 dst))"

definition bs_guarantee_space :: "int \<Rightarrow> (byte_string, int) action" where
  "bs_guarantee_space sz =
     seq (gets bs_size) (\<lambda>buf_size.
       if sz > u64 buf_size then bs_adjust_buffer_size sz else ret (u64 buf_size))"

section \<open>Construction\<close>

definition bs_of_size :: "int \<Rightarrow> err + byte_string" where
  "bs_of_size init_buf_size =
     (case bs_change_buffer_size (u64 init_buf_size) bs_empty of
        (Inl e, _) \<Rightarrow> Inl e
      | (Inr _, b) \<Rightarrow> Inr b)"

text \<open>\<^verbatim>\<open>memcpy\<close> of cells to the start of the buffer.\<close>

definition bs_fill :: "cell list \<Rightarrow> (byte_string, unit) action" where
  "bs_fill src = (\<lambda>b.
     if length src > length (bs_buf b) then (Inl Undefined, b)
     else (Inr (), b\<lparr>bs_buf := src @ drop (length src) (bs_buf b)\<rparr>))"

definition bs_of_string :: "bytes \<Rightarrow> err + byte_string" where
  "bs_of_string val =
     (case bs_of_size (s32 (int (length val))) of
        Inl e \<Rightarrow> Inl e
      | Inr b \<Rightarrow>
          let data_len = s32 (int (length val)) in
          (case andthen (modify (\<lambda>b. b\<lparr>bs_len := data_len\<rparr>))
                  (andthen (bs_guarantee_space (u64 data_len))
                    (bs_fill (map Some (take (nat (u64 data_len)) val)))) b of
             (Inl e, _) \<Rightarrow> Inl e
           | (Inr _, b') \<Rightarrow> Inr b'))"

definition bs_of_memory :: "cell list \<Rightarrow> err + byte_string" where
  "bs_of_memory mem =
     (let len = int (length mem) in
      case bs_of_size len of
        Inl e \<Rightarrow> Inl e
      | Inr b \<Rightarrow> (case andthen (modify (\<lambda>b. b\<lparr>bs_len := len\<rparr>)) (bs_fill mem) b of
                   (Inl e, _) \<Rightarrow> Inl e
                 | (Inr _, b') \<Rightarrow> Inr b'))"

definition bs_data :: "byte_string \<Rightarrow> cell list" where
  "bs_data b = take (nat (bs_len b)) (bs_buf b)"

definition bs_copy :: "byte_string \<Rightarrow> err + byte_string" where
  "bs_copy val =
     (case bs_of_size (bs_size val) of
        Inl e \<Rightarrow> Inl e
      | Inr b \<Rightarrow>
          if u64 (bs_len val) > int (length (bs_buf val)) then Inl Undefined
          else (case andthen (modify (\<lambda>b. b\<lparr>bs_len := bs_len val\<rparr>)) (bs_fill (bs_data val)) b of
                  (Inl e, _) \<Rightarrow> Inl e
                | (Inr _, b') \<Rightarrow> Inr b'))"

definition bs_sub :: "byte_string \<Rightarrow> int \<Rightarrow> int \<Rightarrow> err + byte_string" where
  "bs_sub b start len =
     (if len < 0 then (case bs_of_size len of Inl e \<Rightarrow> Inl e | Inr _ \<Rightarrow> Inl Undefined)
      else if start < 0 \<or> start + len > int (length (bs_buf b)) then Inl Undefined
      else bs_of_memory (take (nat len) (drop (nat start) (bs_buf b))))"

text \<open>Assignment keeps the cursor of the target where it was.\<close>

definition bs_assign :: "byte_string \<Rightarrow> (byte_string, unit) action" where
  "bs_assign val =
     andthen (bs_change_buffer_size (u64 (bs_size val)))
     (andthen (modify (\<lambda>b. b\<lparr>bs_len := bs_len val\<rparr>))
       (if u64 (bs_len val) > int (length (bs_buf val)) then throw Undefined
        else bs_fill (bs_data val)))"

section \<open>Reading and writing at the cursor\<close>

definition bs_can_write :: "(byte_string, int) action" where
  "bs_can_write = (\<lambda>b.
     if bs_size b \<ge> bs_off b then (Inr (u64 (bs_size b - bs_off b)), b) else (Inl Undefined, b))"

definition bs_blit :: "cell list \<Rightarrow> (byte_string, unit) action" where
  "bs_blit src = (\<lambda>b.
     if bs_off b < 0 \<or> bs_off b + int (length src) > int (length (bs_buf b))
     then (Inl Undefined, b)
     else (Inr (), b\<lparr>bs_buf := take (nat (bs_off b)) (bs_buf b) @ src
                      @ drop (nat (bs_off b) + length src) (bs_buf b)\<rparr>))"

definition bs_might_update_data_len :: "(byte_string, unit) action" where
  "bs_might_update_data_len =
     modify (\<lambda>b. b\<lparr>bs_len := (if bs_off b > bs_len b then bs_off b else bs_len b)\<rparr>)"

text \<open>\<^verbatim>\<open>write(buf, n)\<close>: \<open>None\<close> is a null \<^verbatim>\<open>buf\<close>, \<open>Some src\<close> the \<open>n\<close> cells it points to.\<close>

definition bs_write :: "cell list option \<Rightarrow> (byte_string, int) action" where
  "bs_write p =
     (case p of
        None \<Rightarrow> ret 0
      | Some src \<Rightarrow>
          (let n = int (length src) in
           if n = 0 then ret 0
           else seq (gets bs_off) (\<lambda>off.
             andthen (bs_guarantee_space (u64 (off + n)))
             (seq bs_can_write (\<lambda>can_write.
               let n = (if can_write \<ge> n then n else can_write) in
               andthen (bs_blit (take (nat n) src))
               (andthen (modify (\<lambda>b. b\<lparr>bs_off := s32 (bs_off b + n)\<rparr>))
               (andthen bs_might_update_data_len
                 (ret n))))))))"

definition bs_can_read :: "byte_string \<Rightarrow> int" where
  "bs_can_read b = u64 (bs_len b - bs_off b)"

text \<open>\<^verbatim>\<open>read(buf, n)\<close>: the flag says whether \<^verbatim>\<open>buf\<close> is null; the cells read are returned.\<close>

definition bs_read :: "bool \<Rightarrow> int \<Rightarrow> (byte_string, cell list) action" where
  "bs_read null n =
     (if null \<or> n = 0 then ret []
      else (\<lambda>b.
        let n = (if bs_can_read b \<ge> n then n else bs_can_read b) in
        if bs_off b < 0 \<or> bs_off b + n > int (length (bs_buf b)) then (Inl Undefined, b)
        else (Inr (take (nat n) (drop (nat (bs_off b)) (bs_buf b))),
              b\<lparr>bs_off := s32 (bs_off b + n)\<rparr>)))"

datatype whence_type = Seek_set | Seek_cur | Seek_end

definition bs_seek :: "whence_type \<Rightarrow> int \<Rightarrow> (byte_string, int) action" where
  "bs_seek whence offset =
     andthen
       (case whence of
          Seek_cur \<Rightarrow> modify (\<lambda>b. b\<lparr>bs_off := s32 (bs_off b + offset)\<rparr>)
        | Seek_end \<Rightarrow> modify (\<lambda>b. b\<lparr>bs_off := s32 (bs_len b + offset)\<rparr>)
        | Seek_set \<Rightarrow> modify (\<lambda>b. b\<lparr>bs_off := s32 offset\<rparr>))
       (\<lambda>b. if bs_off b > bs_len b then (Inl Seek_out_of_range, b)
            else (Inr (u64 (bs_off b)), b))"

definition bs_append :: "cell list option \<Rightarrow> (byte_string, int) action" where
  "bs_append p = andthen (bs_seek Seek_end 0) (bs_write p)"

definition bs_append_bs :: "byte_string \<Rightarrow> (byte_string, int) action" where
  "bs_append_bs val = bs_append (if bs_buf val = [] then None else Some (bs_data val))"

text \<open>\<^verbatim>\<open>append<T>\<close> goes through a big-endian buffer; \<open>be\<close> is the value's big-endian bytes.\<close>

definition bs_append_value :: "bytes \<Rightarrow> (byte_string, int) action" where
  "bs_append_value be = bs_append (Some (map Some be))"

definition bs_plus :: "byte_string \<Rightarrow> (byte_string, unit) action" where
  "bs_plus val = andthen (bs_append_bs val) (ret ())"

section \<open>Observers and comparison\<close>

definition bs_index :: "byte_string \<Rightarrow> int \<Rightarrow> err + cell" where
  "bs_index b index =
     (if index < bs_len b \<and> index \<ge> 0 then
        (if nat index < length (bs_buf b) then Inr (bs_buf b ! nat index) else Inl Undefined)
      else Inl Access_violation)"

text \<open>What an assignment through the reference that \<^verbatim>\<open>operator[]\<close> returns does.\<close>

definition bs_store :: "int \<Rightarrow> byte \<Rightarrow> (byte_string, unit) action" where
  "bs_store index c = seq (gets (\<lambda>b. bs_index b index)) (\<lambda>r. seq (lift r)
     (\<lambda>_. modify (\<lambda>b. b\<lparr>bs_buf := (bs_buf b)[nat index := Some c]\<rparr>)))"

definition bs_length :: "byte_string \<Rightarrow> int" where
  "bs_length b = u64 (bs_len b)"

definition bs_capacity :: "byte_string \<Rightarrow> int" where
  "bs_capacity b = u64 (bs_size b)"

definition bs_to_string :: "byte_string \<Rightarrow> bytes" where
  "bs_to_string b = map cell_val (bs_data b)"

text \<open>The sign of \<^verbatim>\<open>memcmp\<close> on the first \<open>n\<close> bytes of two sequences.\<close>

fun memcmp :: "nat \<Rightarrow> bytes \<Rightarrow> bytes \<Rightarrow> int" where
  "memcmp (Suc n) (x # xs) (y # ys) = (if x < y then -1 else if y < x then 1 else memcmp n xs ys)"
| "memcmp _ _ _ = 0"

definition bs_eq :: "byte_string \<Rightarrow> byte_string \<Rightarrow> bool" where
  "bs_eq a b = (if bs_len a = bs_len b
                then memcmp (nat (bs_len a)) (bs_to_string a) (bs_to_string b) = 0 else False)"

definition bs_neq :: "byte_string \<Rightarrow> byte_string \<Rightarrow> bool" where
  "bs_neq a b = (\<not> bs_eq a b)"

definition bs_less :: "byte_string \<Rightarrow> byte_string \<Rightarrow> bool" where
  "bs_less a b = (memcmp (nat (min (bs_len a) (bs_len b))) (bs_to_string a) (bs_to_string b) < 0)"

definition bs_greater :: "byte_string \<Rightarrow> byte_string \<Rightarrow> bool" where
  "bs_greater a b = (\<not> bs_less a b \<and> bs_neq a b)"

definition bs_less_eq :: "byte_string \<Rightarrow> byte_string \<Rightarrow> bool" where
  "bs_less_eq a b = (\<not> bs_greater a b)"

definition bs_greater_eq :: "byte_string \<Rightarrow> byte_string \<Rightarrow> bool" where
  "bs_greater_eq a b = (\<not> bs_less a b)"

section \<open>The stream operators\<close>

text \<open>
  \<^verbatim>\<open>operator<<\<close> and \<^verbatim>\<open>operator>>\<close> of a scalar copy its object representation; the string
  versions copy the bytes, reading taking all that is left.
\<close>

definition bs_put :: "bytes \<Rightarrow> (byte_string, unit) action" where
  "bs_put raw = seq (bs_write (Some (map Some raw))) (\<lambda>k.
     if k \<noteq> int (length raw) then throw Io_error else ret ())"

definition bs_get :: "nat \<Rightarrow> (byte_string, bytes) action" where
  "bs_get width = seq (bs_read False (int width)) (\<lambda>cells.
     if length cells \<noteq> width then throw Io_error else ret (map cell_val cells))"

definition bs_get_string :: "(byte_string, bytes) action" where
  "bs_get_string = seq (gets bs_can_read) (\<lambda>left.
     if left \<ge> 2 ^ 63 then throw Std_bad_alloc
     else seq (bs_read False left) (\<lambda>cells.
       if int (length cells) \<noteq> left then throw Io_error else ret (map cell_val cells)))"

end
