(* ===== verification/Utilities.thy ===== *)
theory Utilities
  imports Byte_String
begin

text \<open>
  The variadic templates of \<^verbatim>\<open>client/sml/utils.h\<close>: a function of at least one argument is a
  recursion on the list of the remaining ones. The operators of the type are those of a class;
  \<open>pow\<close> is a constant expression on \<^verbatim>\<open>unsigned long\<close>, which wraps.
\<close>

fun util_sum :: "'a::plus \<Rightarrow> 'a list \<Rightarrow> 'a" where
  "util_sum t [] = t"
| "util_sum t (r # rest) = t + util_sum r rest"

fun util_min :: "'a::ord \<Rightarrow> 'a list \<Rightarrow> 'a" where
  "util_min t [] = t"
| "util_min t (r # rest) = (let min_rest = util_min r rest in if t < min_rest then t else min_rest)"

fun util_max :: "'a::ord \<Rightarrow> 'a list \<Rightarrow> 'a" where
  "util_max t [] = t"
| "util_max t (r # rest) = (let max_rest = util_max r rest in if max_rest < t then t else max_rest)"

fun util_pow :: "64 word \<Rightarrow> nat \<Rightarrow> 64 word" where
  "util_pow B 0 = 1"
| "util_pow B (Suc E) = B * util_pow B E"

text \<open>The references: sum, least and greatest element, and power.\<close>

lemma util_sum_eq: "util_sum t rest = (t :: 'a::monoid_add) + sum_list rest"
  by (induction t rest rule: util_sum.induct) simp_all

lemma util_min_step: "util_min t (r # rest) = (min t (util_min r rest) :: 'a::linorder)"
  by (cases "t < util_min r rest") (auto simp: min_def Let_def)

lemma util_max_step: "util_max t (r # rest) = (max t (util_max r rest) :: 'a::linorder)"
  by (cases "util_max r rest < t") (auto simp: max_def Let_def)

lemma util_min_eq: "util_min t rest = (Min (insert t (set rest)) :: 'a::linorder)"
  by (induction t rest rule: util_min.induct) (simp, simp only: util_min_step list.set, subst Min_insert, simp_all)

lemma util_max_eq: "util_max t rest = (Max (insert t (set rest)) :: 'a::linorder)"
  by (induction t rest rule: util_max.induct) (simp, simp only: util_max_step list.set, subst Max_insert, simp_all)

lemma util_pow_eq: "util_pow B E = B ^ E"
  by (induction E) simp_all

text \<open>The use in \<^verbatim>\<open>byte_string.cpp\<close>, where the model has the minimum of two integers.\<close>

lemma util_min_two: "util_min a [b] = (min a b :: 'a::linorder)"
  by (simp add: util_min_step del: util_min.simps(2))

text \<open>
  The templates compute what their names say, for any number of arguments of an ordered type,
  and on unsigned words modulo the word size: least and greatest argument, sum and power.
\<close>

theorem variadic_references:
  "util_min t rest = (Min (set (t # rest)) :: 'a::linorder)
   \<and> util_max t rest = (Max (set (t # rest)) :: 'a::linorder)
   \<and> util_sum w ws = (sum_list (w # ws) :: u32)
   \<and> util_pow b e = word_of_nat (unat b ^ e)
   \<and> util_min i [j] = (min i j :: int)"
  by (simp add: util_min_eq util_max_eq util_sum_eq util_pow_eq)

end
