(* ===== verification/Byte_Stream.thy ===== *)
theory Byte_Stream
  imports Byte_String
begin

text \<open>
  Correctness of the byte buffer: the contract \<open>byte_stream\<close> (a byte sequence and a
  position, written and read at the position), the buffer's invariant, the refinement of the
  contract by the cell-level operations, and the behaviour of growth, seeking and comparison.
\<close>

section \<open>Growth\<close>

lemma and_not_15:
  assumes "0 \<le> x" and "x < 2 ^ 64"
  shows "x AND u64 (NOT (ALIGNED_SIZE - 1)) = 16 * (x div 16)"
proof -
  have "u64 (NOT (ALIGNED_SIZE - 1)) = take_bit 64 (NOT (mask 4) :: int)"
    by (simp add: u64_def ALIGNED_SIZE_def take_bit_eq_mod mask_eq_exp_minus_1)
  then have "x AND u64 (NOT (ALIGNED_SIZE - 1)) = x AND mask (60 + 4) AND NOT (mask 4)"
    by (simp add: take_bit_eq_mask ac_simps)
  also have "\<dots> = push_bit 4 (take_bit 60 (drop_bit 4 x))"
    by (rule slice_eq_mask [symmetric])
  also have "\<dots> = 16 * ((x div 16) mod 2 ^ 60)"
    by (simp add: push_bit_eq_mult take_bit_eq_mod drop_bit_eq_div)
  also have "(x div 16) mod 2 ^ 60 = x div 16"
    using assms by (intro mod_pos_pos_trivial) auto
  finally show ?thesis .
qed

lemma bs_align_eq:
  assumes "1 \<le> x" and "x \<le> 2 ^ 62"
  shows "bs_align x = 16 * ((x - 1) div 16) + 16"
proof -
  have "(x - 1) AND u64 (NOT (ALIGNED_SIZE - 1)) = 16 * ((x - 1) div 16)"
    using assms by (intro and_not_15) auto
  moreover have "0 \<le> 16 * ((x - 1) div 16) + 16" "16 * ((x - 1) div 16) + 16 < 2 ^ 64"
    using assms by auto
  ultimately show ?thesis
    using assms by (simp add: bs_align_def ALIGNED_SIZE_def)
qed

lemma bs_align_bounds:
  assumes "1 \<le> x" and "x \<le> 2 ^ 62"
  shows "x \<le> bs_align x" and "bs_align x < x + 16" and "bs_align x mod 16 = 0"
  using assms by (simp_all add: bs_align_eq)

lemma bs_align_0 [simp]: "bs_align 0 = 0"
  by (simp add: bs_align_def)

lemma bs_align_aligned: "1 \<le> x \<Longrightarrow> x \<le> 2 ^ 62 \<Longrightarrow> x mod 16 = 0 \<Longrightarrow> bs_align x = x"
  by (simp add: bs_align_eq) presburger

text \<open>The doubling loop from a power of two.\<close>

lemma bs_double_loop_pow:
  assumes "k \<le> 30" and "2 ^ k < 2 * need" and "need \<le> 2 ^ 30" and "31 - k \<le> fuel"
  shows "\<exists>j \<le> 30. bs_double_loop fuel need (2 ^ k) = Some (Some (2 ^ j))
           \<and> need \<le> 2 ^ j \<and> 2 ^ j < 2 * need"
  using assms
proof (induction fuel arbitrary: k)
  case 0
  then show ?case by simp
next
  case (Suc fuel)
  have u: "u64 (2 ^ k) = 2 ^ k"
    using Suc.prems(1) power_increasing [of k 30 "2::int"] by (intro u64_id) auto
  show ?case
  proof (cases "2 ^ k < need")
    case True
    with Suc.prems(1,3) have k: "k < 30"
      by (metis less_le_not_le nat_less_le)
    then have "(2::int) ^ Suc k \<le> 2 ^ 30" by (intro power_increasing) auto
    then have s: "s32 (2 * 2 ^ k) = 2 ^ Suc k"
      by (intro s32_nonneg [THEN trans]) auto
    have "\<exists>j \<le> 30. bs_double_loop fuel need (2 ^ Suc k) = Some (Some (2 ^ j))
             \<and> need \<le> 2 ^ j \<and> 2 ^ j < 2 * need"
      using k True Suc.prems by (intro Suc.IH) auto
    with True u s show ?thesis by simp
  next
    case False
    with u Suc.prems show ?thesis by auto
  qed
qed

lemma bs_double_loop_30: "bs_double_loop (Suc (Suc (Suc 0))) need (2 ^ 30) \<noteq> None"
  by (simp add: s32_def Let_def)

lemma bs_double_loop_more:
  "bs_double_loop n need d \<noteq> None \<Longrightarrow> bs_double_loop (n + m) need d = bs_double_loop n need d"
  by (induction n need d rule: bs_double_loop.induct) (auto simp: Let_def)

lemma bs_double_loop_ends: "bs_double_loop 34 need 1 \<noteq> None"
proof (cases "1 \<le> need \<and> need \<le> 2 ^ 30")
  case True
  then show ?thesis using bs_double_loop_pow [of 0 need 34] by auto
next
  case False
  have "k \<le> 30 \<Longrightarrow> bs_double_loop (33 - k) need (2 ^ k) \<noteq> None" for k
  proof (induction "30 - k" arbitrary: k)
    case 0
    then have "k = 30" by simp
    then show ?case using bs_double_loop_30 by (simp add: numeral_3_eq_3)
  next
    case (Suc n)
    then have k: "Suc k \<le> 30" by simp
    then have "(2::int) ^ Suc k \<le> 2 ^ 30" by (intro power_increasing) auto
    then have "s32 (2 * 2 ^ k) = 2 ^ Suc k"
      by (intro s32_nonneg [THEN trans]) auto
    moreover have "bs_double_loop (33 - Suc k) need (2 ^ Suc k) \<noteq> None"
      using Suc.hyps(1) [of "Suc k"] Suc.hyps(2) k by simp
    moreover have "33 - k = Suc (33 - Suc k)" using k by simp
    ultimately show ?case by (simp del: power_Suc)
  qed
  from this [of 0] bs_double_loop_more [of 33 need 1 1] show ?thesis by simp
qed

section \<open>The invariant\<close>

text \<open>
  The cursor is inside the data, the data inside the buffer, the buffer as long as
  \<open>buf_size_\<close> says and a multiple of the alignment, and every byte of the data was written.
\<close>

definition bs_inv :: "byte_string \<Rightarrow> bool" where
  "bs_inv b \<longleftrightarrow> 0 \<le> bs_off b \<and> bs_off b \<le> bs_len b \<and> bs_len b \<le> bs_size b
     \<and> bs_size b \<le> 2 ^ 30 \<and> bs_size b mod 16 = 0 \<and> int (length (bs_buf b)) = bs_size b
     \<and> (\<forall>c \<in> set (bs_data b). c \<noteq> None)"

definition bs_pos :: "byte_string \<Rightarrow> nat" where
  "bs_pos b = nat (bs_off b)"

lemma bs_inv_empty: "bs_inv bs_empty"
  by (simp add: bs_inv_def bs_empty_def bs_data_def)

lemma bs_to_string_empty [simp]: "bs_to_string bs_empty = []"
  by (simp add: bs_to_string_def bs_data_def bs_empty_def)

lemma bs_pos_empty [simp]: "bs_pos bs_empty = 0"
  by (simp add: bs_pos_def bs_empty_def)

lemma bs_inv_length: "bs_inv b \<Longrightarrow> length (bs_to_string b) = nat (bs_len b)"
  by (simp add: bs_inv_def bs_to_string_def bs_data_def nat_le_iff)

text \<open>Resizing to at least the data keeps the data.\<close>

lemma bs_change_buffer_size_ok:
  assumes inv: "bs_inv b" and want: "bs_len b \<le> want" "0 \<le> want" "want \<le> 2 ^ 30"
  shows "\<exists>b'. bs_change_buffer_size want b = (Inr (bs_align want), b') \<and> bs_inv b'
     \<and> bs_size b' = bs_align want \<and> bs_data b' = bs_data b \<and> bs_len b' = bs_len b
     \<and> bs_off b' = bs_off b"
proof (cases "want = 0")
  case True
  with inv want show ?thesis
    by (auto simp: bs_change_buffer_size_def bs_inv_def bs_data_def)
next
  case False
  define sz where "sz = bs_align want"
  have sz: "want \<le> sz" "sz mod 16 = 0" "sz < want + 16"
    unfolding sz_def using bs_align_bounds [of want] False want by auto
  have top: "sz \<le> 2 ^ 30"
    using sz want by simp presburger
  let ?keep = "if bs_buf b \<noteq> [] then u64 (s32 (min sz (u64 (bs_len b)))) else 0"
  have keep: "?keep = bs_len b"
    using inv sz want by (auto simp: bs_inv_def min_def)
  let ?b = "b\<lparr>bs_buf := take (nat (bs_len b)) (bs_buf b) @ replicate (nat (sz - bs_len b)) None,
               bs_size := sz\<rparr>"
  have eval: "bs_change_buffer_size want b = (Inr sz, ?b)"
    using inv sz want top False unfolding bs_change_buffer_size_def
    by (simp add: sz_def [symmetric] Let_def keep) (simp add: bs_inv_def, linarith)
  have len: "length (bs_data b) = nat (bs_len b)"
    using inv by (simp add: bs_inv_def bs_data_def nat_le_iff)
  then have data: "bs_data ?b = bs_data b"
    by (simp add: bs_data_def)
  have "bs_inv ?b"
    using inv sz want top len data unfolding bs_inv_def
    by (simp add: bs_data_def nat_le_iff)
  with eval data show ?thesis
    by (intro exI [of _ ?b]) (simp add: sz_def)
qed

lemma bs_guarantee_space_ok:
  assumes inv: "bs_inv b" and need: "0 \<le> need" "need \<le> 2 ^ 30"
  shows "\<exists>r b'. bs_guarantee_space need b = (Inr r, b') \<and> bs_inv b' \<and> need \<le> bs_size b'
     \<and> bs_data b' = bs_data b \<and> bs_len b' = bs_len b \<and> bs_off b' = bs_off b"
proof (cases "need > bs_size b")
  case False
  with inv show ?thesis
    by (auto simp: bs_guarantee_space_def act bs_inv_def)
next
  case True
  with inv have "1 \<le> need" by (auto simp: bs_inv_def)
  then obtain j where j: "j \<le> 30" "bs_double_loop 34 need 1 = Some (Some (2 ^ j))" "need \<le> 2 ^ j"
    using bs_double_loop_pow [of 0 need 34] need by auto
  have top: "(2::int) ^ j \<le> 2 ^ 30"
    using j(1) by (intro power_increasing) auto
  have len: "bs_len b \<le> 2 ^ j"
    using inv True j(3) by (simp add: bs_inv_def)
  obtain b' where b': "bs_change_buffer_size (2 ^ j) b = (Inr (bs_align (2 ^ j)), b')"
      "bs_inv b'" "bs_size b' = bs_align (2 ^ j)" "bs_data b' = bs_data b" "bs_len b' = bs_len b"
      "bs_off b' = bs_off b"
    using bs_change_buffer_size_ok [OF inv len _ top] by auto
  have "2 ^ j \<le> bs_align (2 ^ j)"
    using top by (intro bs_align_bounds) auto
  moreover have "u64 (2 ^ j) = 2 ^ j" using top by (intro u64_id) auto
  moreover have "need > u64 (bs_size b)" using True inv by (simp add: bs_inv_def)
  ultimately show ?thesis
    using b' j by (simp add: bs_guarantee_space_def bs_adjust_buffer_size_def act)
qed

section \<open>Writing and reading\<close>

lemma take_overwrite:
  assumes "i \<le> n" and "n \<le> length buf"
  shows "take (max n (i + length xs)) (take i buf @ xs @ drop (i + length xs) buf)
    = take i (take n buf) @ xs @ drop (i + length xs) (take n buf)"
  using assms by (cases "n \<le> i + length xs") (auto simp: max_def min_def drop_take)

lemma bs_data_update: "bs_data (b\<lparr>bs_buf := x, bs_off := y, bs_len := z\<rparr>) = take (nat z) x"
  by (simp add: bs_data_def)

lemma bs_write_eval:
  assumes inv: "bs_inv b" and n: "src \<noteq> []" and top: "bs_off b + int (length src) \<le> 2 ^ 30"
  shows "\<exists>b'. bs_write (Some src) b = (Inr (int (length src)), b')
     \<and> bs_off b' = bs_off b + int (length src)
     \<and> bs_len b' = max (bs_len b) (bs_off b + int (length src))
     \<and> bs_size b' \<le> 2 ^ 30 \<and> bs_size b' mod 16 = 0 \<and> int (length (bs_buf b')) = bs_size b'
     \<and> bs_len b' \<le> bs_size b'
     \<and> bs_data b' = take (bs_pos b) (bs_data b) @ src @ drop (bs_pos b + length src) (bs_data b)"
proof -
  let ?n = "int (length src)"
  have off: "0 \<le> bs_off b" using inv by (simp add: bs_inv_def)
  have need: "u64 (bs_off b + ?n) = bs_off b + ?n"
    using off top by (intro u64_id) auto
  obtain r b1 where b1: "bs_guarantee_space (bs_off b + ?n) b = (Inr r, b1)" "bs_inv b1"
      "bs_off b + ?n \<le> bs_size b1" "bs_data b1 = bs_data b" "bs_len b1 = bs_len b"
      "bs_off b1 = bs_off b"
    using bs_guarantee_space_ok [OF inv _ top] off by auto
  let ?o = "nat (bs_off b)"
  let ?buf = "take ?o (bs_buf b1) @ src @ drop (?o + length src) (bs_buf b1)"
  let ?len = "max (bs_len b) (bs_off b + ?n)"
  let ?b = "b1\<lparr>bs_buf := ?buf, bs_off := bs_off b + ?n, bs_len := ?len\<rparr>"
  have cw: "bs_can_write b1 = (Inr (bs_size b1 - bs_off b), b1)"
    using b1 off by (simp add: bs_can_write_def bs_inv_def)
  have room: "bs_off b + ?n \<le> int (length (bs_buf b1))"
    using b1 by (simp add: bs_inv_def)
  have eval: "bs_write (Some src) b = (Inr ?n, ?b)"
    using n off top b1(1,3,5,6) cw room
    by (simp add: bs_write_def act Let_def need bs_blit_def bs_might_update_data_len_def max_def)
  have buf: "length ?buf = length (bs_buf b1)"
    using room off by (simp add: nat_le_iff)
  have lenbuf: "nat (bs_len b) \<le> length (bs_buf b1)" "?o \<le> nat (bs_len b)"
    using b1 inv by (auto simp: bs_inv_def nat_le_iff)
  have "nat ?len = max (nat (bs_len b)) (?o + length src)"
    using off by (cases "bs_len b \<le> bs_off b + ?n") (auto simp: nat_add_distrib max_def)
  moreover have "take (nat (bs_len b)) (bs_buf b1) = bs_data b"
    using b1(4,5) by (simp add: bs_data_def)
  ultimately have shape: "take (nat ?len) ?buf
      = take ?o (bs_data b) @ src @ drop (?o + length src) (bs_data b)"
    using take_overwrite [OF lenbuf(2,1), of src] by metis
  have "bs_data ?b = take (nat ?len) ?buf"
    by (rule bs_data_update)
  with shape have data:
    "bs_data ?b = take (bs_pos b) (bs_data b) @ src @ drop (bs_pos b + length src) (bs_data b)"
    by (simp only: bs_pos_def)
  show ?thesis
    using eval data buf b1(2,3,5) inv by (intro exI [of _ ?b]) (auto simp: bs_inv_def)
qed

text \<open>The abstract effect of a write: bytes are overwritten in place and appended past the end.\<close>

definition overwrite :: "nat \<Rightarrow> bytes \<Rightarrow> bytes \<Rightarrow> bytes" where
  "overwrite i xs ys = take i ys @ xs @ drop (i + length xs) ys"

lemma overwrite_Nil [simp]: "overwrite i [] ys = ys"
  by (simp add: overwrite_def)

lemma overwrite_end [simp]: "i = length ys \<Longrightarrow> overwrite i xs ys = ys @ xs"
  by (simp add: overwrite_def)

lemma length_overwrite: "i \<le> length ys \<Longrightarrow> length (overwrite i xs ys) = max (length ys) (i + length xs)"
  by (simp add: overwrite_def max_def)

lemma map_cell_val_Some [simp]: "map cell_val (map Some xs) = xs"
  by (simp add: cell_val_def map_idI)

lemma cell_val_comp_Some [simp]: "cell_val \<circ> Some = id"
  by (simp add: cell_val_def fun_eq_iff)

lemma bs_write_bytes:
  assumes inv: "bs_inv b" and top: "bs_pos b + length xs \<le> 2 ^ 30"
  shows "\<exists>b'. bs_write (Some (map Some xs)) b = (Inr (int (length xs)), b') \<and> bs_inv b'
     \<and> bs_to_string b' = overwrite (bs_pos b) xs (bs_to_string b)
     \<and> bs_pos b' = bs_pos b + length xs"
proof (cases "xs = []")
  case True
  with inv show ?thesis by (simp add: bs_write_def act)
next
  case False
  have off: "0 \<le> bs_off b" using inv by (simp add: bs_inv_def)
  with top have "bs_off b + int (length (map Some xs)) \<le> 2 ^ 30"
    by (simp add: bs_pos_def le_nat_iff)
  then obtain b' where b': "bs_write (Some (map Some xs)) b = (Inr (int (length xs)), b')"
     "bs_off b' = bs_off b + int (length xs)" "bs_len b' = max (bs_len b) (bs_off b + int (length xs))"
     "bs_size b' \<le> 2 ^ 30" "bs_size b' mod 16 = 0" "int (length (bs_buf b')) = bs_size b'"
     "bs_len b' \<le> bs_size b'"
     "bs_data b' = take (bs_pos b) (bs_data b) @ map Some xs @ drop (bs_pos b + length xs) (bs_data b)"
    using bs_write_eval [OF inv, of "map Some xs"] False by auto
  have "\<forall>c \<in> set (bs_data b'). c \<noteq> None"
    using inv unfolding b'(8) bs_inv_def by (auto dest: in_set_takeD in_set_dropD)
  then have "bs_inv b'"
    using b' off by (simp add: bs_inv_def)
  moreover have "bs_to_string b' = overwrite (bs_pos b) xs (bs_to_string b)"
    by (simp add: bs_to_string_def b'(8) overwrite_def take_map drop_map cell_val_def comp_def)
  moreover have "bs_pos b' = bs_pos b + length xs"
    using b'(2) off by (simp add: bs_pos_def nat_add_distrib)
  ultimately show ?thesis using b'(1) by blast
qed

lemma bs_read_eval:
  assumes inv: "bs_inv b"
  shows "\<exists>b'. bs_read False (int n) b = (Inr (take n (drop (bs_pos b) (bs_data b))), b') \<and> bs_inv b'
     \<and> bs_data b' = bs_data b \<and> bs_len b' = bs_len b
     \<and> bs_pos b' = bs_pos b + min n (length (bs_to_string b) - bs_pos b)"
proof (cases "n = 0")
  case True
  with inv show ?thesis by (simp add: bs_read_def act)
next
  case False
  have b: "0 \<le> bs_off b" "bs_off b \<le> bs_len b" "bs_len b \<le> 2 ^ 30" "bs_len b \<le> int (length (bs_buf b))"
    using inv by (auto simp: bs_inv_def)
  define left where "left = nat (bs_len b) - bs_pos b"
  have left: "bs_can_read b = int left" "bs_off b = int (bs_pos b)" "nat (bs_len b) = bs_pos b + left"
    using b by (simp_all add: bs_can_read_def left_def bs_pos_def nat_le_iff)
  let ?k = "min n left"
  have k: "(if bs_can_read b \<ge> int n then int n else bs_can_read b) = int ?k"
    using left by simp
  let ?b = "b\<lparr>bs_off := bs_off b + int ?k\<rparr>"
  have sum: "bs_off b + int ?k \<le> bs_len b" "s32 (bs_off b + int ?k) = bs_off b + int ?k"
    using b left by (auto simp: min_def)
  have eval: "bs_read False (int n) b = (Inr (take ?k (drop (bs_pos b) (bs_buf b))), ?b)"
    using False b sum k by (simp add: bs_read_def Let_def bs_pos_def)
  have "take ?k (drop (bs_pos b) (bs_buf b)) = take n (drop (bs_pos b) (bs_data b))"
    unfolding bs_data_def left(3) by (simp add: drop_take min.commute)
  moreover have "bs_inv ?b" "bs_data ?b = bs_data b"
    using inv b sum by (simp_all add: bs_inv_def bs_data_def)
  moreover have "bs_pos ?b = bs_pos b + min n (length (bs_to_string b) - bs_pos b)"
    using b left(3) by (simp add: bs_pos_def nat_add_distrib bs_inv_length [OF inv])
  ultimately show ?thesis using eval by auto
qed

section \<open>The contract of a byte stream\<close>

locale byte_stream =
  fixes inv :: "'s \<Rightarrow> bool"
    and contents :: "'s \<Rightarrow> bytes"
    and pos :: "'s \<Rightarrow> nat"
    and limit :: nat
    and put :: "bytes \<Rightarrow> ('s, unit) action"
    and get :: "nat \<Rightarrow> ('s, bytes) action"
    and rest :: "('s, bytes) action"
  assumes pos_le: "inv s \<Longrightarrow> pos s \<le> length (contents s)"
    and put_ok: "inv s \<Longrightarrow> pos s + length xs \<le> limit \<Longrightarrow>
      \<exists>s'. put xs s = (Inr (), s') \<and> inv s' \<and> contents s' = overwrite (pos s) xs (contents s)
        \<and> pos s' = pos s + length xs"
    and get_ok: "inv s \<Longrightarrow> pos s + n \<le> length (contents s) \<Longrightarrow>
      \<exists>s'. get n s = (Inr (take n (drop (pos s) (contents s))), s') \<and> inv s'
        \<and> contents s' = contents s \<and> pos s' = pos s + n"
    and get_short: "inv s \<Longrightarrow> length (contents s) < pos s + n \<Longrightarrow>
      \<exists>s'. get n s = (Inl Io_error, s') \<and> inv s' \<and> contents s' = contents s"
    and rest_ok: "inv s \<Longrightarrow> \<exists>s'. rest s = (Inr (drop (pos s) (contents s)), s') \<and> inv s'
        \<and> contents s' = contents s \<and> pos s' = length (contents s)"
begin

text \<open>Writing at the end appends, so a sequence of writes concatenates.\<close>

definition at_end :: "'s \<Rightarrow> bytes \<Rightarrow> bool" where
  "at_end s xs \<longleftrightarrow> inv s \<and> contents s = xs \<and> pos s = length xs"

lemma put_end:
  assumes "at_end s xs" and "length xs + length ys \<le> limit"
  shows "\<exists>s'. put ys s = (Inr (), s') \<and> at_end s' (xs @ ys)"
  using assms put_ok [of s ys] by (auto simp: at_end_def)

lemma put_all:
  assumes "at_end s xs" and "length xs + length (concat yss) \<le> limit"
  shows "\<exists>s'. for_each put yss s = (Inr (), s') \<and> at_end s' (xs @ concat yss)"
  using assms
proof (induction yss arbitrary: s xs)
  case Nil
  then show ?case by (simp add: act)
next
  case (Cons ys yss)
  then obtain s1 where s1: "put ys s = (Inr (), s1)" "at_end s1 (xs @ ys)"
    using put_end [of s xs ys] by auto
  then obtain s2 where "for_each put yss s1 = (Inr (), s2)" "at_end s2 ((xs @ ys) @ concat yss)"
    using Cons.IH [of s1 "xs @ ys"] Cons.prems by auto
  with s1 show ?case by (simp add: act)
qed

text \<open>Reading from a state that has \<open>xs\<close> left.\<close>

definition has_left :: "'s \<Rightarrow> bytes \<Rightarrow> bool" where
  "has_left s xs \<longleftrightarrow> inv s \<and> drop (pos s) (contents s) = xs"

lemma get_left:
  assumes "has_left s (xs @ ys)"
  shows "\<exists>s'. get (length xs) s = (Inr xs, s') \<and> has_left s' ys"
proof -
  from assms have left: "inv s" "drop (pos s) (contents s) = xs @ ys"
    by (simp_all add: has_left_def)
  then have len: "length (contents s) - pos s = length xs + length ys"
    by (metis length_append length_drop)
  with pos_le [OF left(1)] have "pos s + length xs \<le> length (contents s)" by linarith
  then obtain s' where s': "get (length xs) s = (Inr (take (length xs) (xs @ ys)), s')" "inv s'"
      "contents s' = contents s" "pos s' = pos s + length xs"
    using get_ok [OF left(1), of "length xs"] left(2) by auto
  moreover have "drop (pos s') (contents s') = ys"
    using s' left(2) by (metis add.commute append_eq_conv_conj drop_drop)
  ultimately show ?thesis by (auto simp: has_left_def)
qed

lemma get_take:
  assumes "has_left s xs" and "n \<le> length xs"
  shows "\<exists>s'. get n s = (Inr (take n xs), s') \<and> has_left s' (drop n xs)"
  using get_left [of s "take n xs" "drop n xs"] assms by simp

lemma get_short_left:
  assumes "has_left s xs" and "length xs < n"
  shows "fst (get n s) = Inl Io_error"
proof -
  from assms have "length (contents s) < pos s + n"
    by (auto simp: has_left_def)
  then show ?thesis
    using assms get_short by (fastforce simp: has_left_def)
qed

lemma rest_left:
  assumes "has_left s xs"
  shows "fst (rest s) = Inr xs"
  using assms rest_ok by (fastforce simp: has_left_def)

lemma put_then_read:
  assumes "at_end s xs" and "inv t" and "contents t = contents s" and "pos t = 0"
  shows "has_left t xs"
  using assms by (simp add: at_end_def has_left_def)

end

lemma bs_put_ok:
  assumes "bs_inv b" and "bs_pos b + length xs \<le> 2 ^ 30"
  shows "\<exists>b'. bs_put xs b = (Inr (), b') \<and> bs_inv b'
     \<and> bs_to_string b' = overwrite (bs_pos b) xs (bs_to_string b)
     \<and> bs_pos b' = bs_pos b + length xs"
  using bs_write_bytes [OF assms] by (auto simp: bs_put_def act)

lemma bs_pos_le: "bs_inv b \<Longrightarrow> bs_pos b \<le> length (bs_to_string b)"
  by (simp add: bs_inv_length) (auto simp: bs_inv_def bs_pos_def)

lemma bs_get_ok:
  assumes inv: "bs_inv b" and n: "bs_pos b + n \<le> length (bs_to_string b)"
  shows "\<exists>b'. bs_get n b = (Inr (take n (drop (bs_pos b) (bs_to_string b))), b') \<and> bs_inv b'
     \<and> bs_to_string b' = bs_to_string b \<and> bs_pos b' = bs_pos b + n"
proof -
  from n have "length (take n (drop (bs_pos b) (bs_data b))) = n"
    by (simp add: bs_to_string_def)
  then show ?thesis
    using bs_read_eval [OF inv, of n] n
    by (auto simp: bs_get_def act bs_to_string_def take_map drop_map)
qed

lemma bs_get_short:
  assumes inv: "bs_inv b" and n: "length (bs_to_string b) < bs_pos b + n"
  shows "\<exists>b'. bs_get n b = (Inl Io_error, b') \<and> bs_inv b' \<and> bs_to_string b' = bs_to_string b"
proof -
  from n have "length (take n (drop (bs_pos b) (bs_data b))) \<noteq> n"
    using bs_pos_le [OF inv] by (auto simp: bs_to_string_def)
  then show ?thesis
    using bs_read_eval [OF inv, of n]
    by (auto simp: bs_get_def act bs_to_string_def)
qed

lemma bs_rest_ok:
  assumes inv: "bs_inv b"
  shows "\<exists>b'. bs_get_string b = (Inr (drop (bs_pos b) (bs_to_string b)), b') \<and> bs_inv b'
     \<and> bs_to_string b' = bs_to_string b \<and> bs_pos b' = length (bs_to_string b)"
proof -
  let ?n = "length (bs_to_string b) - bs_pos b"
  have "bs_can_read b = int ?n"
    using inv by (simp add: bs_inv_length) (auto simp: bs_can_read_def bs_pos_def bs_inv_def)
  moreover have "int ?n < 2 ^ 63"
    using inv by (simp add: bs_inv_length) (auto simp: bs_inv_def)
  moreover have "take ?n (drop (bs_pos b) (bs_data b)) = drop (bs_pos b) (bs_data b)"
    by (simp add: bs_to_string_def)
  moreover have "length (drop (bs_pos b) (bs_data b)) = ?n"
    by (simp add: bs_to_string_def)
  ultimately show ?thesis
    using bs_read_eval [OF inv, of ?n] bs_pos_le [OF inv]
    by (auto simp: bs_get_string_def act bs_to_string_def drop_map)
qed

interpretation bs: byte_stream bs_inv bs_to_string bs_pos "2 ^ 30" bs_put bs_get bs_get_string
  by unfold_locales (simp_all add: bs_pos_le bs_put_ok bs_get_ok bs_get_short bs_rest_ok)

section \<open>Requests the loop cannot meet\<close>

lemma bs_double_loop_up:
  "k \<le> 30 \<Longrightarrow> 2 ^ 30 < need \<Longrightarrow> bs_double_loop (n + (30 - k)) need (2 ^ k) = bs_double_loop n need (2 ^ 30)"
proof (induction "30 - k" arbitrary: k)
  case 0
  then show ?case by simp
next
  case (Suc d)
  then have k: "Suc k \<le> 30" by simp
  then have up: "(2::int) ^ Suc k \<le> 2 ^ 30" by (intro power_increasing) auto
  have "s32 (2 * 2 ^ k) = 2 ^ Suc k" using up by (intro s32_nonneg [THEN trans]) auto
  moreover have "u64 (2 ^ k) < need"
    using up Suc.prems(2) by (subst u64_id) auto
  moreover have "n + (30 - k) = Suc (n + (30 - Suc k))" using k by simp
  ultimately show ?case using Suc.hyps(1) [of "Suc k"] Suc.hyps(2) Suc.prems(2) k
    by (simp del: power_Suc)
qed

lemma bs_double_loop_overflow:
  assumes "2 ^ 30 < need"
  shows "bs_double_loop 34 need 1 = Some (if need \<le> 2 ^ 64 - 2 ^ 31 then Some (- (2 ^ 31)) else None)"
proof -
  have u: "u64 (2 ^ 30) = 2 ^ 30" "s32 (2 * 2 ^ 30) = - (2 ^ 31)" "u64 (- (2 ^ 31)) = 2 ^ 64 - 2 ^ 31"
    "s32 (2 * - (2 ^ 31)) = 0" by (simp_all add: s32_def u64_def)
  have "bs_double_loop 34 need 1 = bs_double_loop (Suc (Suc 2)) need (2 ^ 30)"
    using bs_double_loop_up [of 0 need 4] assms(1) by simp
  also have "\<dots> = Some (if need \<le> 2 ^ 64 - 2 ^ 31 then Some (- (2 ^ 31)) else None)"
    using assms unfolding bs_double_loop.simps u Let_def by auto
  finally show ?thesis .
qed

lemma bs_change_overflow: "bs_change_buffer_size (u64 (- (2 ^ 31))) b = (Inl Std_bad_alloc, b)"
proof -
  have "bs_align (u64 (- (2 ^ 31))) = u64 (- (2 ^ 31))"
    by code_simp
  then show ?thesis by (simp add: bs_change_buffer_size_def u64_def)
qed

section \<open>Construction, seeking and assignment\<close>

lemma bs_of_string_ok:
  assumes "length xs \<le> 2 ^ 30"
  shows "\<exists>b. bs_of_string xs = Inr b \<and> bs_inv b \<and> bs_to_string b = xs \<and> bs_pos b = 0"
proof -
  let ?n = "int (length xs)"
  have n: "s32 ?n = ?n" "u64 ?n = ?n" using assms by auto
  obtain b where b: "bs_change_buffer_size ?n bs_empty = (Inr (bs_align ?n), b)" "bs_inv b"
      "bs_size b = bs_align ?n" "bs_len b = 0" "bs_off b = 0"
    using bs_change_buffer_size_ok [OF bs_inv_empty, of ?n] assms by (auto simp: bs_empty_def)
  have room: "?n \<le> bs_align ?n"
    using bs_align_bounds(1) [of ?n] assms by (cases "xs = []") (auto simp: Suc_le_eq)
  have size: "u64 (bs_align ?n) = bs_align ?n" "length xs \<le> length (bs_buf b)"
    using b room by (auto simp: bs_inv_def)
  let ?b = "b\<lparr>bs_len := ?n, bs_buf := map Some xs @ drop (length xs) (bs_buf b)\<rparr>"
  have "bs_of_string xs = Inr ?b"
    using b room size by (simp add: bs_of_string_def bs_of_size_def n act bs_guarantee_space_def bs_fill_def)
  moreover have "bs_inv ?b"
    using b room size by (auto simp: bs_inv_def bs_data_def)
  moreover have "bs_to_string ?b = xs"
    by (simp add: bs_to_string_def bs_data_def)
  moreover have "bs_pos ?b = 0"
    using b by (simp add: bs_pos_def)
  ultimately show ?thesis by blast
qed

text \<open>A seek inside the data moves the cursor and nothing else.\<close>

lemma bs_seek_set_ok:
  assumes inv: "bs_inv b" and n: "n \<le> length (bs_to_string b)"
  shows "\<exists>b'. bs_seek Seek_set (int n) b = (Inr (int n), b') \<and> bs_inv b'
     \<and> bs_to_string b' = bs_to_string b \<and> bs_pos b' = n"
proof -
  have n: "int n \<le> bs_len b" "int n \<le> 2 ^ 30"
    using inv n by (simp_all add: bs_inv_length) (auto simp: bs_inv_def)
  then have "bs_seek Seek_set (int n) b = (Inr (int n), b\<lparr>bs_off := int n\<rparr>)"
    by (simp add: bs_seek_def act)
  moreover have "bs_inv (b\<lparr>bs_off := int n\<rparr>)"
    using inv n by (auto simp: bs_inv_def bs_data_def)
  ultimately show ?thesis
    by (auto simp: bs_to_string_def bs_data_def bs_pos_def)
qed

lemma bs_seek_end_ok:
  assumes inv: "bs_inv b"
  shows "\<exists>b' r. bs_seek Seek_end 0 b = (Inr r, b') \<and> bs_inv b'
     \<and> bs_to_string b' = bs_to_string b \<and> bs_pos b' = length (bs_to_string b)"
proof -
  have "s32 (bs_len b) = bs_len b" "u64 (bs_len b) = bs_len b"
    using inv by (auto simp: bs_inv_def)
  then have "bs_seek Seek_end 0 b = (Inr (bs_len b), b\<lparr>bs_off := bs_len b\<rparr>)"
    by (simp add: bs_seek_def act)
  moreover have "bs_inv (b\<lparr>bs_off := bs_len b\<rparr>)"
    using inv by (auto simp: bs_inv_def bs_data_def)
  ultimately show ?thesis
    using inv by (auto simp: bs_inv_length) (auto simp: bs_to_string_def bs_data_def bs_pos_def)
qed

lemma bs_append_ok:
  assumes inv: "bs_inv b" and top: "length (bs_to_string b) + length xs \<le> 2 ^ 30"
  shows "\<exists>b'. bs_append (Some (map Some xs)) b = (Inr (int (length xs)), b') \<and> bs_inv b'
     \<and> bs_to_string b' = bs_to_string b @ xs
     \<and> bs_pos b' = length (bs_to_string b) + length xs"
proof -
  obtain r b1 where b1: "bs_seek Seek_end 0 b = (Inr r, b1)" "bs_inv b1"
      "bs_to_string b1 = bs_to_string b" "bs_pos b1 = length (bs_to_string b)"
    using bs_seek_end_ok [OF inv] by blast
  then show ?thesis
    using bs_write_bytes [OF b1(2), of xs] top by (auto simp: bs_append_def act)
qed

section \<open>Comparison\<close>

lemma memcmp_eq_0: "n \<le> length xs \<Longrightarrow> n \<le> length ys \<Longrightarrow> memcmp n xs ys = 0 \<longleftrightarrow> take n xs = take n ys"
  by (induction n xs ys rule: memcmp.induct) auto

lemma bs_eq_iff:
  assumes "bs_inv a" and "bs_inv b"
  shows "bs_eq a b \<longleftrightarrow> bs_to_string a = bs_to_string b"
proof -
  have "bs_len a = bs_len b \<longleftrightarrow> length (bs_to_string a) = length (bs_to_string b)"
    using assms by (simp add: bs_inv_length) (auto simp: bs_inv_def)
  then show ?thesis
    using assms by (auto simp: bs_eq_def memcmp_eq_0 bs_inv_length [symmetric])
qed

lemma memcmp_neg:
  "n \<le> length xs \<Longrightarrow> n \<le> length ys \<Longrightarrow> memcmp n xs ys < 0 \<longleftrightarrow> take n xs < take n ys"
  by (induction n xs ys rule: memcmp.induct) auto

lemma bs_less_iff:
  assumes "bs_inv a" and "bs_inv b"
  shows "bs_less a b \<longleftrightarrow>
    (let n = min (length (bs_to_string a)) (length (bs_to_string b))
     in take n (bs_to_string a) < take n (bs_to_string b))"
proof -
  have "nat (min (bs_len a) (bs_len b)) = min (length (bs_to_string a)) (length (bs_to_string b))"
    using assms by (auto simp: bs_inv_length min_def bs_inv_def)
  then show ?thesis
    by (simp add: bs_less_def memcmp_neg Let_def)
qed

section \<open>Properties\<close>

text \<open>
  C37: Bytes written at the cursor are read back: the write succeeds whatever the buffer has to
  grow to, moves the cursor behind the bytes and leaves the rest of the contents; after seeking
  back to where it started, reading as many bytes returns exactly them.
\<close>

theorem written_bytes_read_back:
  assumes "bs_inv b" and "bs_pos b + length xs \<le> 2 ^ 30"
  shows "\<exists>b1 b2 b3 r. bs_put xs b = (Inr (), b1) \<and> bs_pos b1 = bs_pos b + length xs
    \<and> bs_to_string b1 = overwrite (bs_pos b) xs (bs_to_string b)
    \<and> bs_seek Seek_set (int (bs_pos b)) b1 = (Inr r, b2)
    \<and> bs_get (length xs) b2 = (Inr xs, b3) \<and> bs_inv b3 \<and> bs_to_string b3 = bs_to_string b1"
proof -
  let ?p = "bs_pos b" and ?s = "overwrite (bs_pos b) xs (bs_to_string b)"
  obtain b1 where b1: "bs_put xs b = (Inr (), b1)" "bs_inv b1" "bs_to_string b1 = ?s"
      "bs_pos b1 = ?p + length xs"
    using bs.put_ok [OF assms] by blast
  have p: "?p \<le> length (bs_to_string b)" by (rule bs_pos_le [OF assms(1)])
  then have len: "?p + length xs \<le> length ?s" by (simp add: length_overwrite)
  obtain b2 where b2: "bs_seek Seek_set (int ?p) b1 = (Inr (int ?p), b2)" "bs_inv b2"
      "bs_to_string b2 = ?s" "bs_pos b2 = ?p"
    using bs_seek_set_ok [OF b1(2), of ?p] len b1(3) by auto
  have "take (length xs) (drop ?p ?s) = xs" using p by (simp add: overwrite_def)
  then show ?thesis
    using b1 b2 bs.get_ok [OF b2(2), of "length xs"] len by auto
qed

lemma written_bytes_read_back_witness:
  "\<exists>b1 b2 b3 r. bs_put [1, 2, 3] bs_empty = (Inr (), b1)
    \<and> bs_seek Seek_set 0 b1 = (Inr r, b2) \<and> bs_get 3 b2 = (Inr [1, 2, 3], b3)"
  using written_bytes_read_back [OF bs_inv_empty, of "[1, 2, 3]"] by (auto simp: numeral_3_eq_3)

text \<open>
  C39: Growing the buffer terminates for every request of 64 bits that exceeds the buffer. Up to 2^30 bytes it provides the
  space, in whole blocks of 16 bytes and less than twice the request and one block together, and keeps the
  contents and the cursor. Above that the doubled size overflows its \<^verbatim>\<open>int\<close>: up to 2^64 - 2^31 bytes the allocation fails,
  and for still larger requests the size reaches 0 and the old size is returned as if all were well, both with the object
  unchanged.
\<close>

theorem buffer_growth:
  assumes "bs_inv b" and "bs_size b < need"
  shows "bs_double_loop 34 need 1 \<noteq> None
    \<and> (need \<le> 2 ^ 30 \<longrightarrow> (\<exists>b'. bs_guarantee_space need b = (Inr (bs_size b'), b') \<and> bs_inv b'
         \<and> need \<le> bs_size b' \<and> bs_size b' < 2 * need + 16 \<and> bs_size b' mod 16 = 0
         \<and> bs_to_string b' = bs_to_string b \<and> bs_pos b' = bs_pos b))
    \<and> (2 ^ 30 < need \<and> need \<le> 2 ^ 64 - 2 ^ 31 \<longrightarrow> bs_guarantee_space need b = (Inl Std_bad_alloc, b))
    \<and> (2 ^ 64 - 2 ^ 31 < need \<longrightarrow> bs_guarantee_space need b = (Inr (bs_size b), b))"
proof -
  have size: "u64 (bs_size b) = bs_size b" "1 \<le> need" using assms(1,2) by (auto simp: bs_inv_def)
  have fits: "\<exists>b'. bs_guarantee_space need b = (Inr (bs_size b'), b') \<and> bs_inv b'
      \<and> need \<le> bs_size b' \<and> bs_size b' < 2 * need + 16 \<and> bs_size b' mod 16 = 0
      \<and> bs_to_string b' = bs_to_string b \<and> bs_pos b' = bs_pos b" if small: "need \<le> 2 ^ 30"
  proof -
    obtain j where j: "j \<le> 30" "bs_double_loop 34 need 1 = Some (Some (2 ^ j))" "need \<le> 2 ^ j" "2 ^ j < 2 * need"
      using bs_double_loop_pow [of 0 need 34] size(2) small by auto
    have top: "(2::int) ^ j \<le> 2 ^ 30" using j(1) by (intro power_increasing) auto
    have len: "bs_len b \<le> 2 ^ j" using assms(1,2) j(3) by (simp add: bs_inv_def)
    obtain b' where b': "bs_change_buffer_size (2 ^ j) b = (Inr (bs_align (2 ^ j)), b')" "bs_inv b'"
        "bs_size b' = bs_align (2 ^ j)" "bs_data b' = bs_data b" "bs_len b' = bs_len b" "bs_off b' = bs_off b"
      using bs_change_buffer_size_ok [OF assms(1) len _ top] by auto
    have "2 ^ j \<le> bs_align (2 ^ j)" "bs_align (2 ^ j) < 2 ^ j + 16" "bs_align (2 ^ j) mod 16 = 0"
      using top by (intro bs_align_bounds; simp)+
    moreover have "u64 (2 ^ j) = 2 ^ j" using top by (intro u64_id) auto
    ultimately show ?thesis
      using b' j assms(2) size
      by (simp add: bs_guarantee_space_def bs_adjust_buffer_size_def act bs_to_string_def bs_pos_def)
  qed
  have "bs_guarantee_space need b = (Inl Std_bad_alloc, b)" if "2 ^ 30 < need" "need \<le> 2 ^ 64 - 2 ^ 31"
    using bs_double_loop_overflow [OF that(1)] bs_change_overflow [of b] assms(2) size that(2)
    by (simp add: bs_guarantee_space_def bs_adjust_buffer_size_def act)
  moreover have "bs_guarantee_space need b = (Inr (bs_size b), b)" if "2 ^ 64 - 2 ^ 31 < need"
    using bs_double_loop_overflow [of need] assms(2) size that
    by (simp add: bs_guarantee_space_def bs_adjust_buffer_size_def act)
  ultimately show ?thesis using bs_double_loop_ends fits by blast
qed

lemma buffer_growth_witness:
  "bs_guarantee_space (2 ^ 40) bs_empty = (Inl Std_bad_alloc, bs_empty)
    \<and> bs_guarantee_space (2 ^ 64 - 1) bs_empty = (Inr 0, bs_empty)"
  using buffer_growth [OF bs_inv_empty, of "2 ^ 40"] buffer_growth [OF bs_inv_empty, of "2 ^ 64 - 1"]
  by (simp add: bs_empty_def)

text \<open>
  A seek beyond the data throws only after it has moved the cursor: the cursor stays outside,
  what is left to read wraps around to a huge number and the next read of a string fails to
  allocate it.
\<close>

theorem failed_seek_moves_cursor:
  assumes "bs_inv b" and "bs_len b < n" and "n < 2 ^ 31"
  shows "\<exists>b'. bs_seek Seek_set n b = (Inl Seek_out_of_range, b') \<and> bs_off b' = n
    \<and> bs_can_read b' = 2 ^ 64 + bs_len b - n \<and> bs_get_string b' = (Inl Std_bad_alloc, b')"
proof -
  let ?b = "b\<lparr>bs_off := n\<rparr>"
  have len: "0 \<le> bs_len b" "bs_len b \<le> 2 ^ 30" using assms(1) by (auto simp: bs_inv_def)
  then have "bs_seek Seek_set n b = (Inl Seek_out_of_range, ?b)"
    using assms(2,3) by (simp add: bs_seek_def act)
  moreover have "bs_can_read ?b = 2 ^ 64 + bs_len b - n"
  proof -
    have "(bs_len b - n) mod 2 ^ 64 = (bs_len b - n + 2 ^ 64) mod 2 ^ 64" by (simp only: mod_add_self2)
    also have "\<dots> = bs_len b - n + 2 ^ 64" using len assms(2,3) by (intro mod_pos_pos_trivial) simp_all
    finally show ?thesis by (simp add: bs_can_read_def u64_def)
  qed
  ultimately show ?thesis
    using len assms(2,3) by (auto simp: bs_get_string_def act)
qed

lemma failed_seek_moves_cursor_witness:
  "\<exists>b'. bs_seek Seek_set 5 bs_empty = (Inl Seek_out_of_range, b') \<and> bs_off b' = 5
    \<and> bs_get_string b' = (Inl Std_bad_alloc, b')"
  using failed_seek_moves_cursor [OF bs_inv_empty, of 5] by (auto simp: bs_empty_def)

text \<open>
  Equality of byte strings is equality of their contents, but the ordering operators are no
  order: of a string and a proper extension of it each is greater than the other.
\<close>

theorem comparison_of_prefixes:
  assumes "bs_inv a" and "bs_inv b"
  shows "(bs_eq a b \<longleftrightarrow> bs_to_string a = bs_to_string b)
    \<and> (bs_to_string b = bs_to_string a @ x # xs \<longrightarrow> bs_greater a b \<and> bs_greater b a)"
  using assms by (auto simp: bs_eq_iff bs_greater_def bs_neq_def bs_less_iff min_def)

lemma comparison_of_prefixes_witness:
  "\<exists>a b. bs_of_string [1] = Inr a \<and> bs_of_string [1, 2] = Inr b \<and> bs_greater a b \<and> bs_greater b a"
proof -
  obtain a where a: "bs_of_string [1] = Inr a" "bs_inv a" "bs_to_string a = [1]"
    using bs_of_string_ok [of "[1]"] by auto
  obtain b where b: "bs_of_string [1, 2] = Inr b" "bs_inv b" "bs_to_string b = [1, 2]"
    using bs_of_string_ok [of "[1, 2]"] by auto
  show ?thesis using comparison_of_prefixes [OF a(2) b(2), of 2 "[]"] a b by auto
qed

end
