(* ===== verification/Byte_String_Life.thy ===== *)
theory Byte_String_Life
  imports Byte_Stream
begin

text \<open>
  The class \<^verbatim>\<open>byte_string\<close> as a type: its constructors build well-formed objects, and the operations that
  change one keep it well-formed and never go wrong as long as they are used within its bounds.
\<close>

section \<open>Assignment and copies\<close>

text \<open>Resizing to whole blocks, also to fewer than the data needs.\<close>

lemma bs_change_any:
  assumes inv: "bs_inv b" and want: "1 \<le> want" "want \<le> 2 ^ 30" "want mod 16 = 0"
  shows "\<exists>xs. length xs = nat want \<and>
    bs_change_buffer_size want b = (Inr want, b\<lparr>bs_buf := xs, bs_size := want\<rparr>)"
proof -
  have sz: "bs_align want = want"
    using bs_align_aligned [of want] want by simp
  let ?keep = "if bs_buf b \<noteq> [] then u64 (s32 (min want (u64 (bs_len b)))) else 0"
  have keep: "0 \<le> ?keep" "?keep \<le> want" "nat ?keep \<le> length (bs_buf b)"
    using inv want by (auto simp: bs_inv_def min_def)
  let ?xs = "take (nat ?keep) (bs_buf b) @ replicate (nat (want - ?keep)) None"
  have "bs_change_buffer_size want b = (Inr want, b\<lparr>bs_buf := ?xs, bs_size := want\<rparr>)"
    using keep want unfolding bs_change_buffer_size_def sz Let_def by simp
  moreover have "length ?xs = nat want" using keep by simp
  ultimately show ?thesis by blast
qed

lemma bs_inv_filled:
  assumes "bs_inv v" and "length xs = nat (bs_size v)"
  shows "bs_inv (b\<lparr>bs_buf := bs_data v @ drop (length (bs_data v)) xs, bs_size := bs_size v,
      bs_len := bs_len v, bs_off := i\<rparr>) \<longleftrightarrow> 0 \<le> i \<and> i \<le> bs_len v"
    and "bs_to_string (b\<lparr>bs_buf := bs_data v @ drop (length (bs_data v)) xs, bs_size := bs_size v,
      bs_len := bs_len v, bs_off := i\<rparr>) = bs_to_string v"
  using assms by (auto simp: bs_inv_def bs_data_def bs_to_string_def min_def)

lemma bs_data_length: "bs_inv b \<Longrightarrow> length (bs_data b) = nat (bs_len b) \<and> nat (bs_len b) \<le> length (bs_buf b)"
  by (auto simp: bs_inv_def bs_data_def)

text \<open>An assignment takes the contents and leaves the cursor where it was.\<close>

lemma bs_assign_eval:
  assumes inv: "bs_inv b" "bs_inv v"
  shows "\<exists>b'. bs_assign v b = (Inr (), b') \<and> bs_to_string b' = bs_to_string v \<and> bs_off b' = bs_off b
    \<and> (bs_inv b' \<longleftrightarrow> bs_off b \<le> bs_len v)"
proof (cases "bs_size v = 0")
  case True
  then have "bs_len v = 0" "bs_data v = []" using inv(2) by (auto simp: bs_inv_def bs_data_def)
  then have "bs_assign v b = (Inr (), b\<lparr>bs_buf := [], bs_size := 0, bs_len := 0\<rparr>)"
    using True by (simp add: bs_assign_def act bs_change_buffer_size_def bs_align_def bs_fill_def)
  then show ?thesis
    using \<open>bs_len v = 0\<close> \<open>bs_data v = []\<close> inv(1) by (auto simp: bs_inv_def bs_data_def bs_to_string_def)
next
  case False
  have v: "1 \<le> bs_size v" "bs_size v \<le> 2 ^ 30" "bs_size v mod 16 = 0" "u64 (bs_size v) = bs_size v"
      "u64 (bs_len v) = bs_len v" "bs_len v \<le> bs_size v" "bs_len v \<le> int (length (bs_buf v))"
    using inv(2) False by (auto simp: bs_inv_def)
  obtain xs where xs: "length xs = nat (bs_size v)"
      "bs_change_buffer_size (bs_size v) b = (Inr (bs_size v), b\<lparr>bs_buf := xs, bs_size := bs_size v\<rparr>)"
    using bs_change_any [OF inv(1) v(1-3)] by blast
  let ?b = "b\<lparr>bs_buf := bs_data v @ drop (length (bs_data v)) xs, bs_size := bs_size v,
      bs_len := bs_len v, bs_off := bs_off b\<rparr>"
  have "length (bs_data v) \<le> length xs" using bs_data_length [OF inv(2)] xs(1) v(6) by simp
  then have "bs_assign v b = (Inr (), ?b)"
    using xs v by (simp add: bs_assign_def act bs_fill_def)
  moreover have "0 \<le> bs_off b" using inv(1) by (simp add: bs_inv_def)
  ultimately show ?thesis
    using bs_inv_filled [OF inv(2) xs(1), where b = b and i = "bs_off b"] by auto
qed





section \<open>The operations\<close>






















text \<open>
  Assigning a string that is shorter than what the cursor has passed leaves the cursor outside
  the data: what is left to read wraps around to a huge number.
\<close>

lemma assignment_keeps_cursor:
  assumes "bs_inv b" and "bs_inv v" and "bs_len v < bs_off b"
  shows "\<exists>b'. bs_assign v b = (Inr (), b') \<and> bs_to_string b' = bs_to_string v \<and> \<not> bs_inv b' \<and> bs_off b' = bs_off b"
  using bs_assign_eval [OF assms(1,2)] assms(3) by auto

end
