(* ===== verification/Address.thy ===== *)
theory Address
  imports Prelude
begin

text \<open>
  \<^verbatim>\<open>client/sml/address.h\<close> and \<^verbatim>\<open>address.cpp\<close>: an IP address and a UDP port, printed and
  parsed as \<^verbatim>\<open>ip:port\<close>. What the parser uses of the standard library (\<^verbatim>\<open>rfind\<close>,
  \<^verbatim>\<open>substr\<close>, \<^verbatim>\<open>stoul\<close>, \<^verbatim>\<open>to_string\<close>) is modelled here too.
\<close>

section \<open>Numbers in decimal\<close>

definition is_digit :: "byte \<Rightarrow> bool" where
  "is_digit c \<longleftrightarrow> 48 \<le> c \<and> c \<le> 57"

definition is_space :: "byte \<Rightarrow> bool" where
  "is_space c \<longleftrightarrow> c = 32 \<or> (9 \<le> c \<and> c \<le> 13)"

definition digit :: "nat \<Rightarrow> byte" where
  "digit d = word_of_nat (48 + d)"

text \<open>\<^verbatim>\<open>std::to_string\<close> of an unsigned number.\<close>

fun decimal :: "nat \<Rightarrow> bytes" where
  "decimal n = (if n < 10 then [digit n] else decimal (n div 10) @ [digit (n mod 10)])"

definition digits_value :: "bytes \<Rightarrow> nat" where
  "digits_value ds = foldl (\<lambda>acc d. 10 * acc + (unat d - 48)) 0 ds"

text \<open>
  \<^verbatim>\<open>std::stoul\<close> in base 10: white space and a sign are skipped, the longest run of digits is
  read, no digit raises \<^verbatim>\<open>invalid_argument\<close>, a value above \<^verbatim>\<open>ULONG_MAX\<close> \<^verbatim>\<open>out_of_range\<close>;
  a minus sign negates the value as an \<^verbatim>\<open>unsigned long\<close>.
\<close>

definition stoul :: "bytes \<Rightarrow> err + int" where
  "stoul s =
     (let s1 = dropWhile is_space s;
          neg = (s1 \<noteq> [] \<and> hd s1 = 45);
          s2 = (if s1 \<noteq> [] \<and> (hd s1 = 45 \<or> hd s1 = 43) then tl s1 else s1);
          ds = takeWhile is_digit s2;
          v = int (digits_value ds)
      in if ds = [] then Inl Std_invalid_argument
         else if v \<ge> 2 ^ 64 then Inl Std_out_of_range
         else Inr (if neg then u64 (- v) else v))"

declare decimal.simps [simp del]

lemma decimal_small: "n < 10 \<Longrightarrow> decimal n = [digit n]"
  by (simp add: decimal.simps)

lemma decimal_step: "\<not> n < 10 \<Longrightarrow> decimal n = decimal (n div 10) @ [digit (n mod 10)]"
  by (subst decimal.simps) simp

lemma decimal_nonempty [simp]: "decimal n \<noteq> []"
  by (subst decimal.simps) simp

lemma unat_digit: "d < 10 \<Longrightarrow> unat (digit d) = 48 + d"
  unfolding digit_def by (subst unat_of_nat) simp

lemma digit_is_digit: "d < 10 \<Longrightarrow> is_digit (digit d)"
  by (simp add: is_digit_def word_le_nat_alt unat_digit)

lemma decimal_digits: "c \<in> set (decimal n) \<Longrightarrow> is_digit c"
proof (induction n rule: decimal.induct)
  case (1 n)
  then show ?case
    by (cases "n < 10") (auto simp: decimal_small decimal_step digit_is_digit)
qed

lemma digits_value_decimal: "digits_value (decimal n) = n"
proof (induction n rule: decimal.induct)
  case (1 n)
  show ?case
  proof (cases "n < 10")
    case True
    then show ?thesis by (simp add: decimal_small digits_value_def unat_digit)
  next
    case False
    with 1 have "digits_value (decimal (n div 10)) = n div 10" by simp
    with False show ?thesis by (simp add: decimal_step digits_value_def unat_digit)
  qed
qed

lemma is_digit_not: "is_digit c \<Longrightarrow> \<not> is_space c \<and> c \<noteq> 43 \<and> c \<noteq> 45 \<and> c \<noteq> 58"
  by (auto simp: is_digit_def is_space_def word_le_nat_alt)

text \<open>A number that was printed is scanned as a whole.\<close>

lemma decimal_scanned [simp]:
  "dropWhile is_space (decimal n) = decimal n" "takeWhile is_digit (decimal n) = decimal n"
  using is_digit_not [OF decimal_digits [of "hd (decimal n)" n]] decimal_digits
  by (cases "decimal n", simp_all add: takeWhile_eq_all_conv)

lemma stoul_decimal: "n < 2 ^ 64 \<Longrightarrow> stoul (decimal n) = Inr (int n)"
proof -
  assume "n < 2 ^ 64"
  then have "int n < 2 ^ 64" by simp
  then show ?thesis
    using is_digit_not [OF decimal_digits [of "hd (decimal n)" n]]
    by (simp add: stoul_def digits_value_decimal del: takeWhile_eq_all_conv)
qed

section \<open>Addresses\<close>

record address =
  ip_addr :: bytes   \<comment> \<open>\<open>ip_addr_\<close>\<close>
  addr_port :: u16   \<comment> \<open>\<open>port_\<close>\<close>

definition mk_address :: "bytes \<Rightarrow> u16 \<Rightarrow> address" where
  "mk_address ip port = \<lparr>ip_addr = ip, addr_port = port\<rparr>"

text \<open>\<^verbatim>\<open>std::string::rfind\<close>, \<open>None\<close> for \<^verbatim>\<open>npos\<close>.\<close>

definition rfind :: "byte \<Rightarrow> bytes \<Rightarrow> nat option" where
  "rfind c s =
     (let k = length (takeWhile (\<lambda>x. x \<noteq> c) (rev s))
      in if k = length s then None else Some (length s - 1 - k))"

text \<open>
  The constructor from a string: without a colon both \<^verbatim>\<open>substr\<close> calls yield the whole
  string, since \<^verbatim>\<open>npos + 1\<close> is 0.
\<close>

definition address_of_string :: "bytes \<Rightarrow> err + address" where
  "address_of_string s =
     (let sep = rfind 58 s;
          ip = (case sep of None \<Rightarrow> s | Some i \<Rightarrow> take i s);
          port_text = (case sep of None \<Rightarrow> s | Some i \<Rightarrow> drop (i + 1) s)
      in case stoul port_text of
           Inl e \<Rightarrow> Inl e
         | Inr v \<Rightarrow> Inr (mk_address ip (word_of_int v)))"

definition address_to_string :: "address \<Rightarrow> bytes" where
  "address_to_string a = ip_addr a @ [58] @ decimal (unat (addr_port a))"

definition set_ip :: "bytes \<Rightarrow> address \<Rightarrow> address" where
  "set_ip ip a = a\<lparr>ip_addr := ip\<rparr>"

definition set_port :: "u16 \<Rightarrow> address \<Rightarrow> address" where
  "set_port port a = a\<lparr>addr_port := port\<rparr>"

definition address_eq :: "address \<Rightarrow> address \<Rightarrow> bool" where
  "address_eq a b \<longleftrightarrow> (if ip_addr a = ip_addr b \<and> addr_port a = addr_port b then True else False)"

definition address_neq :: "address \<Rightarrow> address \<Rightarrow> bool" where
  "address_neq a b \<longleftrightarrow> \<not> address_eq a b"

definition address_less :: "address \<Rightarrow> address \<Rightarrow> bool" where
  "address_less a b \<longleftrightarrow>
     (if ip_addr a < ip_addr b then True else if addr_port a < addr_port b then True else False)"

lemma address_eq_iff: "address_eq a b \<longleftrightarrow> a = b"
  by (auto simp: address_eq_def)

lemma rfind_last:
  assumes "c \<notin> set ys"
  shows "rfind c (xs @ [c] @ ys) = Some (length xs)"
proof -
  have "takeWhile (\<lambda>x. x \<noteq> c) (rev ys @ c # rev xs) = rev ys"
    using assms by (subst takeWhile_append2) auto
  then show ?thesis by (simp add: rfind_def)
qed

lemma parse_printed_address: "address_of_string (address_to_string a) = Inr a"
proof -
  have "58 \<notin> set (decimal (unat (addr_port a)))"
    using decimal_digits is_digit_not by blast
  then have "rfind 58 (address_to_string a) = Some (length (ip_addr a))"
    unfolding address_to_string_def by (rule rfind_last)
  moreover have "unat (addr_port a) < 2 ^ 64"
    using unsigned_less [where ?'a = nat, of "addr_port a"] by simp
  ultimately show ?thesis
    by (simp add: address_of_string_def Let_def address_to_string_def stoul_decimal mk_address_def)
qed

text \<open>
  Printing an address and parsing the text back gives the same address, for every IP text
  (it may itself contain colons, as IPv6 does) and every port; a text without any colon is taken
  both as the IP and as the port, and no digits after the last colon raise an exception.
\<close>

theorem address_roundtrip:
  "address_of_string (address_to_string a) = Inr a
   \<and> (rfind 58 s = None \<longrightarrow> address_of_string s =
        (case stoul s of Inl e \<Rightarrow> Inl e | Inr v \<Rightarrow> Inr (mk_address s (word_of_int v))))
   \<and> address_of_string (ip @ [58]) = Inl Std_invalid_argument"
proof -
  have "rfind 58 (ip @ [58] @ []) = Some (length ip)" by (rule rfind_last) simp
  then have "address_of_string (ip @ [58]) = Inl Std_invalid_argument"
    by (simp add: address_of_string_def Let_def stoul_def)
  moreover have "rfind 58 s = None \<longrightarrow> address_of_string s =
      (case stoul s of Inl e \<Rightarrow> Inl e | Inr v \<Rightarrow> Inr (mk_address s (word_of_int v)))"
    by (simp add: address_of_string_def Let_def split: sum.split)
  ultimately show ?thesis using parse_printed_address by blast
qed

lemma address_roundtrip_witness:
  "rfind 58 (str ''42'') = None
   \<and> address_of_string (str ''42'') = Inr (mk_address (str ''42'') 42)"
proof -
  have "rfind 58 (str ''42'') = None" "stoul (str ''42'') = Inr 42" by code_simp+
  then show ?thesis using address_roundtrip [of _ "str ''42''"] by simp
qed

text \<open>
  The address order is no strict order: whenever the IP texts and the ports disagree, each of
  the two addresses is less than the other.
\<close>

theorem address_less_both_ways:
  assumes "ip_addr a < ip_addr b" and "addr_port b < addr_port a"
  shows "address_less a b \<and> address_less b a"
  using assms by (auto simp: address_less_def)

theorem address_less_both_ways_witness:
  "address_less (mk_address (str ''10.0.0.1'') 9) (mk_address (str ''10.0.0.2'') 5)
   \<and> address_less (mk_address (str ''10.0.0.2'') 5) (mk_address (str ''10.0.0.1'') 9)"
  by (rule address_less_both_ways) (simp_all add: mk_address_def str_def)

end
