(* ===== verification/Encrypt.thy ===== *)
theory Encrypt
  imports Prelude
begin

text \<open>
  \<^verbatim>\<open>client/sml/aes_128.h\<close>, \<^verbatim>\<open>aes_128.cpp\<close>, \<^verbatim>\<open>encrypt_layer.h\<close> and
  \<^verbatim>\<open>encrypt_layer.cpp\<close>. The primitives of Crypto++ are fields of the record \<open>crypto\<close>, an
  argument of every definition that uses them; what the code relies on is the predicate
  \<open>cfb_ok\<close>. Randomness is drawn from an explicit counter, which the caller threads.
\<close>

section \<open>The primitives of Crypto++\<close>

record crypto =
  cfb_encrypt :: "bytes \<Rightarrow> bytes \<Rightarrow> bytes \<Rightarrow> bytes"  \<comment> \<open>AES in CFB mode: key, iv, data\<close>
  cfb_decrypt :: "bytes \<Rightarrow> bytes \<Rightarrow> bytes \<Rightarrow> bytes"
  random_block :: "nat \<Rightarrow> bytes"       \<comment> \<open>the n-th 16-byte block of the random pool\<close>
  integer_bytes :: "bytes \<Rightarrow> bytes"    \<comment> \<open>an \<open>Integer\<close> read from text, encoded in bytes\<close>
  ephemeral_pair :: "nat \<Rightarrow> bytes \<times> bytes"  \<comment> \<open>private and public key drawn at n\<close>
  dh2_agree :: "bytes \<Rightarrow> bytes \<Rightarrow> bytes \<Rightarrow> bytes \<Rightarrow> bytes option"
  group_valid :: bool                  \<comment> \<open>\<open>ValidateGroup\<close> accepts the parameters\<close>
  subgroup_order_ok :: bool            \<comment> \<open>\<open>g\<close> to the \<open>q\<close> is one\<close>

text \<open>CFB decryption undoes encryption under the same key and iv; blocks have 16 bytes.\<close>

definition cfb_ok :: "crypto \<Rightarrow> bool" where
  "cfb_ok c \<longleftrightarrow> (\<forall>k iv x. cfb_decrypt c k iv (cfb_encrypt c k iv x) = x)
     \<and> (\<forall>k iv x. length (cfb_encrypt c k iv x) = length x) \<and> (\<forall>n. length (random_block c n) = 16)"

section \<open>AES-128\<close>

record aes_128 =
  aes_iv :: bytes    \<comment> \<open>\<open>iv_\<close>\<close>
  aes_key :: bytes   \<comment> \<open>\<open>key_\<close>\<close>

definition block_size :: nat where
  "block_size = 16"

definition key_length :: nat where
  "key_length = 16"

text \<open>The loop of \<^verbatim>\<open>set_key\<close>: byte \<open>i\<close> of the key is folded into position \<open>i mod 16\<close>.\<close>

fun fold_key :: "bytes \<Rightarrow> nat \<Rightarrow> bytes \<Rightarrow> bytes" where
  "fold_key [] i k = k"
| "fold_key (x # xs) i k =
     fold_key xs (Suc i) (k[i mod key_length := (k ! (i mod key_length)) XOR x])"

definition aes_set_key :: "bytes option \<Rightarrow> (aes_128, unit) action" where
  "aes_set_key key =
     (case key of
        None \<Rightarrow> throw Null_deref
      | Some k \<Rightarrow>
          if length k < key_length then throw Invalid_data_error
          else modify (\<lambda>a. a\<lparr>aes_key := fold_key (drop key_length k) key_length (take key_length k)\<rparr>))"

definition aes_new :: "crypto \<Rightarrow> nat \<Rightarrow> bytes option \<Rightarrow> err + aes_128" where
  "aes_new c rnd key =
     (let a = \<lparr>aes_iv = replicate block_size 0, aes_key = random_block c rnd\<rparr> in
      case key of
        None \<Rightarrow> Inr a
      | Some k \<Rightarrow> (case aes_set_key (Some k) a of (Inl e, _) \<Rightarrow> Inl e | (Inr _, a') \<Rightarrow> Inr a'))"

definition aes_encrypt :: "crypto \<Rightarrow> nat \<Rightarrow> bytes \<Rightarrow> (aes_128, bytes) action" where
  "aes_encrypt c rnd data =
     (let iv = random_block c rnd in
      andthen (modify (\<lambda>a. a\<lparr>aes_iv := iv\<rparr>))
        (gets (\<lambda>a. iv @ cfb_encrypt c (aes_key a) iv data)))"

definition aes_decrypt :: "crypto \<Rightarrow> bytes \<Rightarrow> (aes_128, bytes) action" where
  "aes_decrypt c data =
     (let plaintext_length = s32 (int (length data) - int block_size) in
      if plaintext_length \<le> 0 then throw Invalid_data_error
      else andthen (modify (\<lambda>a. a\<lparr>aes_iv := take block_size data\<rparr>))
        (gets (\<lambda>a. cfb_decrypt c (aes_key a) (aes_iv a)
                     (take (nat plaintext_length) (drop block_size data)))))"

text \<open>The overloads on shared pointers dereference their argument.\<close>

definition aes_encrypt_sptr :: "crypto \<Rightarrow> nat \<Rightarrow> bytes option \<Rightarrow> (aes_128, bytes) action" where
  "aes_encrypt_sptr c rnd p = (case p of None \<Rightarrow> throw Null_deref | Some data \<Rightarrow> aes_encrypt c rnd data)"

definition aes_decrypt_sptr :: "crypto \<Rightarrow> bytes option \<Rightarrow> (aes_128, bytes) action" where
  "aes_decrypt_sptr c p = (case p of None \<Rightarrow> throw Null_deref | Some data \<Rightarrow> aes_decrypt c data)"

section \<open>The encryption layer\<close>

datatype algorithm = AES_128

record encrypt_layer =
  encryptor :: aes_128   \<comment> \<open>\<open>encryptor_\<close>\<close>

definition el_new :: "crypto \<Rightarrow> nat \<Rightarrow> algorithm \<Rightarrow> bytes option \<Rightarrow> err + encrypt_layer" where
  "el_new c rnd algo key =
     (case algo of AES_128 \<Rightarrow>
        (case aes_new c rnd key of Inl e \<Rightarrow> Inl e | Inr a \<Rightarrow> Inr \<lparr>encryptor = a\<rparr>))"

definition on_encryptor :: "(aes_128, 'a) action \<Rightarrow> (encrypt_layer, 'a) action" where
  "on_encryptor m = (\<lambda>el. case m (encryptor el) of (r, a) \<Rightarrow> (r, el\<lparr>encryptor := a\<rparr>))"

definition el_encrypt :: "crypto \<Rightarrow> nat \<Rightarrow> bytes \<Rightarrow> (encrypt_layer, bytes) action" where
  "el_encrypt c rnd data = on_encryptor (aes_encrypt c rnd data)"

definition el_decrypt :: "crypto \<Rightarrow> bytes \<Rightarrow> (encrypt_layer, bytes) action" where
  "el_decrypt c data = on_encryptor (aes_decrypt c data)"

definition el_key :: "encrypt_layer \<Rightarrow> bytes" where
  "el_key el = aes_key (encryptor el)"

lemmas aes_defs = aes_encrypt_def aes_decrypt_def block_size_def key_length_def

lemma aes_encrypt_eval [simp]:
  "aes_encrypt c rnd x a =
     (Inr (random_block c rnd @ cfb_encrypt c (aes_key a) (random_block c rnd) x),
      a\<lparr>aes_iv := random_block c rnd\<rparr>)"
  by (simp add: aes_defs act Let_def)

lemma aes_decrypt_short: "length x \<le> 16 \<Longrightarrow> aes_decrypt c x a = (Inl Invalid_data_error, a)"
  by (simp add: aes_defs act)

lemma aes_decrypt_long:
  "16 < length x \<Longrightarrow> length x < 2 ^ 31 \<Longrightarrow>
   aes_decrypt c x a = (Inr (cfb_decrypt c (aes_key a) (take 16 x) (drop 16 x)), a\<lparr>aes_iv := take 16 x\<rparr>)"
  by (simp add: aes_defs act Let_def)

text \<open>What one side encrypts the other, holding the same key, decrypts.\<close>

lemma aes_roundtrip:
  assumes "cfb_ok c" and "aes_key a = aes_key b" and "x \<noteq> []" and "length x < 2 ^ 31 - 16"
    and "aes_encrypt c rnd x a = (Inr y, a')"
  shows "fst (aes_decrypt c y b) = Inr x"
proof -
  have y: "y = random_block c rnd @ cfb_encrypt c (aes_key a) (random_block c rnd) x"
    using assms(5) by simp
  have len: "length (random_block c rnd) = 16" "length y = 16 + length x"
    using assms(1) by (simp_all add: y cfb_ok_def)
  then show ?thesis
    using assms(1-4) by (simp add: aes_decrypt_long y cfb_ok_def)
qed

lemma length_fold_key [simp]: "length (fold_key xs i k) = length k"
  by (induction xs i k rule: fold_key.induct) auto

text \<open>The specification of key folding: position \<open>j\<close> is the XOR of the bytes at \<open>j, j + 16, ...\<close>\<close>

definition xor_column :: "bytes \<Rightarrow> nat \<Rightarrow> byte" where
  "xor_column k j = foldl (XOR) 0 (map (\<lambda>i. k ! i) (filter (\<lambda>i. i mod 16 = j) [0..<length k]))"

lemma fold_key_snoc:
  "fold_key (xs @ [x]) i k = (let k' = fold_key xs i k; j = (i + length xs) mod 16
                              in k'[j := (k' ! j) XOR x])"
  by (induction xs i k rule: fold_key.induct) (auto simp: key_length_def Let_def)

lemma xor_column_snoc:
  "xor_column (k @ [x]) j = (if length k mod 16 = j then xor_column k j XOR x else xor_column k j)"
proof -
  have "map (\<lambda>i. (k @ [x]) ! i) (filter (\<lambda>i. i mod 16 = j) [0..<length k])
      = map (\<lambda>i. k ! i) (filter (\<lambda>i. i mod 16 = j) [0..<length k])"
    by (auto simp: nth_append)
  then show ?thesis by (simp add: xor_column_def nth_append del: map_eq_conv)
qed

lemma xor_column_short:
  assumes "length k = 16" and "j < 16"
  shows "xor_column k j = k ! j"
proof -
  have "filter (\<lambda>i. i mod 16 = j) [0..<16] = filter (\<lambda>i. i = j) [0..<16]"
    by (rule filter_cong) auto
  also have "\<dots> = [j]"
    using assms(2) by (induction j rule: less_induct) (auto simp: upt_rec filter_eq_Cons_iff less_Suc_eq numeral_eq_Suc)
  finally show ?thesis using assms(1) by (simp add: xor_column_def)
qed

lemma fold_key_columns:
  assumes "length k = 16" and "j < 16"
  shows "fold_key xs 16 k ! j = xor_column (k @ xs) j"
proof (induction xs rule: rev_induct)
  case Nil
  then show ?case using assms by (simp add: xor_column_short)
next
  case (snoc x xs)
  then show ?case
    using assms
    by (auto simp: fold_key_snoc Let_def xor_column_snoc nth_list_update simp flip: append_assoc)
qed

text \<open>
  C40: Setting a key of at least 16 bytes folds all of it: byte \<open>j\<close> of the cipher key is the XOR of
  the bytes at \<open>j\<close>, \<open>j + 16\<close>, \<open>j + 32\<close> and so on; a shorter key is refused and leaves the cipher
  as it was.
\<close>

theorem key_folding:
  "(16 \<le> length k \<longrightarrow> (\<exists>a'. aes_set_key (Some k) a = (Inr (), a') \<and> length (aes_key a') = 16
      \<and> (\<forall>j < 16. aes_key a' ! j = xor_column k j)))
   \<and> (length k < 16 \<longrightarrow> aes_set_key (Some k) a = (Inl Invalid_data_error, a))"
proof -
  have "fold_key (drop 16 k) 16 (take 16 k) ! j = xor_column k j" if "16 \<le> length k" "j < 16" for j
    using fold_key_columns [of "take 16 k" j "drop 16 k"] that by simp
  then show ?thesis
    by (auto simp: aes_set_key_def key_length_def act)
qed

lemma key_folding_witness:
  "\<exists>a'. aes_set_key (Some (replicate 16 1 @ [2])) \<lparr>aes_iv = [], aes_key = []\<rparr> = (Inr (), a')
    \<and> aes_key a' ! 0 = 3"
proof -
  have "xor_column (replicate 16 1 @ [2]) 0 = 3" by code_simp
  then show ?thesis
    using key_folding [of "replicate 16 1 @ [2]" "\<lparr>aes_iv = [], aes_key = []\<rparr>"] by force
qed

end
