(* ===== verification/Datagram.thy ===== *)
theory Datagram
  imports Byte_Stream Encrypt
begin

text \<open>
  \<^verbatim>\<open>client/sml/datagram.h\<close> and \<^verbatim>\<open>datagram.cpp\<close>: the UDP datagram, its constructors, its
  encoding into bytes through a \<open>byte_string\<close> and the decoding constructor. The locale
  \<open>scalar_stream\<close> is the contract of the fields' encodings over a byte stream.
\<close>

section \<open>Object representations of scalars\<close>

text \<open>
  \<^verbatim>\<open>operator<<\<close> and \<^verbatim>\<open>operator>>\<close> copy the object representation of their argument; the
  model is a little-endian host. \<open>u32_big\<close> is what \<^verbatim>\<open>append<uint32_t>\<close> writes instead.
\<close>

definition u32_bytes :: "u32 \<Rightarrow> bytes" where
  "u32_bytes w = [ucast w, ucast (drop_bit 8 w), ucast (drop_bit 16 w), ucast (drop_bit 24 w)]"

definition bytes_u32 :: "bytes \<Rightarrow> u32" where
  "bytes_u32 bs = (case bs of
     [b0, b1, b2, b3] \<Rightarrow>
       ucast b0 OR push_bit 8 (ucast b1) OR push_bit 16 (ucast b2) OR push_bit 24 (ucast b3)
   | _ \<Rightarrow> 0)"

definition u32_big :: "u32 \<Rightarrow> bytes" where
  "u32_big w = rev (u32_bytes w)"

lemma diff_less_nat: "0 < k \<Longrightarrow> n - m < k \<longleftrightarrow> n < m + k" for k m n :: nat
  by auto

lemma bytes_u32_inverse: "bytes_u32 (u32_bytes w) = w"
  unfolding bytes_u32_def u32_bytes_def list.case
  by (rule bit_word_eqI)
    (auto simp: bit_simps diff_less_nat not_less, metis le_add_diff_inverse not_less)

lemma byte_no_high_bit: "8 \<le> k \<Longrightarrow> \<not> bit b k" for b :: byte
  using bit_imp_le_length [of b k] by auto

lemma u32_bytes_inverse:
  assumes "length bs = 4"
  shows "u32_bytes (bytes_u32 bs) = bs"
proof -
  obtain b0 b1 b2 b3 where bs: "bs = [b0, b1, b2, b3]"
    using assms by (auto simp: numeral_eq_Suc length_Suc_conv)
  show ?thesis
    unfolding bs bytes_u32_def u32_bytes_def list.case
    by (auto intro!: bit_word_eqI simp: bit_simps byte_no_high_bit)
qed

section \<open>Message types\<close>

text \<open>
  The enumeration has a fixed underlying type, so a received byte without an enumerator is a
  value too: \<open>Unnamed\<close>.
\<close>

datatype msg_type =
    Keep_alive
  | Ack
  | Hello
  | Public_key
  | Partial_shared_key
  | Echo
  | Echo_back
  | Data
  | Data_ack
  | Abort
  | Unnamed byte

fun type_byte :: "msg_type \<Rightarrow> byte" where
  "type_byte Keep_alive = 0"
| "type_byte Ack = 1"
| "type_byte Hello = 2"
| "type_byte Public_key = 3"
| "type_byte Partial_shared_key = 4"
| "type_byte Echo = 5"
| "type_byte Echo_back = 6"
| "type_byte Data = 7"
| "type_byte Data_ack = 8"
| "type_byte Abort = 9"
| "type_byte (Unnamed b) = b"

definition byte_type :: "byte \<Rightarrow> msg_type" where
  "byte_type b =
     (if b = 0 then Keep_alive else if b = 1 then Ack else if b = 2 then Hello
      else if b = 3 then Public_key else if b = 4 then Partial_shared_key else if b = 5 then Echo
      else if b = 6 then Echo_back else if b = 7 then Data else if b = 8 then Data_ack
      else if b = 9 then Abort else Unnamed b)"

definition named_type :: "msg_type \<Rightarrow> bool" where
  "named_type t \<longleftrightarrow> (case t of Unnamed b \<Rightarrow> 9 < b | _ \<Rightarrow> True)"

lemma type_byte_inverse [simp]: "type_byte (byte_type b) = b"
  by (simp add: byte_type_def)

lemma byte_type_inverse: "named_type t \<Longrightarrow> byte_type (type_byte t) = t"
  by (cases t) (auto simp: byte_type_def named_type_def)

lemma byte_below_10: "b \<le> 9 \<Longrightarrow> b = 0 \<or> b = 1 \<or> b = 2 \<or> b = 3 \<or> b = 4 \<or> b = 5 \<or> b = 6 \<or> b = 7 \<or> b = 8 \<or> b = (9 :: byte)"
proof -
  assume "b \<le> 9"
  then have "unat b \<le> 9" by (simp add: word_le_nat_alt)
  then have "unat b \<in> set [0..<10]" by auto
  then have "(word_of_nat (unat b) :: byte) \<in> word_of_nat ` set [0..<10]" by (rule imageI)
  then show ?thesis by (simp add: upt_rec)
qed

lemma named_byte_type: "named_type (byte_type b)"
  using byte_below_10 [of b] by (auto simp: byte_type_def named_type_def not_less intro: ccontr)

section \<open>Scalars on a byte stream\<close>

locale scalar_codec =
  fixes width :: nat
    and encode :: "'v \<Rightarrow> bytes"
    and decode :: "bytes \<Rightarrow> 'v"
    and ok :: "'v \<Rightarrow> bool"
  assumes length_encode: "length (encode v) = width"
    and decode_encode: "ok v \<Longrightarrow> decode (encode v) = v"
    and encode_decode: "length xs = width \<Longrightarrow> encode (decode xs) = xs"
    and ok_decode: "ok (decode xs)"
begin

lemma encode_inj: "ok v \<Longrightarrow> ok w \<Longrightarrow> encode v = encode w \<Longrightarrow> v = w"
  by (metis decode_encode)

end

locale scalar_stream = byte_stream inv contents pos limit put get rest +
  scalar_codec width encode decode ok
  for inv :: "'s \<Rightarrow> bool" and contents :: "'s \<Rightarrow> bytes" and pos :: "'s \<Rightarrow> nat" and limit :: nat
    and put :: "bytes \<Rightarrow> ('s, unit) action" and get :: "nat \<Rightarrow> ('s, bytes) action"
    and rest :: "('s, bytes) action" and width :: nat and encode :: "'v \<Rightarrow> bytes"
    and decode :: "bytes \<Rightarrow> 'v" and ok :: "'v \<Rightarrow> bool"
begin

lemma put_scalar:
  assumes "at_end s xs" and "length xs + width \<le> limit"
  shows "\<exists>s'. put (encode v) s = (Inr (), s') \<and> at_end s' (xs @ encode v)"
  using assms by (intro put_end) (simp_all add: length_encode)

lemma get_scalar:
  assumes "has_left s xs" and "width \<le> length xs"
  shows "\<exists>s'. seq (get width) (\<lambda>raw. ret (decode raw)) s = (Inr (decode (take width xs)), s')
    \<and> has_left s' (drop width xs)"
  using get_take [OF assms] by (auto simp: act)

lemma get_scalar_short:
  assumes "has_left s xs" and "length xs < width"
  shows "fst (seq (get width) (\<lambda>raw. ret (decode raw)) s) = Inl Io_error"
  using get_short_left [OF assms] by (auto simp: act split: sum.splits prod.splits)

text \<open>Reading a field in front of a continuation: one rule for the short and the long case.\<close>

lemma scan:
  assumes "has_left s xs" and "length xs < width \<Longrightarrow> r = Inl Io_error"
    and "\<And>s'. width \<le> length xs \<Longrightarrow> has_left s' (drop width xs) \<Longrightarrow>
      fst (k (decode (take width xs)) s') = r"
  shows "fst (seq (seq (get width) (\<lambda>raw. ret (decode raw))) k s) = r"
proof (cases "length xs < width")
  case True
  with assms get_scalar_short show ?thesis
    by (fastforce simp: seq_apply [of "seq _ _"] split: sum.splits prod.splits)
next
  case False
  then obtain s' where "seq (get width) (\<lambda>raw. ret (decode raw)) s = (Inr (decode (take width xs)), s')"
      "has_left s' (drop width xs)"
    using get_scalar [OF assms(1)] by auto
  with False assms(3) show ?thesis by (simp add: seq_apply [of "seq _ _"])
qed

lemma get_put_scalar:
  assumes "has_left s (encode v @ xs)" and "ok v"
  shows "\<exists>s'. seq (get width) (\<lambda>raw. ret (decode raw)) s = (Inr v, s') \<and> has_left s' xs"
  using get_scalar [OF assms(1)] assms(2) by (simp add: length_encode decode_encode)

end

definition type_bytes :: "msg_type \<Rightarrow> bytes" where
  "type_bytes t = [type_byte t]"

definition bytes_type :: "bytes \<Rightarrow> msg_type" where
  "bytes_type bs = (case bs of [b] \<Rightarrow> byte_type b | _ \<Rightarrow> Keep_alive)"

interpretation bs_type: scalar_stream bs_inv bs_to_string bs_pos "2 ^ 30" bs_put bs_get bs_get_string
    1 type_bytes bytes_type named_type
  by unfold_locales
    (auto simp: type_bytes_def bytes_type_def byte_type_inverse named_byte_type length_Suc_conv
      named_type_def [of Keep_alive] split: list.splits)

interpretation bs_u32: scalar_stream bs_inv bs_to_string bs_pos "2 ^ 30" bs_put bs_get bs_get_string
    4 u32_bytes bytes_u32 "\<lambda>_. True"
  by unfold_locales (simp_all add: u32_bytes_def [THEN arg_cong [where f = length]] bytes_u32_inverse u32_bytes_inverse)

section \<open>Datagrams\<close>

record datagram =
  dg_type :: msg_type    \<comment> \<open>\<open>type_\<close>\<close>
  dg_id :: u32           \<comment> \<open>\<open>id_\<close>\<close>
  dg_offset :: u32       \<comment> \<open>\<open>offset_\<close>\<close>
  dg_length :: u32       \<comment> \<open>\<open>length_\<close>\<close>
  dg_payload :: bytes    \<comment> \<open>\<open>payload_\<close>\<close>

definition datagram_new :: datagram where
  "datagram_new = \<lparr>dg_type = Keep_alive, dg_id = 0, dg_offset = 0, dg_length = 0, dg_payload = []\<rparr>"

definition datagram_eq :: "datagram \<Rightarrow> datagram \<Rightarrow> bool" where
  "datagram_eq a b \<longleftrightarrow> dg_id a = dg_id b \<and> dg_type a = dg_type b \<and> dg_offset a = dg_offset b
     \<and> dg_length a = dg_length b \<and> dg_payload a = dg_payload b"

definition datagram_neq :: "datagram \<Rightarrow> datagram \<Rightarrow> bool" where
  "datagram_neq a b \<longleftrightarrow> \<not> datagram_eq a b"

text \<open>The decoding constructor.\<close>

definition datagram_read :: "(byte_string, datagram) action" where
  "datagram_read =
     seq (seq (bs_get 1) (\<lambda>raw. ret (bytes_type raw))) (\<lambda>t.
     seq (seq (bs_get 4) (\<lambda>raw. ret (bytes_u32 raw))) (\<lambda>i.
     seq (seq (bs_get 4) (\<lambda>raw. ret (bytes_u32 raw))) (\<lambda>off.
     seq (seq (bs_get 4) (\<lambda>raw. ret (bytes_u32 raw))) (\<lambda>len.
     seq bs_get_string (\<lambda>payload.
       ret \<lparr>dg_type = t, dg_id = i, dg_offset = off, dg_length = len, dg_payload = payload\<rparr>)))))"

definition datagram_of_bytes :: "bytes \<Rightarrow> err + datagram" where
  "datagram_of_bytes bytes =
     (case bs_of_string bytes of Inl e \<Rightarrow> Inl e | Inr b \<Rightarrow> fst (datagram_read b))"

text \<open>The conversion to raw bytes.\<close>

definition datagram_write :: "datagram \<Rightarrow> (byte_string, unit) action" where
  "datagram_write d =
     andthen (bs_put (type_bytes (dg_type d)))
     (andthen (bs_put (u32_bytes (dg_id d)))
     (andthen (bs_put (u32_bytes (dg_offset d)))
     (andthen (bs_put (u32_bytes (dg_length d)))
     (bs_put (dg_payload d)))))"

definition datagram_bytes :: "datagram \<Rightarrow> err + bytes" where
  "datagram_bytes d =
     (case datagram_write d bs_empty of (Inl e, _) \<Rightarrow> Inl e | (Inr _, b) \<Rightarrow> Inr (bs_to_string b))"

definition encrypt_payload :: "crypto \<Rightarrow> nat \<Rightarrow> datagram \<Rightarrow> (encrypt_layer, datagram) action" where
  "encrypt_payload c rnd d =
     (if length (dg_payload d) \<noteq> 0
      then seq (el_encrypt c rnd (dg_payload d)) (\<lambda>p. ret (d\<lparr>dg_payload := p\<rparr>))
      else ret d)"

definition decrypt_payload :: "crypto \<Rightarrow> datagram \<Rightarrow> (encrypt_layer, datagram) action" where
  "decrypt_payload c d =
     (if length (dg_payload d) \<noteq> 0
      then seq (el_decrypt c (dg_payload d)) (\<lambda>p. ret (d\<lparr>dg_payload := p\<rparr>))
      else ret d)"

definition create_keep_alive :: datagram where
  "create_keep_alive = datagram_new\<lparr>dg_type := Keep_alive\<rparr>"

definition create_hello :: "bytes \<Rightarrow> datagram" where
  "create_hello my_id =
     datagram_new\<lparr>dg_type := Hello, dg_payload := my_id, dg_length := word_of_nat (length my_id)\<rparr>"

definition create_public_key :: "bytes \<Rightarrow> datagram" where
  "create_public_key pub_key = datagram_new\<lparr>dg_type := Public_key, dg_offset := 0,
     dg_length := word_of_nat (length pub_key), dg_payload := pub_key\<rparr>"

definition create_ack :: "u32 \<Rightarrow> u32 \<Rightarrow> datagram" where
  "create_ack i off = datagram_new\<lparr>dg_type := Ack, dg_offset := off\<rparr>"

definition create_echo :: "bytes \<Rightarrow> datagram" where
  "create_echo content = datagram_new\<lparr>dg_type := Echo, dg_length := word_of_nat (length content),
     dg_payload := content\<rparr>"

definition create_echo_back :: "datagram \<Rightarrow> datagram" where
  "create_echo_back echo_datagram = echo_datagram\<lparr>dg_type := Echo_back\<rparr>"

definition create_abort :: datagram where
  "create_abort = datagram_new\<lparr>dg_type := Abort\<rparr>"

lemmas create_defs = create_keep_alive_def create_hello_def create_public_key_def create_ack_def
  create_echo_def create_echo_back_def create_abort_def datagram_new_def

section \<open>Correctness of the codec\<close>

text \<open>The wire format, and the datagram a byte sequence of at least 13 bytes denotes.\<close>

definition datagram_wire :: "datagram \<Rightarrow> bytes" where
  "datagram_wire d = type_bytes (dg_type d) @ u32_bytes (dg_id d) @ u32_bytes (dg_offset d)
     @ u32_bytes (dg_length d) @ dg_payload d"

definition wire_datagram :: "bytes \<Rightarrow> datagram" where
  "wire_datagram bs = \<lparr>dg_type = bytes_type (take 1 bs), dg_id = bytes_u32 (take 4 (drop 1 bs)),
     dg_offset = bytes_u32 (take 4 (drop 5 bs)), dg_length = bytes_u32 (take 4 (drop 9 bs)),
     dg_payload = drop 13 bs\<rparr>"

lemma length_datagram_wire: "length (datagram_wire d) = 13 + length (dg_payload d)"
  by (simp add: datagram_wire_def type_bytes_def bs_u32.length_encode)

lemma datagram_wire_parts:
  "take 1 (datagram_wire d) = type_bytes (dg_type d)"
  "take 4 (drop 1 (datagram_wire d)) = u32_bytes (dg_id d)"
  "take 4 (drop 5 (datagram_wire d)) = u32_bytes (dg_offset d)"
  "take 4 (drop 9 (datagram_wire d)) = u32_bytes (dg_length d)"
  "drop 13 (datagram_wire d) = dg_payload d"
  by (simp_all add: datagram_wire_def type_bytes_def u32_bytes_def)

lemma wire_datagram_wire: "named_type (dg_type d) \<Longrightarrow> wire_datagram (datagram_wire d) = d"
  by (simp add: wire_datagram_def datagram_wire_parts bs_type.decode_encode bytes_u32_inverse
      del: One_nat_def)

lemma datagram_wire_datagram:
  assumes "13 \<le> length bs"
  shows "datagram_wire (wire_datagram bs) = bs"
proof -
  have "datagram_wire (wire_datagram bs) =
      take 1 bs @ take 4 (drop 1 bs) @ take 4 (drop 5 bs) @ take 4 (drop 9 bs) @ drop 13 bs"
    using assms by (simp add: datagram_wire_def wire_datagram_def bs_type.encode_decode
        u32_bytes_inverse del: One_nat_def)
  also have "\<dots> = bs"
    using take_drop_chain [of 4 9 bs] take_drop_chain [of 4 5 bs] take_drop_chain [of 4 1 bs]
      take_drop_chain [of 1 0 bs]
    by (simp del: One_nat_def)
  finally show ?thesis .
qed

lemma datagram_write_ok:
  assumes "length (dg_payload d) \<le> 2 ^ 30 - 13"
  shows "datagram_bytes d = Inr (datagram_wire d)"
proof -
  have "datagram_write d = for_each bs_put [type_bytes (dg_type d), u32_bytes (dg_id d),
      u32_bytes (dg_offset d), u32_bytes (dg_length d), dg_payload d]"
    by (simp add: datagram_write_def fun_eq_iff act split: sum.splits prod.splits)
  moreover have "bs.at_end bs_empty []"
    by (simp add: bs.at_end_def bs_inv_empty)
  ultimately show ?thesis
    using bs.put_all [of bs_empty "[]" "[type_bytes (dg_type d), u32_bytes (dg_id d),
        u32_bytes (dg_offset d), u32_bytes (dg_length d), dg_payload d]"] assms
    by (auto simp: datagram_bytes_def datagram_wire_def bs.at_end_def type_bytes_def u32_bytes_def)
qed

lemma datagram_read_eq:
  assumes left: "bs.has_left b xs"
  shows "fst (datagram_read b) = (if length xs < 13 then Inl Io_error else Inr (wire_datagram xs))"
  unfolding datagram_read_def
proof (rule bs_type.scan [OF left], simp)
  fix b1
  assume n1: "1 \<le> length xs" and b1: "bs.has_left b1 (drop 1 xs)"
  let ?r = "if length xs < 13 then Inl Io_error else Inr (wire_datagram xs)"
  have last: "fst (seq bs_get_string (\<lambda>payload. ret (mk payload)) b4) = Inr (mk (drop 13 xs))"
    if "bs.has_left b4 (drop 13 xs)" for b4 and mk :: "bytes \<Rightarrow> datagram"
    using bs.rest_left [OF that] by (auto simp: act split: sum.splits prod.splits)
  show "fst (seq (seq (bs_get 4) (\<lambda>raw. ret (bytes_u32 raw))) (\<lambda>i.
     seq (seq (bs_get 4) (\<lambda>raw. ret (bytes_u32 raw))) (\<lambda>off.
     seq (seq (bs_get 4) (\<lambda>raw. ret (bytes_u32 raw))) (\<lambda>len.
     seq bs_get_string (\<lambda>payload. ret \<lparr>dg_type = bytes_type (take 1 xs), dg_id = i,
       dg_offset = off, dg_length = len, dg_payload = payload\<rparr>)))) b1) = ?r"
    by (rule bs_u32.scan [OF b1], force, rule bs_u32.scan, assumption, force, rule bs_u32.scan,
        assumption, force) (use n1 in \<open>auto simp: last wire_datagram_def\<close>)
qed

lemma datagram_of_bytes_eq:
  assumes "length bs \<le> 2 ^ 30"
  shows "datagram_of_bytes bs =
    (if length bs < 13 then Inl Io_error else Inr (wire_datagram bs))"
proof -
  obtain b where "bs_of_string bs = Inr b" "bs.has_left b bs"
    using bs_of_string_ok [OF assms] by (auto simp: bs.has_left_def)
  then show ?thesis
    by (simp add: datagram_of_bytes_def datagram_read_eq)
qed

section \<open>Properties\<close>

text \<open>
  C13: Encoding a datagram and decoding the bytes gives the datagram back, and the encoding is the
  payload behind a header of 13 bytes.
\<close>

theorem datagram_roundtrip:
  assumes "named_type (dg_type d)" and "length (dg_payload d) \<le> 2 ^ 30 - 13"
  shows "\<exists>bs. datagram_bytes d = Inr bs \<and> length bs = 13 + length (dg_payload d)
    \<and> datagram_of_bytes bs = Inr d"
  using assms
  by (intro exI [of _ "datagram_wire d"])
    (simp add: datagram_write_ok length_datagram_wire datagram_of_bytes_eq wire_datagram_wire)

lemma datagram_roundtrip_witness:
  "\<exists>bs. datagram_bytes (create_hello [1, 2]) = Inr bs \<and> length bs = 15
    \<and> datagram_of_bytes bs = Inr (create_hello [1, 2])"
  using datagram_roundtrip [of "create_hello [1, 2]"]
  by (simp add: create_hello_def datagram_new_def named_type_def)

text \<open>
  C14: Decoding is total: fewer than 13 bytes are an I/O error, and any others are a datagram whose
  encoding is exactly the bytes that were decoded, also when the type is none of the named ones.
\<close>

theorem datagram_decode_total:
  assumes "length bs \<le> 2 ^ 30"
  shows "(length bs < 13 \<longrightarrow> datagram_of_bytes bs = Inl Io_error)
    \<and> (13 \<le> length bs \<longrightarrow> (\<exists>d. datagram_of_bytes bs = Inr d \<and> datagram_bytes d = Inr bs))"
proof -
  have "datagram_bytes (wire_datagram bs) = Inr bs" if "13 \<le> length bs"
  proof -
    have "length (dg_payload (wire_datagram bs)) \<le> 2 ^ 30 - 13"
      using assms by (simp add: wire_datagram_def)
    then show ?thesis using that by (simp add: datagram_write_ok datagram_wire_datagram)
  qed
  then show ?thesis using assms by (simp add: datagram_of_bytes_eq)
qed

lemma datagram_decode_total_witness:
  "datagram_of_bytes [1, 2] = Inl Io_error
   \<and> (\<exists>d. datagram_of_bytes (replicate 13 255) = Inr d \<and> datagram_bytes d = Inr (replicate 13 255))"
  using datagram_decode_total [of "[1, 2]"] datagram_decode_total [of "replicate 13 255"] by simp

text \<open>
  C15: Two sides that hold the same key understand each other: decrypting an encrypted payload
  gives the datagram back, an empty payload is not touched, and a payload no longer than one
  block is refused.
\<close>

theorem payload_encryption:
  assumes "cfb_ok c" and "el_key el = el_key el'" and "length (dg_payload d) < 2 ^ 31 - 16"
  shows "(\<exists>e. fst (encrypt_payload c n d el) = Inr e \<and> fst (decrypt_payload c e el') = Inr d
      \<and> (dg_payload d = [] \<longrightarrow> e = d))
    \<and> (0 < length (dg_payload d) \<and> length (dg_payload d) \<le> 16 \<longrightarrow>
        fst (decrypt_payload c d el') = Inl Invalid_data_error)"
proof
  show "\<exists>e. fst (encrypt_payload c n d el) = Inr e \<and> fst (decrypt_payload c e el') = Inr d
      \<and> (dg_payload d = [] \<longrightarrow> e = d)"
  proof (cases "dg_payload d = []")
    case True
    then show ?thesis by (simp add: encrypt_payload_def decrypt_payload_def act)
  next
    case False
    let ?iv = "random_block c n" and ?k = "aes_key (encryptor el)"
    let ?y = "?iv @ cfb_encrypt c ?k ?iv (dg_payload d)"
    have "aes_encrypt c n (dg_payload d) (encryptor el) = (Inr ?y, (encryptor el)\<lparr>aes_iv := ?iv\<rparr>)" by simp
    from aes_roundtrip [OF assms(1) _ False assms(3) this] assms(2)
    have "fst (aes_decrypt c ?y (encryptor el')) = Inr (dg_payload d)" by (simp add: el_key_def)
    moreover have "length ?iv = 16" using assms(1) by (simp add: cfb_ok_def)
    then have "?y \<noteq> []" by auto
    ultimately show ?thesis
      using False by (auto simp: encrypt_payload_def decrypt_payload_def el_encrypt_def el_decrypt_def
          on_encryptor_def act split: prod.splits sum.splits)
  qed
  show "0 < length (dg_payload d) \<and> length (dg_payload d) \<le> 16 \<longrightarrow>
      fst (decrypt_payload c d el') = Inl Invalid_data_error"
    by (auto simp: decrypt_payload_def el_decrypt_def on_encryptor_def act aes_decrypt_short)
qed

end
