(* ===== verification/Ring.thy ===== *)
theory Ring
  imports Prelude
begin

text \<open>
  \<^verbatim>\<open>client/sml/ring.h\<close> and \<^verbatim>\<open>ring.cpp\<close>: the thread-safe message queue between the
  protocol and its user. Every operation holds the mutex for its whole body, so each is one
  atomic step. The locale \<open>fifo\<close> is the contract the service relies on.
\<close>

locale fifo =
  fixes empty :: 'q
    and put :: "'a \<Rightarrow> 'q \<Rightarrow> 'q"
    and get :: "'q \<Rightarrow> 'a option \<times> 'q"
    and count :: "'q \<Rightarrow> nat"
    and items :: "'q \<Rightarrow> 'a list"
  assumes items_empty: "items empty = []"
    and items_put: "items (put x q) = items q @ [x]"
    and get_none: "items q = [] \<Longrightarrow> get q = (None, q)"
    and get_some: "items q = x # xs \<Longrightarrow> \<exists>q'. get q = (Some x, q') \<and> items q' = xs"
    and count_items: "count q = length (items q)"
begin

lemma items_fold_put: "items (fold put xs q) = items q @ xs"
  by (induction xs arbitrary: q) (simp_all add: items_put)

lemma get_fst: "fst (get q) = (case items q of [] \<Rightarrow> None | x # _ \<Rightarrow> Some x)"
  using get_none [of q] get_some [of q] by (fastforce split: list.splits)

lemma get_snd: "items (snd (get q)) = tl (items q)"
  using get_none [of q] get_some [of q] by (cases "items q") fastforce+

text \<open>Taking \<open>n\<close> times yields the first \<open>n\<close> elements in the order they were put.\<close>

primrec get_many :: "nat \<Rightarrow> 'q \<Rightarrow> 'a list \<times> 'q" where
  "get_many 0 q = ([], q)"
| "get_many (Suc n) q = (case get q of
      (None, q') \<Rightarrow> ([], q')
    | (Some x, q') \<Rightarrow> (case get_many n q' of (xs, q'') \<Rightarrow> (x # xs, q'')))"

lemma get_many_items:
  "fst (get_many n q) = take n (items q) \<and> items (snd (get_many n q)) = drop n (items q)"
proof (induction n arbitrary: q)
  case 0
  then show ?case by simp
next
  case (Suc n)
  show ?case
  proof (cases "items q")
    case Nil
    with get_none [of q] show ?thesis by simp
  next
    case (Cons x xs)
    then obtain q' where "get q = (Some x, q')" "items q' = xs" using get_some by blast
    with Suc [of q'] Cons show ?thesis by (auto split: prod.splits)
  qed
qed

lemma first_in_first_out: "items q = [] \<Longrightarrow> fst (get_many (length xs) (fold put xs q)) = xs"
  using get_many_items [of "length xs" "fold put xs q"] by (simp add: items_fold_put)

lemma get_decreases: "get q = (Some x, q') \<Longrightarrow> count q' < count q"
  using get_none [of q] get_some [of q] by (cases "items q") (auto simp: count_items)

end

record 'm ring =
  msg_lst :: "'m list"   \<comment> \<open>\<open>msg_lst_\<close>\<close>

definition ring_new :: "'m ring" where
  "ring_new = \<lparr>msg_lst = []\<rparr>"

definition ring_put :: "'m \<Rightarrow> 'm ring \<Rightarrow> 'm ring" where
  "ring_put msg r = r\<lparr>msg_lst := msg_lst r @ [msg]\<rparr>"

definition ring_get :: "'m ring \<Rightarrow> 'm option \<times> 'm ring" where
  "ring_get r = (case msg_lst r of [] \<Rightarrow> (None, r) | m # ms \<Rightarrow> (Some m, r\<lparr>msg_lst := ms\<rparr>))"

definition ring_size :: "'m ring \<Rightarrow> nat" where
  "ring_size r = length (msg_lst r)"

interpretation rq: fifo ring_new ring_put ring_get ring_size msg_lst
  by unfold_locales (auto simp: ring_new_def ring_put_def ring_get_def ring_size_def)

lemma ring_get_Nil [simp]: "msg_lst r = [] \<Longrightarrow> ring_get r = (None, r)"
  by (rule rq.get_none)

lemma msg_lst_put [simp]: "msg_lst (ring_put m r) = msg_lst r @ [m]"
  by (rule rq.items_put)

text \<open>
  The ring is first in, first out: taking as often as was put returns the messages in the
  order they were put, nothing is left, and one more take returns a null pointer.
\<close>

theorem ring_first_in_first_out:
  "fst (rq.get_many (length ms) (fold ring_put ms ring_new)) = ms
   \<and> ring_size (snd (rq.get_many (length ms) (fold ring_put ms ring_new))) = 0
   \<and> fst (ring_get (snd (rq.get_many (length ms) (fold ring_put ms ring_new)))) = None"
proof -
  have "msg_lst (snd (rq.get_many (length ms) (fold ring_put ms ring_new))) = []"
    using rq.get_many_items [of "length ms" "fold ring_put ms ring_new"]
    by (simp add: rq.items_fold_put rq.items_empty)
  then show ?thesis
    using rq.first_in_first_out [OF rq.items_empty, of ms] by (simp add: ring_size_def)
qed

end
