(* ===== verification/Messages.thy ===== *)
theory Messages
  imports Address
begin

text \<open>
  \<^verbatim>\<open>client/sml/message.h\<close> and the constructors and accessors of \<^verbatim>\<open>message.cpp\<close>: what the
  user posts to the protocol and what the protocol reports. The control messages' effects
  (their \<^verbatim>\<open>operator()\<close>) are in \<open>Control\<close>, over the layer they act on.
\<close>

datatype message =
    Add_peer address
  | Del_peer address
  | New_peer bytes address
  | Add_stream address u32
  | Del_stream address u32
  | New_stream address u32
  | Send_data address u32 bytes
  | Recv_data address u32 bytes
  | Error_message bytes

datatype message_kind =
    Kind_add_peer
  | Kind_del_peer
  | Kind_new_peer
  | Kind_add_stream
  | Kind_del_stream
  | Kind_new_stream
  | Kind_send_data
  | Kind_recv_data
  | Kind_error

fun message_type :: "message \<Rightarrow> message_kind" where
  "message_type (Add_peer _) = Kind_add_peer"
| "message_type (Del_peer _) = Kind_del_peer"
| "message_type (New_peer _ _) = Kind_new_peer"
| "message_type (Add_stream _ _) = Kind_add_stream"
| "message_type (Del_stream _ _) = Kind_del_stream"
| "message_type (New_stream _ _) = Kind_new_stream"
| "message_type (Send_data _ _ _) = Kind_send_data"
| "message_type (Recv_data _ _ _) = Kind_recv_data"
| "message_type (Error_message _) = Kind_error"

text \<open>\<open>control_message\<close> is a base of these classes only: the others' dynamic cast is null.\<close>

fun is_control :: "message \<Rightarrow> bool" where
  "is_control (Add_peer _) = True"
| "is_control (Del_peer _) = True"
| "is_control (Add_stream _ _) = True"
| "is_control (Del_stream _ _) = True"
| "is_control (Send_data _ _ _) = True"
| "is_control _ = False"

end
