(* ===== verification/Configuration.thy ===== *)
theory Configuration
  imports Address Std_Map
begin

text \<open>
  \<^verbatim>\<open>client/sml/configuration.h\<close> and \<^verbatim>\<open>configuration.cpp\<close>: the node's own identity and
  keys, and the table of trusted peers. Reading it from YAML is not modelled.
\<close>

record configuration =
  conf_server :: address
  conf_id :: bytes
  conf_pubkey :: bytes
  conf_privkey :: bytes
  conf_port :: u16
  conf_timeout :: u32
  conf_max_retries :: u32
  conf_trusted :: "(bytes, bytes) std_map"   \<comment> \<open>\<open>trusted_peer_key_map_\<close>\<close>

definition configuration_new ::
  "address \<Rightarrow> bytes \<Rightarrow> bytes \<Rightarrow> bytes \<Rightarrow> u16 \<Rightarrow> u32 \<Rightarrow> u32 \<Rightarrow> (bytes, bytes) std_map \<Rightarrow> configuration"
where
  "configuration_new server i private_key public_key port timeout max_retries trusted =
     \<lparr>conf_server = server, conf_id = i, conf_pubkey = public_key, conf_privkey = private_key,
      conf_port = port, conf_timeout = timeout, conf_max_retries = max_retries,
      conf_trusted = trusted\<rparr>"

definition add_trusted_peer_public_key :: "bytes \<Rightarrow> bytes \<Rightarrow> configuration \<Rightarrow> configuration" where
  "add_trusted_peer_public_key i public_key conf =
     conf\<lparr>conf_trusted := map_assign i public_key (conf_trusted conf)\<rparr>"

definition get_peer_public_key_by_id :: "configuration \<Rightarrow> bytes \<Rightarrow> bytes" where
  "get_peer_public_key_by_id conf i =
     (case map_of (conf_trusted conf) i of Some k \<Rightarrow> k | None \<Rightarrow> [])"

definition conf_ok :: "configuration \<Rightarrow> bool" where
  "conf_ok conf \<longleftrightarrow> sorted_keys (conf_trusted conf)"

lemma conf_ok_add: "conf_ok conf \<Longrightarrow> conf_ok (add_trusted_peer_public_key i k conf)"
  by (simp add: conf_ok_def add_trusted_peer_public_key_def smap.ok_assign)

text \<open>
  A trusted key that was added is found under its id and replaces an older one, the keys of
  all other ids stay, and an id that was never added has the empty key.
\<close>

theorem trusted_key_lookup:
  assumes "conf_ok conf"
  shows "get_peer_public_key_by_id (add_trusted_peer_public_key i k conf) j =
      (if j = i then k else get_peer_public_key_by_id conf j)
    \<and> conf_ok (add_trusted_peer_public_key i k conf)
    \<and> (map_of (conf_trusted conf) j = None \<longrightarrow> get_peer_public_key_by_id conf j = [])"
  using assms conf_ok_add
  by (auto simp: get_peer_public_key_by_id_def add_trusted_peer_public_key_def conf_ok_def smap.find_assign)

lemma trusted_key_lookup_witness:
  "let conf = configuration_new (mk_address [] 0) [] [] [] 0 0 0 [] in
   get_peer_public_key_by_id (add_trusted_peer_public_key [1] [2] conf) [1] = [2]"
  using trusted_key_lookup [of "configuration_new (mk_address [] 0) [] [] [] 0 0 0 []" "[1]" "[2]" "[1]"]
  by (simp add: conf_ok_def configuration_new_def)

end
