(* ===== verification/Settings_File.thy ===== *)
theory Settings_File
  imports Configuration
begin

text \<open>
  The constructor of \<^verbatim>\<open>client/sml/configuration.cpp\<close> from a YAML node and the conversion of
  addresses in \<^verbatim>\<open>address.h\<close>. The library yaml-cpp is a parameter, the record \<open>yaml\<close> of the
  functions the code calls; nodes are an abstract type.
\<close>

section \<open>What the code calls\<close>

record 'n yaml =
  y_child :: "'n \<Rightarrow> bytes \<Rightarrow> 'n"            \<comment> \<open>\<open>node[key]\<close>\<close>
  y_is_scalar :: "'n \<Rightarrow> err + bool"
  y_string :: "'n \<Rightarrow> err + bytes"           \<comment> \<open>\<open>as<std::string>\<close>, and so on\<close>
  y_u16 :: "'n \<Rightarrow> err + u16"
  y_u32 :: "'n \<Rightarrow> err + u32"
  y_table :: "'n \<Rightarrow> err + (bytes, bytes) std_map"
  y_scalar :: "bytes \<Rightarrow> 'n"                 \<comment> \<open>\<open>Node(text)\<close>\<close>
  y_as :: "('n \<Rightarrow> err + address option) \<Rightarrow> 'n \<Rightarrow> err + address"
    \<comment> \<open>\<open>as<T>\<close> of a type with a conversion, which it is given\<close>

section \<open>Addresses\<close>

definition address_encode :: "'n yaml \<Rightarrow> address \<Rightarrow> 'n" where
  "address_encode y rhs = y_scalar y (address_to_string rhs)"

text \<open>\<open>None\<close> is the result \<^verbatim>\<open>false\<close>; otherwise the address is stored and the result \<^verbatim>\<open>true\<close>.\<close>

definition address_decode :: "'n yaml \<Rightarrow> 'n \<Rightarrow> err + address option" where
  "address_decode y node = (case y_is_scalar y node of
     Inl e \<Rightarrow> Inl e
   | Inr scalar \<Rightarrow>
       if \<not> scalar then Inr None
       else (case y_string y node of
         Inl e \<Rightarrow> Inl e
       | Inr s \<Rightarrow> (case address_of_string s of Inl e \<Rightarrow> Inl e | Inr a \<Rightarrow> Inr (Some a))))"

definition as_address :: "'n yaml \<Rightarrow> 'n \<Rightarrow> err + address" where
  "as_address y node = y_as y (address_decode y) node"

section \<open>The constructor\<close>

text \<open>Each member is read in turn; the first that cannot be read ends the construction.\<close>

definition configuration_of_node :: "'n yaml \<Rightarrow> 'n \<Rightarrow> (configuration, unit) action" where
  "configuration_of_node y node =
     seq (lift (as_address y (y_child y node (str ''server'')))) (\<lambda>server.
     andthen (modify (\<lambda>c. c\<lparr>conf_server := server\<rparr>))
     (seq (lift (y_string y (y_child y node (str ''id'')))) (\<lambda>i.
     andthen (modify (\<lambda>c. c\<lparr>conf_id := i\<rparr>))
     (seq (lift (y_string y (y_child y node (str ''private_key'')))) (\<lambda>k.
     andthen (modify (\<lambda>c. c\<lparr>conf_privkey := k\<rparr>))
     (seq (lift (y_string y (y_child y node (str ''public_key'')))) (\<lambda>k.
     andthen (modify (\<lambda>c. c\<lparr>conf_pubkey := k\<rparr>))
     (seq (lift (y_u16 y (y_child y node (str ''port'')))) (\<lambda>p.
     andthen (modify (\<lambda>c. c\<lparr>conf_port := p\<rparr>))
     (seq (lift (y_u32 y (y_child y node (str ''timeout'')))) (\<lambda>t.
     andthen (modify (\<lambda>c. c\<lparr>conf_timeout := t\<rparr>))
     (seq (lift (y_u32 y (y_child y node (str ''max_retries'')))) (\<lambda>n.
     andthen (modify (\<lambda>c. c\<lparr>conf_max_retries := n\<rparr>))
     (seq (lift (y_table y (y_child y node (str ''trusted_peers'')))) (\<lambda>m.
     modify (\<lambda>c. c\<lparr>conf_trusted := m\<rparr>))))))))))))))))"

section \<open>Reading what was written\<close>

text \<open>
  The documented behaviour of the library: a node made from a text is a scalar with that text, a
  table is read as a \<^verbatim>\<open>std::map\<close>, and \<^verbatim>\<open>as\<close> runs the conversion of the type and throws a
  \<^verbatim>\<open>runtime_error\<close> when it says \<^verbatim>\<open>false\<close>.
\<close>

definition yaml_ok :: "'n yaml \<Rightarrow> bool" where
  "yaml_ok y \<longleftrightarrow> (\<forall>s. y_is_scalar y (y_scalar y s) = Inr True \<and> y_string y (y_scalar y s) = Inr s)
     \<and> (\<forall>n m. y_table y n = Inr m \<longrightarrow> sorted_keys m)
     \<and> (\<forall>decode n. y_as y decode n = (case decode n of
          Inl e \<Rightarrow> Inl e | Inr None \<Rightarrow> Inl Std_runtime_error | Inr (Some a) \<Rightarrow> Inr a))"

text \<open>A node holds the settings of a configuration, the address as the encoder writes it.\<close>

definition node_holds :: "'n yaml \<Rightarrow> 'n \<Rightarrow> configuration \<Rightarrow> bool" where
  "node_holds y node conf \<longleftrightarrow>
     y_child y node (str ''server'') = address_encode y (conf_server conf)
     \<and> y_string y (y_child y node (str ''id'')) = Inr (conf_id conf)
     \<and> y_string y (y_child y node (str ''private_key'')) = Inr (conf_privkey conf)
     \<and> y_string y (y_child y node (str ''public_key'')) = Inr (conf_pubkey conf)
     \<and> y_u16 y (y_child y node (str ''port'')) = Inr (conf_port conf)
     \<and> y_u32 y (y_child y node (str ''timeout'')) = Inr (conf_timeout conf)
     \<and> y_u32 y (y_child y node (str ''max_retries'')) = Inr (conf_max_retries conf)
     \<and> y_table y (y_child y node (str ''trusted_peers'')) = Inr (conf_trusted conf)"

lemma encoded_address: "yaml_ok y \<Longrightarrow> as_address y (address_encode y a) = Inr a"
  by (simp add: as_address_def address_decode_def address_encode_def yaml_ok_def parse_printed_address)

text \<open>
  Settings written to YAML are read back: the address survives its conversion, a node that
  holds the settings gives the configuration the other constructor makes of them, with its
  table in key order; and when the node of the server is no scalar nothing else is read and the
  construction fails with a runtime error.
\<close>

theorem settings_file_roundtrip:
  assumes "yaml_ok y" and "node_holds y node conf"
  shows "as_address y (address_encode y (conf_server conf)) = Inr (conf_server conf)
    \<and> configuration_of_node y node blank = (Inr (), configuration_new (conf_server conf) (conf_id conf)
        (conf_privkey conf) (conf_pubkey conf) (conf_port conf) (conf_timeout conf) (conf_max_retries conf)
        (conf_trusted conf))
    \<and> conf_ok conf
    \<and> (y_is_scalar y (y_child y node' (str ''server'')) = Inr False \<longrightarrow>
        configuration_of_node y node' blank = (Inl Std_runtime_error, blank))"
proof -
  have read: "configuration_of_node y node blank = (Inr (), configuration_new (conf_server conf) (conf_id conf)
      (conf_privkey conf) (conf_pubkey conf) (conf_port conf) (conf_timeout conf) (conf_max_retries conf)
      (conf_trusted conf))"
    using assms(2) encoded_address [OF assms(1)]
    by (simp add: configuration_of_node_def node_holds_def act configuration_new_def)
  have "conf_ok conf" using assms by (auto simp: yaml_ok_def node_holds_def conf_ok_def)
  moreover have "as_address y n = Inl Std_runtime_error" if "y_is_scalar y n = Inr False" for n
    using assms(1) that by (simp add: as_address_def address_decode_def yaml_ok_def)
  ultimately show ?thesis
    using read encoded_address [OF assms(1)] by (simp add: configuration_of_node_def act)
qed

text \<open>A small document model: scalars and mappings, a missing key gives the empty node.\<close>

datatype document = Empty | Scalar bytes | Entries "(bytes \<times> document) list"

fun doc_string :: "document \<Rightarrow> err + bytes" where
  "doc_string (Scalar s) = Inr s"
| "doc_string _ = Inl Std_runtime_error"

definition doc_number :: "document \<Rightarrow> err + 'a::len word" where
  "doc_number d = (case doc_string d of
     Inl e \<Rightarrow> Inl e | Inr s \<Rightarrow> (case stoul s of Inl e \<Rightarrow> Inl Std_runtime_error | Inr v \<Rightarrow> Inr (word_of_int v)))"

fun doc_table :: "document \<Rightarrow> err + (bytes, bytes) std_map" where
  "doc_table (Entries []) = Inr []"
| "doc_table (Entries ((k, d) # es)) = (case doc_string d of
     Inl e \<Rightarrow> Inl e
   | Inr s \<Rightarrow> (case doc_table (Entries es) of Inl e \<Rightarrow> Inl e | Inr m \<Rightarrow> Inr (map_assign k s m)))"
| "doc_table _ = Inl Std_runtime_error"

fun doc_child :: "document \<Rightarrow> bytes \<Rightarrow> document" where
  "doc_child (Entries es) k = (case map_of es k of None \<Rightarrow> Empty | Some d \<Rightarrow> d)"
| "doc_child _ k = Empty"

fun doc_is_scalar :: "document \<Rightarrow> bool" where
  "doc_is_scalar (Scalar s) = True"
| "doc_is_scalar _ = False"

definition sample_yaml :: "document yaml" where
  "sample_yaml = \<lparr>y_child = doc_child,
     y_is_scalar = (\<lambda>d. if d = Empty then Inl Std_runtime_error else Inr (doc_is_scalar d)),
     y_string = doc_string, y_u16 = doc_number, y_u32 = doc_number, y_table = doc_table, y_scalar = Scalar,
     y_as = (\<lambda>decode d. case decode d of
       Inl e \<Rightarrow> Inl e | Inr None \<Rightarrow> Inl Std_runtime_error | Inr (Some a) \<Rightarrow> Inr a)\<rparr>"

lemma doc_table_sorted: "doc_table d = Inr m \<Longrightarrow> sorted_keys m"
  by (induction d arbitrary: m rule: doc_table.induct)
    (auto split: sum.splits simp: smap.ok_assign)

lemma sample_yaml_ok: "yaml_ok sample_yaml"
  by (simp add: yaml_ok_def sample_yaml_def doc_table_sorted)

definition sample_document :: document where
  "sample_document = Entries [(str ''server'', Scalar (str ''10.0.0.1:5'')), (str ''id'', Scalar [1]),
     (str ''private_key'', Scalar [2]), (str ''public_key'', Scalar [3]), (str ''port'', Scalar (str ''7'')),
     (str ''timeout'', Scalar (str ''8'')), (str ''max_retries'', Scalar (str ''9'')),
     (str ''trusted_peers'', Entries [([5], Scalar [6])])]"

lemma settings_file_roundtrip_witness:
  "configuration_of_node sample_yaml sample_document
     (configuration_new (mk_address [] 0) [] [] [] 0 0 0 []) =
   (Inr (), configuration_new (mk_address (str ''10.0.0.1'') 5) [1] [2] [3] 7 8 9 [([5], [6])])"
proof -
  let ?conf = "configuration_new (mk_address (str ''10.0.0.1'') 5) [1] [2] [3] 7 8 9 [([5], [6])]"
  have address: "address_to_string (mk_address (str ''10.0.0.1'') 5) = str ''10.0.0.1:5''"
    by (simp add: address_to_string_def mk_address_def decimal_small digit_def str_def)
  have "doc_child sample_document (str ''server'') = Scalar (str ''10.0.0.1:5'')"
    "doc_child sample_document (str ''id'') = Scalar [1]"
    "doc_child sample_document (str ''private_key'') = Scalar [2]"
    "doc_child sample_document (str ''public_key'') = Scalar [3]"
    "doc_child sample_document (str ''port'') = Scalar (str ''7'')"
    "doc_child sample_document (str ''timeout'') = Scalar (str ''8'')"
    "doc_child sample_document (str ''max_retries'') = Scalar (str ''9'')"
    "doc_child sample_document (str ''trusted_peers'') = Entries [([5], Scalar [6])]"
    "stoul (str ''7'') = Inr 7" "stoul (str ''8'') = Inr 8" "stoul (str ''9'') = Inr 9"
    by code_simp+
  with address have "node_holds sample_yaml sample_document ?conf"
    by (simp add: node_holds_def address_encode_def sample_yaml_def configuration_new_def doc_number_def)
  then show ?thesis
    using settings_file_roundtrip [OF sample_yaml_ok, of sample_document ?conf] by (simp add: configuration_new_def)
qed

end
