(* ===== verification/Dh.thy ===== *)
theory Dh
  imports Encrypt
begin

text \<open>
  \<^verbatim>\<open>client/sml/dh_key_agreement.h\<close> and \<^verbatim>\<open>dh_key_agreement.cpp\<close>: the key material of one
  peer and the unified Diffie-Hellman agreement (\<^verbatim>\<open>DH2\<close>) over it. The arithmetic is
  Crypto++'s, a parameter (\<open>crypto\<close>); a null \<^verbatim>\<open>unique_ptr\<close> is \<open>None\<close>.
\<close>

definition ref_p :: int where
  "ref_p = 0xB10B8F96A080E01DDE92DE5EAE5D54EC52C99FBCFB06A3C69A6A9DCA52D23B616073E28675A23D189838EF1E2EE652C013ECB4AEA906112324975C3CD49B83BFACCBDD7D90C4BD7098488E9C219A73724EFFD6FAE5644738FAA31A4FF55BCCC0A151AF5F0DC8B4BD45BF37DF365C1A65E68CFDA76D4DA708DF1FB2BC2E4A4371"

definition ref_g :: int where
  "ref_g = 0xA4D1CBD5C3FD34126765A442EFB99905F8104DD258AC507FD6406CFF14266D31266FEA1E5C41564B777E690F5504F213160217B4B01B886A5E91547F9E2749F4D7FBD7D3B9A92EE1909D0D2263F80A76A6A24C087A091F531DBF0A0169B6A28AD662A4D18E73AFA32D779D5918D08BC8858F4DCEF97C2A24855E6EEB22B3B2E5"

definition ref_q :: int where
  "ref_q = 0xF518AA8781A8DF278ABA4E7D64B7CB9D49462353"

record dh_key_agreement =
  dh_spriv :: "bytes option"
  dh_spub :: "bytes option"
  dh_epriv :: "bytes option"
  dh_epub :: "bytes option"
  dh_peer_spub :: "bytes option"
  dh_peer_epub :: "bytes option"
  dh_shared :: "bytes option"

definition hex_str_to_bytes :: "crypto \<Rightarrow> bytes \<Rightarrow> bytes" where
  "hex_str_to_bytes c hex = integer_bytes c hex"

definition dh_blank :: dh_key_agreement where
  "dh_blank = \<lparr>dh_spriv = None, dh_spub = None, dh_epriv = None, dh_epub = None,
     dh_peer_spub = None, dh_peer_epub = None, dh_shared = None\<rparr>"

text \<open>The constructor checks the group before it can be used.\<close>

definition dh_new :: "crypto \<Rightarrow> err + dh_key_agreement" where
  "dh_new c =
     (if \<not> group_valid c then Inl Std_runtime_error
      else if \<not> subgroup_order_ok c then Inl Std_runtime_error
      else Inr dh_blank)"

definition generate_static_key_pairs :: "bytes \<times> bytes \<Rightarrow> dh_key_agreement \<Rightarrow> dh_key_agreement" where
  "generate_static_key_pairs pair dh = dh\<lparr>dh_spriv := Some (fst pair), dh_spub := Some (snd pair)\<rparr>"

definition generate_ephemeral_key_pairs :: "crypto \<Rightarrow> nat \<Rightarrow> dh_key_agreement \<Rightarrow> dh_key_agreement" where
  "generate_ephemeral_key_pairs c rnd dh =
     dh\<lparr>dh_epriv := Some (fst (ephemeral_pair c rnd)), dh_epub := Some (snd (ephemeral_pair c rnd))\<rparr>"

definition set_static_key_pairs :: "bytes \<Rightarrow> bytes \<Rightarrow> dh_key_agreement \<Rightarrow> dh_key_agreement" where
  "set_static_key_pairs priv pub dh = dh\<lparr>dh_spriv := Some priv, dh_spub := Some pub\<rparr>"

definition set_ephemeral_key_pairs :: "bytes \<Rightarrow> bytes \<Rightarrow> dh_key_agreement \<Rightarrow> dh_key_agreement" where
  "set_ephemeral_key_pairs priv pub dh = dh\<lparr>dh_epriv := Some priv, dh_epub := Some pub\<rparr>"

definition set_peer_pub_key_pairs :: "bytes \<Rightarrow> bytes \<Rightarrow> dh_key_agreement \<Rightarrow> dh_key_agreement" where
  "set_peer_pub_key_pairs spub epub dh = dh\<lparr>dh_peer_spub := Some spub, dh_peer_epub := Some epub\<rparr>"

text \<open>
  \<^verbatim>\<open>Agree\<close> takes the own private and the peer's public keys. The freshly allocated block
  for the result is indeterminate when the agreement fails; it reads as empty here.
\<close>

definition generate_shared_key :: "crypto \<Rightarrow> (dh_key_agreement, unit) action" where
  "generate_shared_key c = (\<lambda>dh.
     let dh = dh\<lparr>dh_shared := Some []\<rparr> in
     case (dh_spriv dh, dh_epriv dh, dh_peer_spub dh, dh_peer_epub dh) of
       (Some spriv, Some epriv, Some pspub, Some pepub) \<Rightarrow>
         (case dh2_agree c spriv epriv pspub pepub of
            None \<Rightarrow> (Inl Std_runtime_error, dh)
          | Some k \<Rightarrow> (Inr (), dh\<lparr>dh_shared := Some k\<rparr>))
     | _ \<Rightarrow> (Inl Null_deref, dh))"

definition block_of :: "bytes option \<Rightarrow> err + bytes" where
  "block_of p = (case p of None \<Rightarrow> Inl Null_deref | Some b \<Rightarrow> Inr b)"

definition ephemeral_priv_key :: "dh_key_agreement \<Rightarrow> err + bytes" where
  "ephemeral_priv_key dh = block_of (dh_epriv dh)"

definition ephemeral_pub_key :: "dh_key_agreement \<Rightarrow> err + bytes" where
  "ephemeral_pub_key dh = block_of (dh_epub dh)"

definition shared_key :: "dh_key_agreement \<Rightarrow> err + bytes" where
  "shared_key dh = block_of (dh_shared dh)"

end
