(* ===== verification/Stream.thy ===== *)
theory Stream
  imports Datagram Messages Std_Map
begin

text \<open>
  \<^verbatim>\<open>client/sml/stream.h\<close> and \<^verbatim>\<open>stream.cpp\<close>: a data stream over datagrams, sent one
  segment at a time with a retransmission timer and reassembled by offset. What an operation
  asks of its peer and of the output ring is returned as a list of effects, in order.
\<close>

section \<open>State and operations\<close>

datatype effect =
    Send_datagram datagram   \<comment> \<open>\<open>peer_.send_datagram\<close>\<close>
  | Put message              \<comment> \<open>\<open>output_ring.put\<close>\<close>

type_synonym segment_map = "(u32, datagram) std_map"

record stream =
  st_id :: u32
  st_timer :: bool            \<comment> \<open>the retransmission timer is armed\<close>
  st_send_offset :: u32
  st_recv_offset :: u32
  st_send_length :: u32
  st_recv_length :: u32
  st_send_queue :: segment_map
  st_recv_queue :: segment_map

definition segment_max :: nat where
  "segment_max = 1000"

definition stream_new :: "u32 \<Rightarrow> stream" where
  "stream_new i = \<lparr>st_id = i, st_timer = False, st_send_offset = 0, st_recv_offset = 0,
     st_send_length = 0, st_recv_length = 0, st_send_queue = [], st_recv_queue = []\<rparr>"

text \<open>The loop that erases the segments below the acknowledged offset.\<close>

fun erase_sent :: "u32 \<Rightarrow> segment_map \<Rightarrow> segment_map" where
  "erase_sent off [] = []"
| "erase_sent off ((k, d) # q) = (if k < off then erase_sent off q else (k, d) # q)"

text \<open>Sending a copy leaves the queued datagram as it was.\<close>

definition send_one_datagram :: "stream \<Rightarrow> stream \<times> effect list" where
  "send_one_datagram s =
     (let s = s\<lparr>st_timer := False,
                st_send_queue := erase_sent (st_send_offset s) (st_send_queue s)\<rparr>
      in case st_send_queue s of
           [] \<Rightarrow> (s, [])
         | (k, to_send) # q \<Rightarrow> (s\<lparr>st_timer := True\<rparr>, [Send_datagram to_send]))"

definition retransmit :: "bool \<Rightarrow> stream \<Rightarrow> stream \<times> effect list" where
  "retransmit aborted s = (if \<not> aborted then send_one_datagram s else (s, []))"

definition send_ack :: "stream \<Rightarrow> effect list" where
  "send_ack s = [Send_datagram (datagram_new\<lparr>dg_type := Data_ack, dg_id := st_id s,
     dg_offset := st_recv_offset s, dg_length := 0\<rparr>)]"

text \<open>
  The drain loop of \<^verbatim>\<open>feed\<close>: while the first segment starts at the receive offset it is
  delivered, the offset advanced by its length field and the segment erased.
\<close>

fun drain :: "address \<Rightarrow> u32 \<Rightarrow> segment_map \<Rightarrow> u32 \<Rightarrow> segment_map \<times> u32 \<times> effect list" where
  "drain addr i [] off = ([], off, [])"
| "drain addr i ((k, d) # q) off =
     (if k = off
      then (case drain addr i q (off + dg_length d) of
              (q', off', es) \<Rightarrow> (q', off', Put (Recv_data addr i (dg_payload d)) # es))
      else ((k, d) # q, off, []))"

definition drain_received :: "address \<Rightarrow> stream \<Rightarrow> stream \<times> effect list" where
  "drain_received addr s =
     (case st_recv_queue s of
        [] \<Rightarrow> (s, [])
      | (k, d) # q \<Rightarrow>
          if k = st_recv_offset s
          then (case drain addr (st_id s) (st_recv_queue s) (st_recv_offset s) of
                  (q', off', es) \<Rightarrow>
                    (let s = s\<lparr>st_recv_queue := q', st_recv_offset := off'\<rparr> in (s, es @ send_ack s)))
          else (s, []))"

definition stream_feed :: "address \<Rightarrow> datagram \<Rightarrow> stream \<Rightarrow> stream \<times> effect list" where
  "stream_feed addr d s =
     (if dg_type d = Abort \<or> dg_type d = Data then
        drain_received addr (s\<lparr>st_recv_queue := map_assign (dg_offset d) d (st_recv_queue s)\<rparr>)
      else if dg_type d = Data_ack then
        (case send_one_datagram (s\<lparr>st_send_offset := dg_offset d\<rparr>) of
           (s1, es1) \<Rightarrow> (case drain_received addr s1 of (s2, es2) \<Rightarrow> (s2, es1 @ es2)))
      else (s, []))"

text \<open>The segmentation loop of \<^verbatim>\<open>send\<close>; \<open>base\<close> is \<^verbatim>\<open>current_max_offset\<close>.\<close>

definition segment :: "u32 \<Rightarrow> nat \<Rightarrow> bytes \<Rightarrow> nat \<Rightarrow> datagram" where
  "segment i base data off =
     (let left_length = length data - off;
          seg_length = (if left_length > segment_max then segment_max else left_length)
      in datagram_new\<lparr>dg_type := Data, dg_id := i, dg_length := word_of_nat seg_length,
           dg_offset := word_of_nat (off + base), dg_payload := take seg_length (drop off data)\<rparr>)"

function enqueue_segments :: "u32 \<Rightarrow> nat \<Rightarrow> bytes \<Rightarrow> nat \<Rightarrow> segment_map \<Rightarrow> segment_map" where
  "enqueue_segments i base data off q =
     (if off < length data then
        (let d = segment i base data off;
             left_length = length data - off;
             seg_length = (if left_length > segment_max then segment_max else left_length)
         in enqueue_segments i base data (off + seg_length) (map_insert (dg_offset d) d q))
      else q)"
  by pat_completeness auto
termination
  by (relation "measure (\<lambda>(i, base, data, off, q). length data - off)")
    (auto simp: segment_max_def)

declare enqueue_segments.simps [simp del]

definition current_max_offset :: "stream \<Rightarrow> nat" where
  "current_max_offset s =
     (if st_send_queue s \<noteq> [] then unat (fst (last (st_send_queue s))) else unat (st_send_offset s))"

definition stream_send :: "bytes \<Rightarrow> stream \<Rightarrow> stream \<times> effect list" where
  "stream_send data s =
     send_one_datagram
       (s\<lparr>st_send_queue :=
            enqueue_segments (st_id s) (current_max_offset s) data 0 (st_send_queue s)\<rparr>)"

text \<open>The timer fires: it is no longer armed when its handler runs.\<close>

definition stream_timer_fires :: "stream \<Rightarrow> stream \<times> effect list" where
  "stream_timer_fires s =
     (if st_timer s then retransmit False (s\<lparr>st_timer := False\<rparr>) else (s, []))"

text \<open>
  The timer had expired and its handler was already waiting to run when the timer was cancelled
  or armed again: cancelling no longer reaches the handler, which runs without an error code.
\<close>

definition stream_late_timer :: "stream \<Rightarrow> stream \<times> effect list" where
  "stream_late_timer s = retransmit False s"

section \<open>Basic facts\<close>

lemma stream_new_fields [simp]:
  "st_id (stream_new i) = i" "st_timer (stream_new i) = False"
  "st_send_offset (stream_new i) = 0" "st_recv_offset (stream_new i) = 0"
  "st_send_queue (stream_new i) = []" "st_recv_queue (stream_new i) = []"
  by (simp_all add: stream_new_def)

lemma set_erase_sent: "set (erase_sent off q) \<subseteq> set q"
  by (induction off q rule: erase_sent.induct) auto

lemma sorted_erase_sent: "sorted_keys q \<Longrightarrow> sorted_keys (erase_sent off q)"
  by (induction off q rule: erase_sent.induct) auto

lemma erase_sent_none: "(\<forall>e \<in> set q. off \<le> fst e) \<Longrightarrow> erase_sent off q = q"
  by (induction off q rule: erase_sent.induct) auto

lemma erase_sent_all: "(\<forall>e \<in> set q. fst e < off) \<Longrightarrow> erase_sent off q = []"
  by (induction off q rule: erase_sent.induct) auto

lemma send_one_fields [simp]:
  "st_id (fst (send_one_datagram s)) = st_id s"
  "st_send_offset (fst (send_one_datagram s)) = st_send_offset s"
  "st_recv_offset (fst (send_one_datagram s)) = st_recv_offset s"
  "st_recv_queue (fst (send_one_datagram s)) = st_recv_queue s"
  "st_send_queue (fst (send_one_datagram s)) = erase_sent (st_send_offset s) (st_send_queue s)"
  by (auto simp: send_one_datagram_def Let_def split: list.splits)

lemma send_one_effects:
  "snd (send_one_datagram s) = (case erase_sent (st_send_offset s) (st_send_queue s) of
     [] \<Rightarrow> [] | (k, d) # q \<Rightarrow> [Send_datagram d])"
  by (auto simp: send_one_datagram_def Let_def split: list.splits)

lemma send_one_timer:
  "st_timer (fst (send_one_datagram s)) \<longleftrightarrow> erase_sent (st_send_offset s) (st_send_queue s) \<noteq> []"
  by (auto simp: send_one_datagram_def Let_def split: list.splits)

lemma drain_received_fields [simp]:
  "st_id (fst (drain_received addr s)) = st_id s"
  "st_send_offset (fst (drain_received addr s)) = st_send_offset s"
  "st_send_queue (fst (drain_received addr s)) = st_send_queue s"
  "st_timer (fst (drain_received addr s)) = st_timer s"
  by (auto simp: drain_received_def Let_def split: list.splits prod.splits)

text \<open>The drain loop consumes a prefix of the queue.\<close>

lemma drain_suffix: "drain addr i q off = (q', off', es) \<Longrightarrow> \<exists>p. q = p @ q'"
  by (induction addr i q off arbitrary: off' es rule: drain.induct)
    (fastforce split: if_splits prod.splits)+

lemma sorted_keys_append: "sorted_keys (p @ q) \<Longrightarrow> sorted_keys q"
  by (simp add: sorted_keys_def sorted_wrt_append)

definition short_segments :: "segment_map \<Rightarrow> bool" where
  "short_segments q \<longleftrightarrow> (\<forall>e \<in> set q. length (dg_payload (snd e)) \<le> segment_max)"

lemma short_segments_simps [simp]:
  "short_segments []"
  "short_segments ((k, d) # q) \<longleftrightarrow> length (dg_payload d) \<le> segment_max \<and> short_segments q"
  by (auto simp: short_segments_def)

lemma short_segments_erase: "short_segments q \<Longrightarrow> short_segments (erase_sent off q)"
  using set_erase_sent [of off q] by (auto simp: short_segments_def)

definition stream_ok :: "stream \<Rightarrow> bool" where
  "stream_ok s \<longleftrightarrow> sorted_keys (st_send_queue s) \<and> sorted_keys (st_recv_queue s)
     \<and> (st_timer s \<longrightarrow> st_send_queue s \<noteq> [])
     \<and> (short_segments (st_send_queue s))"

lemma stream_ok_new: "stream_ok (stream_new i)"
  by (simp add: stream_ok_def stream_new_def)

lemma stream_ok_send_one:
  assumes "sorted_keys (st_send_queue s)" and "sorted_keys (st_recv_queue s)"
    and "short_segments (st_send_queue s)"
  shows "stream_ok (fst (send_one_datagram s))"
  using assms by (simp add: stream_ok_def sorted_erase_sent send_one_timer short_segments_erase)

lemma stream_ok_drain: "stream_ok s \<Longrightarrow> stream_ok (fst (drain_received addr s))"
  by (auto simp: stream_ok_def drain_received_def Let_def split: list.splits prod.splits
      dest!: drain_suffix dest: sorted_keys_append)

lemma stream_feed_data:
  "dg_type d = Data \<or> dg_type d = Abort \<Longrightarrow> stream_feed addr d s =
     drain_received addr (s\<lparr>st_recv_queue := map_assign (dg_offset d) d (st_recv_queue s)\<rparr>)"
  by (auto simp: stream_feed_def)

lemma stream_feed_ack:
  "dg_type d = Data_ack \<Longrightarrow> stream_feed addr d s =
     (let r = send_one_datagram (s\<lparr>st_send_offset := dg_offset d\<rparr>); r' = drain_received addr (fst r)
      in (fst r', snd r @ snd r'))"
  by (simp add: stream_feed_def Let_def split: prod.splits)

lemma stream_feed_other:
  "dg_type d \<notin> {Data, Abort, Data_ack} \<Longrightarrow> stream_feed addr d s = (s, [])"
  by (simp add: stream_feed_def)

lemma stream_ok_feed:
  assumes "stream_ok s"
  shows "stream_ok (fst (stream_feed addr d s))"
proof -
  consider "dg_type d = Data \<or> dg_type d = Abort" | "dg_type d = Data_ack"
    | "dg_type d \<notin> {Data, Abort, Data_ack}" by blast
  then show ?thesis
  proof cases
    case 1
    have "stream_ok (s\<lparr>st_recv_queue := map_assign (dg_offset d) d (st_recv_queue s)\<rparr>)"
      using assms by (simp add: stream_ok_def smap.ok_assign)
    then show ?thesis using 1 by (simp add: stream_feed_data stream_ok_drain)
  next
    case 2
    have "stream_ok (fst (send_one_datagram (s\<lparr>st_send_offset := dg_offset d\<rparr>)))"
      using assms by (intro stream_ok_send_one) (simp_all add: stream_ok_def)
    then show ?thesis using 2 by (simp add: stream_feed_ack Let_def stream_ok_drain)
  next
    case 3
    then show ?thesis using assms by (simp add: stream_feed_other)
  qed
qed

lemma sorted_enqueue: "sorted_keys q \<Longrightarrow> sorted_keys (enqueue_segments i base data off q)"
proof (induction i base data off q rule: enqueue_segments.induct)
  case (1 i base data off q)
  then show ?case
    by (subst enqueue_segments.simps) (simp add: Let_def smap.ok_insert)
qed

lemma map_insert_subset: "set (map_insert k v m) \<subseteq> insert (k, v) (set m)"
  by (induction k v m rule: map_insert.induct) auto

lemma enqueue_segments_short:
  "short_segments q \<Longrightarrow>
   short_segments (enqueue_segments i base data off q)"
proof (induction i base data off q rule: enqueue_segments.induct)
  case (1 i base data off q)
  let ?d = "segment i base data off"
  have "length (dg_payload ?d) \<le> segment_max" by (simp add: segment_def Let_def)
  then have "short_segments (map_insert (dg_offset ?d) ?d q)"
    using "1.prems" map_insert_subset [of "dg_offset ?d" ?d q] by (auto simp: short_segments_def)
  then show ?case
    using 1 by (subst enqueue_segments.simps) (simp add: Let_def)
qed

lemma stream_ok_send: "stream_ok s \<Longrightarrow> stream_ok (fst (stream_send data s))"
  unfolding stream_send_def
  by (rule stream_ok_send_one) (simp_all add: stream_ok_def sorted_enqueue enqueue_segments_short)

lemma stream_ok_timer: "stream_ok s \<Longrightarrow> stream_ok (fst (stream_timer_fires s))"
  using stream_ok_send_one [of "s\<lparr>st_timer := False\<rparr>"]
  by (simp add: stream_timer_fires_def retransmit_def stream_ok_def)

lemma stream_ok_late_timer: "stream_ok s \<Longrightarrow> stream_ok (fst (stream_late_timer s))"
  using stream_ok_send_one [of s] by (simp add: stream_late_timer_def retransmit_def stream_ok_def)

text \<open>What an operation transmits is queued or an acknowledgement.\<close>

definition small_sends :: "effect list \<Rightarrow> bool" where
  "small_sends es \<longleftrightarrow> (\<forall>d. Send_datagram d \<in> set es \<longrightarrow> length (dg_payload d) \<le> segment_max)"

lemma small_sends_Nil [simp]: "small_sends []"
  by (simp add: small_sends_def)

lemma small_sends_append [simp]: "small_sends (es @ fs) \<longleftrightarrow> small_sends es \<and> small_sends fs"
  by (auto simp: small_sends_def)

lemma small_sends_one:
  assumes "short_segments (st_send_queue s)"
  shows "small_sends (snd (send_one_datagram s))"
  using short_segments_erase [OF assms, of "st_send_offset s"]
  by (cases "erase_sent (st_send_offset s) (st_send_queue s)")
    (auto simp: small_sends_def send_one_effects)

lemma small_sends_puts: "drain addr i q off = (q', off', es) \<Longrightarrow> small_sends es"
  by (induction addr i q off arbitrary: off' es rule: drain.induct)
    (fastforce simp: small_sends_def split: if_splits prod.splits)+

lemma small_sends_drain: "small_sends (snd (drain_received addr s))"
  by (auto simp: drain_received_def Let_def send_ack_def datagram_new_def small_sends_puts
      split: list.splits prod.splits)
    (auto simp: small_sends_def)

lemma small_sends_feed: "stream_ok s \<Longrightarrow> small_sends (snd (stream_feed addr d s))"
  by (cases "dg_type d = Data \<or> dg_type d = Abort"; cases "dg_type d = Data_ack")
    (auto simp: stream_feed_data stream_feed_ack stream_feed_other Let_def small_sends_drain
      stream_ok_def intro!: small_sends_one)

lemma small_sends_send: "stream_ok s \<Longrightarrow> small_sends (snd (stream_send data s))"
  unfolding stream_send_def
  by (rule small_sends_one) (simp add: stream_ok_def enqueue_segments_short)

lemma small_sends_timer: "stream_ok s \<Longrightarrow> small_sends (snd (stream_timer_fires s))"
  unfolding stream_timer_fires_def retransmit_def
  by (auto intro!: small_sends_one simp: stream_ok_def)

lemma small_sends_late_timer: "stream_ok s \<Longrightarrow> small_sends (snd (stream_late_timer s))"
  unfolding stream_late_timer_def retransmit_def
  by (auto intro!: small_sends_one simp: stream_ok_def)

end
