(* ===== verification/Peer.thy ===== *)
theory Peer
  imports Stream Encrypt Dh Configuration
begin

text \<open>
  \<^verbatim>\<open>client/sml/peer.h\<close> and \<^verbatim>\<open>peer.cpp\<close>: one remote peer. The handler bound to
  \<^verbatim>\<open>datagram_handler_\<close> is a value of \<open>handler\<close>, the retransmission timer the datagram it
  would send again. An operation is an action over the peer, the counter of random draws and
  the outputs so far: datagrams handed to the socket, messages put into the output ring, and
  the request to be deleted from the UDP layer.
\<close>

section \<open>State\<close>

text \<open>What a peer reads from its surroundings: Crypto++, the configuration, and whether asio
  can parse an address.\<close>

record setting =
  se_crypto :: crypto
  se_conf :: configuration
  se_valid_ip :: "bytes \<Rightarrow> bool"

datatype handler =
    Hello_handler
  | Public_key_exchange_handler
  | Echo_handler
  | Established_handler

record peer =
  p_state :: u32                          \<comment> \<open>\<open>current_state_\<close>\<close>
  p_handler :: handler                    \<comment> \<open>\<open>datagram_handler_\<close>\<close>
  p_timer :: "datagram option"            \<comment> \<open>\<open>timer_\<close>\<close>
  p_addr :: address
  p_dh :: dh_key_agreement
  p_id :: bytes
  p_peer_spub :: bytes
  p_sent_echo :: "datagram option"
  p_to_send :: "datagram option"
  p_key :: "bytes option"
  p_encrypt :: "encrypt_layer option"
  p_streams :: "(u32, stream) std_map"    \<comment> \<open>\<open>stream_map_\<close>\<close>
  p_send_msg :: "message option"
  p_recv_msg :: "message option"

definition initial :: u32 where "initial = 0"
definition sent_hello :: u32 where "sent_hello = push_bit 0 1"
definition received_hello_ack :: u32 where "received_hello_ack = push_bit 1 1"
definition received_hello :: u32 where "received_hello = push_bit 2 1"
definition hello_complete :: u32 where
  "hello_complete = sent_hello OR received_hello_ack OR received_hello"
definition sent_public_key :: u32 where "sent_public_key = push_bit 3 1"
definition received_public_key_ack :: u32 where "received_public_key_ack = push_bit 4 1"
definition received_public_key :: u32 where "received_public_key = push_bit 5 1"
definition public_key_exchanged :: u32 where
  "public_key_exchanged = sent_public_key OR received_public_key OR received_public_key_ack"
definition shared_key_agreement :: u32 where "shared_key_agreement = push_bit 6 1"
definition established :: u32 where
  "established = hello_complete OR public_key_exchanged OR shared_key_agreement"
definition wait_for_echo :: u32 where "wait_for_echo = push_bit 7 1"

lemmas state_bits = initial_def sent_hello_def received_hello_ack_def received_hello_def
  hello_complete_def sent_public_key_def received_public_key_ack_def received_public_key_def
  public_key_exchanged_def shared_key_agreement_def established_def wait_for_echo_def

definition has_bits :: "u32 \<Rightarrow> peer \<Rightarrow> bool" where
  "has_bits b p \<longleftrightarrow> p_state p AND b = b"

datatype io =
    Udp_send bytes address
  | Output message
  | Delete_peer address

record pctx =
  pc_peer :: peer
  pc_rnd :: nat
  pc_io :: "io list"

type_synonym 'a peer_action = "(pctx, 'a) action"

definition pget :: "(peer \<Rightarrow> 'a) \<Rightarrow> 'a peer_action" where
  "pget f = gets (\<lambda>x. f (pc_peer x))"

definition pset :: "(peer \<Rightarrow> peer) \<Rightarrow> unit peer_action" where
  "pset f = modify (\<lambda>x. x\<lparr>pc_peer := f (pc_peer x)\<rparr>)"

definition emit :: "io \<Rightarrow> unit peer_action" where
  "emit e = modify (\<lambda>x. x\<lparr>pc_io := pc_io x @ [e]\<rparr>)"

text \<open>Draw from the random pool.\<close>

definition draw :: "nat peer_action" where
  "draw = seq (gets pc_rnd) (\<lambda>n. andthen (modify (\<lambda>x. x\<lparr>pc_rnd := Suc n\<rparr>)) (ret n))"

definition or_state :: "u32 \<Rightarrow> unit peer_action" where
  "or_state b = pset (\<lambda>p. p\<lparr>p_state := p_state p OR b\<rparr>)"

definition set_handler :: "handler \<Rightarrow> unit peer_action" where
  "set_handler h = pset (\<lambda>p. p\<lparr>p_handler := h\<rparr>)"

definition cancel_timer :: "unit peer_action" where
  "cancel_timer = pset (\<lambda>p. p\<lparr>p_timer := None\<rparr>)"

text \<open>Dereferencing a shared pointer.\<close>

definition deref :: "'a option \<Rightarrow> 'a peer_action" where
  "deref v = (case v of None \<Rightarrow> throw Null_deref | Some a \<Rightarrow> ret a)"

definition on_dh :: "(dh_key_agreement, 'a) action \<Rightarrow> 'a peer_action" where
  "on_dh m = (\<lambda>x. case m (p_dh (pc_peer x)) of
     (r, dh) \<Rightarrow> (r, x\<lparr>pc_peer := (pc_peer x)\<lparr>p_dh := dh\<rparr>\<rparr>))"

text \<open>Running the encryption layer, which keeps the last iv.\<close>

definition on_encrypt_layer :: "(encrypt_layer, 'a) action \<Rightarrow> 'a peer_action" where
  "on_encrypt_layer m = (\<lambda>x. case p_encrypt (pc_peer x) of
     None \<Rightarrow> (Inl Null_deref, x)
   | Some el \<Rightarrow> (case m el of (r, el') \<Rightarrow> (r, x\<lparr>pc_peer := (pc_peer x)\<lparr>p_encrypt := Some el'\<rparr>\<rparr>)))"

section \<open>Sending\<close>

definition do_send :: "setting \<Rightarrow> bytes \<Rightarrow> unit peer_action" where
  "do_send se bytes = seq (pget p_addr) (\<lambda>a.
     if se_valid_ip se (ip_addr a) then emit (Udp_send bytes a) else throw Std_runtime_error)"

definition send_raw_datagram :: "setting \<Rightarrow> datagram \<Rightarrow> unit peer_action" where
  "send_raw_datagram se d = seq (lift (datagram_bytes d)) (\<lambda>bytes. do_send se bytes)"

definition send_raw_datagram_with_retransmit :: "setting \<Rightarrow> datagram \<Rightarrow> unit peer_action" where
  "send_raw_datagram_with_retransmit se d =
     andthen cancel_timer
     (andthen (send_raw_datagram se d)
     (pset (\<lambda>p. p\<lparr>p_timer := Some d\<rparr>)))"

definition retransmit_raw_datagram :: "setting \<Rightarrow> datagram \<Rightarrow> bool \<Rightarrow> unit peer_action" where
  "retransmit_raw_datagram se d aborted =
     (if \<not> aborted then send_raw_datagram_with_retransmit se d else ret ())"

definition peer_send_datagram :: "setting \<Rightarrow> datagram \<Rightarrow> unit peer_action" where
  "peer_send_datagram se d =
     seq (pget (has_bits established)) (\<lambda>ready.
     if \<not> ready then ret ()
     else seq draw (\<lambda>n.
       seq (on_encrypt_layer (encrypt_payload (se_crypto se) n d)) (\<lambda>d'.
       seq (lift (datagram_bytes d')) (\<lambda>bytes. do_send se bytes))))"

text \<open>What a stream asks for, in order.\<close>

definition run_effect :: "setting \<Rightarrow> effect \<Rightarrow> unit peer_action" where
  "run_effect se e = (case e of
     Send_datagram d \<Rightarrow> peer_send_datagram se d
   | Put m \<Rightarrow> emit (Output m))"

definition send_ack_raw :: "setting \<Rightarrow> unit peer_action" where
  "send_ack_raw se = send_raw_datagram se (create_ack 0 0)"

section \<open>Handshake\<close>

definition send_hello :: "setting \<Rightarrow> unit peer_action" where
  "send_hello se =
     andthen (send_raw_datagram_with_retransmit se (create_hello (conf_id (se_conf se))))
     (andthen (or_state sent_hello)
     (set_handler Hello_handler))"

definition received_hello_handler :: "setting \<Rightarrow> datagram \<Rightarrow> unit peer_action" where
  "received_hello_handler se d =
     andthen (pset (\<lambda>p. p\<lparr>p_id := dg_payload d\<rparr>))
     (andthen (pset (\<lambda>p. p\<lparr>p_peer_spub :=
         hex_str_to_bytes (se_crypto se) (get_peer_public_key_by_id (se_conf se) (p_id p))\<rparr>))
     (andthen (or_state received_hello)
     (send_ack_raw se)))"

definition received_hello_ack_handler :: "unit peer_action" where
  "received_hello_ack_handler = andthen (or_state received_hello_ack) cancel_timer"

definition send_public_key :: "setting \<Rightarrow> unit peer_action" where
  "send_public_key se =
     seq draw (\<lambda>n.
     andthen (pset (\<lambda>p. p\<lparr>p_dh := generate_ephemeral_key_pairs (se_crypto se) n (p_dh p)\<rparr>))
     (seq (pget p_dh) (\<lambda>dh.
     seq (lift (ephemeral_pub_key dh)) (\<lambda>epub.
     andthen (send_raw_datagram_with_retransmit se (create_public_key epub))
     (or_state sent_public_key)))))"

definition hello_complete_handler :: "setting \<Rightarrow> unit peer_action" where
  "hello_complete_handler se =
     andthen (send_public_key se) (set_handler Public_key_exchange_handler)"

definition received_public_key_handler :: "setting \<Rightarrow> datagram \<Rightarrow> unit peer_action" where
  "received_public_key_handler se d =
     andthen (pset (\<lambda>p. p\<lparr>p_dh := set_peer_pub_key_pairs (p_peer_spub p) (dg_payload d) (p_dh p)\<rparr>))
     (andthen (or_state received_public_key)
     (send_ack_raw se))"

definition received_public_key_ack_handler :: "unit peer_action" where
  "received_public_key_ack_handler = andthen (or_state received_public_key_ack) cancel_timer"

definition peer_generate_shared_key :: "setting \<Rightarrow> unit peer_action" where
  "peer_generate_shared_key se =
     andthen (on_dh (generate_shared_key (se_crypto se)))
     (seq (pget p_dh) (\<lambda>dh.
     seq (lift (shared_key dh)) (\<lambda>k.
     andthen (pset (\<lambda>p. p\<lparr>p_key := Some k\<rparr>))
     (seq draw (\<lambda>n.
     seq (lift (el_new (se_crypto se) n AES_128 (Some k))) (\<lambda>el.
     pset (\<lambda>p. p\<lparr>p_encrypt := Some el\<rparr>)))))))"

definition send_echo :: "setting \<Rightarrow> unit peer_action" where
  "send_echo se =
     andthen (pset (\<lambda>p. p\<lparr>p_sent_echo := Some (create_echo (str ''1234567890''))\<rparr>))
     (seq (pget p_sent_echo) (\<lambda>v.
     seq (deref v) (\<lambda>d.
     andthen (send_raw_datagram_with_retransmit se d)
     (or_state wait_for_echo))))"

definition public_key_exchange_complete_handler :: "setting \<Rightarrow> unit peer_action" where
  "public_key_exchange_complete_handler se =
     andthen (peer_generate_shared_key se)
     (andthen (or_state shared_key_agreement)
     (andthen (send_echo se)
     (set_handler Echo_handler)))"

definition received_echo_handler :: "setting \<Rightarrow> datagram \<Rightarrow> unit peer_action" where
  "received_echo_handler se d = send_raw_datagram se (create_echo_back d)"

definition received_echo_back_handler :: "datagram \<Rightarrow> unit peer_action" where
  "received_echo_back_handler d =
     seq (pget p_state) (\<lambda>st.
     whenever (st AND wait_for_echo \<noteq> 0)
       (seq (pget p_sent_echo) (\<lambda>v. seq (deref v) (\<lambda>e.
        if dg_payload d \<noteq> dg_payload e then ret ()
        else andthen cancel_timer
               (pset (\<lambda>p. p\<lparr>p_state := p_state p AND NOT wait_for_echo\<rparr>))))))"

definition hello_handler :: "setting \<Rightarrow> datagram \<Rightarrow> unit peer_action" where
  "hello_handler se d =
     (if dg_type d = Hello \<or> dg_type d = Ack then
        andthen (if dg_type d = Hello then received_hello_handler se d
                 else received_hello_ack_handler)
        (seq (pget (has_bits hello_complete)) (\<lambda>b. whenever b (hello_complete_handler se)))
      else ret ())"

definition public_key_exchange_handler :: "setting \<Rightarrow> datagram \<Rightarrow> unit peer_action" where
  "public_key_exchange_handler se d =
     andthen (if dg_type d = Public_key then received_public_key_handler se d
              else if dg_type d = Ack then received_public_key_ack_handler
              else if dg_type d = Hello then send_ack_raw se
              else ret ())
     (seq (pget (has_bits public_key_exchanged)) (\<lambda>b.
      whenever b (public_key_exchange_complete_handler se)))"

definition echo_handler :: "setting \<Rightarrow> datagram \<Rightarrow> unit peer_action" where
  "echo_handler se d =
     andthen (if dg_type d = Echo then received_echo_handler se d
              else if dg_type d = Echo_back then received_echo_back_handler d
              else if dg_type d = Public_key then send_ack_raw se
              else ret ())
     (seq (pget p_state) (\<lambda>st.
      whenever (st AND wait_for_echo = 0)
        (andthen (set_handler Established_handler)
        (seq (pget p_id) (\<lambda>i. seq (pget p_addr) (\<lambda>a. emit (Output (New_peer i a))))))))"

definition peer_reset :: "setting \<Rightarrow> unit peer_action" where
  "peer_reset se = pset (\<lambda>p. p\<lparr>
     p_state := initial,
     p_timer := None,
     p_dh := set_static_key_pairs
       (hex_str_to_bytes (se_crypto se) (conf_privkey (se_conf se)))
       (hex_str_to_bytes (se_crypto se) (conf_pubkey (se_conf se))) (p_dh p),
     p_sent_echo := None,
     p_to_send := None,
     p_key := None,
     p_encrypt := None,
     p_streams := [],
     p_send_msg := None,
     p_recv_msg := None\<rparr>)"

section \<open>Streams and dispatch\<close>

text \<open>A new stream, or a null pointer when the id is taken.\<close>

definition peer_add_stream :: "u32 \<Rightarrow> (stream option) peer_action" where
  "peer_add_stream i = seq (pget p_streams) (\<lambda>m.
     case map_of m i of
       Some _ \<Rightarrow> ret None
     | None \<Rightarrow> andthen (pset (\<lambda>p. p\<lparr>p_streams := map_insert i (stream_new i) (p_streams p)\<rparr>))
                 (ret (Some (stream_new i))))"

text \<open>\<^verbatim>\<open>erase\<close> returns how many entries it removed, a \<^verbatim>\<open>size_t\<close>; it is compared below 0.\<close>

definition peer_del_stream :: "u32 \<Rightarrow> unit peer_action" where
  "peer_del_stream i = seq (pget p_streams) (\<lambda>m.
     let count = (if map_of m i = None then 0 else 1 :: nat) in
     andthen (pset (\<lambda>p. p\<lparr>p_streams := map_erase i (p_streams p)\<rparr>))
       (if count < 0 then emit (Output (Error_message (str ''no such stream'' @ [10])))
        else if count > 1 then throw Unknown_error
        else ret ()))"

definition peer_get_stream :: "u32 \<Rightarrow> peer \<Rightarrow> stream option" where
  "peer_get_stream i p = map_of (p_streams p) i"

text \<open>Run an operation of the stream \<open>i\<close> in place, then what it asked for.\<close>

definition on_stream :: "setting \<Rightarrow> u32 \<Rightarrow> (stream \<Rightarrow> stream \<times> effect list) \<Rightarrow> unit peer_action" where
  "on_stream se i f = seq (pget (peer_get_stream i)) (\<lambda>v. seq (deref v) (\<lambda>s.
     case f s of (s', es) \<Rightarrow>
       andthen (pset (\<lambda>p. p\<lparr>p_streams := map_assign i s' (p_streams p)\<rparr>))
         (for_each (run_effect se) es)))"

definition feed_stream :: "setting \<Rightarrow> datagram \<Rightarrow> unit peer_action" where
  "feed_stream se d =
     seq (pget (peer_get_stream (dg_id d))) (\<lambda>found.
     andthen (whenever (found = None)
       (andthen (pset (\<lambda>p. p\<lparr>p_streams := map_insert (dg_id d) (stream_new (dg_id d)) (p_streams p)\<rparr>))
       (seq (pget p_addr) (\<lambda>a. emit (Output (New_stream a (dg_id d)))))))
     (seq (pget p_addr) (\<lambda>a. on_stream se (dg_id d) (stream_feed a d))))"

definition established_handler :: "setting \<Rightarrow> datagram \<Rightarrow> unit peer_action" where
  "established_handler se d =
     seq (pget (has_bits established)) (\<lambda>ready.
     if \<not> ready then throw Unknown_error
     else if dg_type d = Hello then
       andthen (peer_reset se)
       (andthen (pset (\<lambda>p. p\<lparr>p_state := received_hello\<rparr>))
       (andthen (send_hello se)
       (received_hello_handler se d)))
     else if dg_type d = Echo then received_echo_handler se d
     else if dg_type d = Echo_back then received_echo_back_handler d
     else if dg_type d = Abort then seq (pget p_addr) (\<lambda>a. emit (Delete_peer a))
     else seq (on_encrypt_layer (decrypt_payload (se_crypto se) d)) (\<lambda>d'. feed_stream se d'))"

definition run_handler :: "setting \<Rightarrow> datagram \<Rightarrow> unit peer_action" where
  "run_handler se d = seq (pget p_handler) (\<lambda>h. case h of
     Hello_handler \<Rightarrow> hello_handler se d
   | Public_key_exchange_handler \<Rightarrow> public_key_exchange_handler se d
   | Echo_handler \<Rightarrow> echo_handler se d
   | Established_handler \<Rightarrow> established_handler se d)"

definition peer_feed :: "setting \<Rightarrow> bytes \<Rightarrow> unit peer_action" where
  "peer_feed se msg = seq (lift (datagram_of_bytes msg)) (\<lambda>d. run_handler se d)"

section \<open>Timers and construction\<close>

definition peer_timer_fires :: "setting \<Rightarrow> unit peer_action" where
  "peer_timer_fires se = seq (pget p_timer) (\<lambda>t. case t of
     None \<Rightarrow> ret ()
   | Some d \<Rightarrow> andthen cancel_timer (retransmit_raw_datagram se d False))"

text \<open>
  The handler of a timer that was cancelled or armed again after it had expired: it was already
  waiting to run, carries the datagram it was bound to and sees no error code.
\<close>

definition peer_late_timer :: "setting \<Rightarrow> datagram \<Rightarrow> unit peer_action" where
  "peer_late_timer se d = retransmit_raw_datagram se d False"

definition peer_stream_timer_fires :: "setting \<Rightarrow> u32 \<Rightarrow> unit peer_action" where
  "peer_stream_timer_fires se i = on_stream se i stream_timer_fires"

text \<open>The members before the body of the constructor; the handler is empty until the hello is sent.\<close>

definition peer_blank :: "address \<Rightarrow> dh_key_agreement \<Rightarrow> peer" where
  "peer_blank a dh = \<lparr>p_state = initial, p_handler = Hello_handler, p_timer = None, p_addr = a,
     p_dh = dh, p_id = [], p_peer_spub = [], p_sent_echo = None, p_to_send = None, p_key = None,
     p_encrypt = None, p_streams = [], p_send_msg = None, p_recv_msg = None\<rparr>"

definition peer_construct :: "setting \<Rightarrow> unit peer_action" where
  "peer_construct se =
     andthen (pset (\<lambda>p. p\<lparr>p_dh := set_static_key_pairs
       (hex_str_to_bytes (se_crypto se) (conf_privkey (se_conf se)))
       (hex_str_to_bytes (se_crypto se) (conf_pubkey (se_conf se))) (p_dh p)\<rparr>))
     (send_hello se)"

definition peer_new :: "setting \<Rightarrow> address \<Rightarrow> nat \<Rightarrow> (err + peer) \<times> nat \<times> io list" where
  "peer_new se a n =
     (case dh_new (se_crypto se) of
        Inl e \<Rightarrow> (Inl e, n, [])
      | Inr dh \<Rightarrow>
          (case peer_construct se \<lparr>pc_peer = peer_blank a dh, pc_rnd = n, pc_io = []\<rparr> of
             (Inl e, x) \<Rightarrow> (Inl e, pc_rnd x, pc_io x)
           | (Inr _, x) \<Rightarrow> (Inr (pc_peer x), pc_rnd x, pc_io x)))"

end
