(* ===== verification/Peer_Invariant.thy ===== *)
theory Peer_Invariant
  imports Peer
begin

text \<open>
  The invariant of a peer and its preservation by every operation, also when the operation
  throws. It says which bits of the state, which keys and which pointers the bound handler
  relies on, so that no operation dereferences a null pointer or throws \<open>Unknown_error\<close>.
\<close>

section \<open>State bits\<close>

lemma and_eq_iff_bits: "(w :: u32) AND b = b \<longleftrightarrow> (\<forall>n. bit b n \<longrightarrow> bit w n)"
proof
  assume "w AND b = b"
  then show "\<forall>n. bit b n \<longrightarrow> bit w n" by (metis bit_and_iff)
next
  assume "\<forall>n. bit b n \<longrightarrow> bit w n"
  then show "w AND b = b" by (intro bit_word_eqI) (auto simp: bit_and_iff)
qed

lemma bit_flags [simp]:
  "bit initial n \<longleftrightarrow> False"
  "bit sent_hello n \<longleftrightarrow> n = 0"
  "bit received_hello_ack n \<longleftrightarrow> n = 1"
  "bit received_hello n \<longleftrightarrow> n = 2"
  "bit sent_public_key n \<longleftrightarrow> n = 3"
  "bit received_public_key_ack n \<longleftrightarrow> n = 4"
  "bit received_public_key n \<longleftrightarrow> n = 5"
  "bit shared_key_agreement n \<longleftrightarrow> n = 6"
  "bit wait_for_echo n \<longleftrightarrow> n = 7"
  by (auto simp: initial_def sent_hello_def received_hello_ack_def received_hello_def
      sent_public_key_def received_public_key_ack_def received_public_key_def
      shared_key_agreement_def wait_for_echo_def bit_simps simp del: push_bit_of_1)

lemma has_bits_simps [simp]:
  "has_bits hello_complete p \<longleftrightarrow> bit (p_state p) 0 \<and> bit (p_state p) 1 \<and> bit (p_state p) 2"
  "has_bits public_key_exchanged p \<longleftrightarrow> bit (p_state p) 3 \<and> bit (p_state p) 4 \<and> bit (p_state p) 5"
  "has_bits established p \<longleftrightarrow> bit (p_state p) 0 \<and> bit (p_state p) 1 \<and> bit (p_state p) 2
     \<and> bit (p_state p) 3 \<and> bit (p_state p) 4 \<and> bit (p_state p) 5 \<and> bit (p_state p) 6"
  unfolding has_bits_def and_eq_iff_bits established_def hello_complete_def
    public_key_exchanged_def bit_or_iff bit_flags
  by metis+

lemma waiting_iff [simp]: "st AND wait_for_echo = 0 \<longleftrightarrow> \<not> bit st 7"
proof
  assume "st AND wait_for_echo = 0"
  then have "\<not> bit (st AND wait_for_echo) 7" by simp
  then show "\<not> bit st 7" by (simp add: bit_and_iff)
next
  assume "\<not> bit st 7"
  then show "st AND wait_for_echo = 0" by (intro bit_word_eqI) (auto simp: bit_and_iff)
qed

section \<open>Evaluation of the peer's primitives\<close>

lemma wp_peer [wps]:
  "wp (pget f) Q E x \<longleftrightarrow> Q (f (pc_peer x)) x"
  "wp (pset g) Q' E x \<longleftrightarrow> Q' () (x\<lparr>pc_peer := g (pc_peer x)\<rparr>)"
  "wp (emit e) Q' E x \<longleftrightarrow> Q' () (x\<lparr>pc_io := pc_io x @ [e]\<rparr>)"
  "wp draw R E x \<longleftrightarrow> R (pc_rnd x) (x\<lparr>pc_rnd := Suc (pc_rnd x)\<rparr>)"
  "wp (deref v) Q E x \<longleftrightarrow> (case v of None \<Rightarrow> E Null_deref x | Some a \<Rightarrow> Q a x)"
  by (auto simp: pget_def pset_def emit_def draw_def deref_def wps split: option.splits)

lemma wp_basic [wps]:
  "wp (or_state b) Q E x \<longleftrightarrow>
     Q () (x\<lparr>pc_peer := (pc_peer x)\<lparr>p_state := p_state (pc_peer x) OR b\<rparr>\<rparr>)"
  "wp (set_handler h) Q E x \<longleftrightarrow> Q () (x\<lparr>pc_peer := (pc_peer x)\<lparr>p_handler := h\<rparr>\<rparr>)"
  "wp cancel_timer Q E x \<longleftrightarrow> Q () (x\<lparr>pc_peer := (pc_peer x)\<lparr>p_timer := None\<rparr>\<rparr>)"
  by (simp_all add: or_state_def set_handler_def cancel_timer_def wps)

lemma wp_if [wps]: "wp (if b then m else n) Q E x \<longleftrightarrow> (if b then wp m Q E x else wp n Q E x)"
  by simp

definition small :: "datagram \<Rightarrow> bool" where
  "small d \<longleftrightarrow> length (dg_payload d) \<le> 2 ^ 30 - 13"

definition reachable :: "setting \<Rightarrow> peer \<Rightarrow> bool" where
  "reachable se p \<longleftrightarrow> se_valid_ip se (ip_addr (p_addr p))"

lemma wp_do_send:
  "reachable se (pc_peer x) \<Longrightarrow> wp (do_send se bytes) Q E x \<longleftrightarrow>
     Q () (x\<lparr>pc_io := pc_io x @ [Udp_send bytes (p_addr (pc_peer x))]\<rparr>)"
  by (simp add: do_send_def wps reachable_def)

lemma wp_send_raw:
  "reachable se (pc_peer x) \<Longrightarrow> small d \<Longrightarrow> wp (send_raw_datagram se d) Q E x \<longleftrightarrow>
     Q () (x\<lparr>pc_io := pc_io x @ [Udp_send (datagram_wire d) (p_addr (pc_peer x))]\<rparr>)"
  by (simp add: send_raw_datagram_def small_def wps datagram_write_ok wp_do_send)

lemma reachable_update [simp]:
  "reachable se (p\<lparr>p_timer := t\<rparr>) = reachable se p"
  "reachable se (p\<lparr>p_state := st\<rparr>) = reachable se p"
  "reachable se (p\<lparr>p_handler := h\<rparr>) = reachable se p"
  "reachable se (p\<lparr>p_dh := dh\<rparr>) = reachable se p"
  "reachable se (p\<lparr>p_id := i\<rparr>) = reachable se p"
  "reachable se (p\<lparr>p_peer_spub := s\<rparr>) = reachable se p"
  "reachable se (p\<lparr>p_sent_echo := e\<rparr>) = reachable se p"
  "reachable se (p\<lparr>p_to_send := e\<rparr>) = reachable se p"
  "reachable se (p\<lparr>p_key := k\<rparr>) = reachable se p"
  "reachable se (p\<lparr>p_encrypt := el\<rparr>) = reachable se p"
  "reachable se (p\<lparr>p_streams := m\<rparr>) = reachable se p"
  "reachable se (p\<lparr>p_send_msg := m1\<rparr>) = reachable se p"
  "reachable se (p\<lparr>p_recv_msg := m1\<rparr>) = reachable se p"
  by (simp_all add: reachable_def)

lemma wp_send_retransmit:
  "reachable se (pc_peer x) \<Longrightarrow> small d \<Longrightarrow> wp (send_raw_datagram_with_retransmit se d) Q E x \<longleftrightarrow>
     Q () (x\<lparr>pc_io := pc_io x @ [Udp_send (datagram_wire d) (p_addr (pc_peer x))],
            pc_peer := (pc_peer x)\<lparr>p_timer := Some d\<rparr>\<rparr>)"
  by (simp add: send_raw_datagram_with_retransmit_def wps wp_send_raw)

lemma small_create [simp]:
  "length i \<le> 2 ^ 30 - 13 \<Longrightarrow> small (create_hello i)"
  "length i \<le> 2 ^ 30 - 13 \<Longrightarrow> small (create_public_key i)"
  "length i \<le> 2 ^ 30 - 13 \<Longrightarrow> small (create_echo i)"
  "small (create_ack n off)"
  "small (create_echo_back d) = small d"
  by (simp_all add: small_def create_defs)

lemma wp_send_ack:
  "reachable se (pc_peer x) \<Longrightarrow> wp (send_ack_raw se) Q E x \<longleftrightarrow>
     Q () (x\<lparr>pc_io := pc_io x @ [Udp_send (datagram_wire (create_ack 0 0)) (p_addr (pc_peer x))]\<rparr>)"
  by (simp add: send_ack_raw_def wp_send_raw)

section \<open>The invariant\<close>

text \<open>What the surroundings promise: sizes that fit, and the contract of the cipher.\<close>

definition setting_ok :: "setting \<Rightarrow> bool" where
  "setting_ok se \<longleftrightarrow> cfb_ok (se_crypto se) \<and> length (conf_id (se_conf se)) \<le> 2 ^ 30 - 13
     \<and> (\<forall>n. length (snd (ephemeral_pair (se_crypto se) n)) \<le> 2 ^ 30 - 13)"

definition streams_ok :: "(u32, stream) std_map \<Rightarrow> bool" where
  "streams_ok m \<longleftrightarrow> sorted_keys m \<and> smap.every stream_ok m"

definition keys_ok :: "peer \<Rightarrow> bool" where
  "keys_ok p \<longleftrightarrow> dh_spriv (p_dh p) \<noteq> None
     \<and> (bit (p_state p) 3 \<longrightarrow> dh_epriv (p_dh p) \<noteq> None)
     \<and> (bit (p_state p) 5 \<longrightarrow> dh_peer_spub (p_dh p) \<noteq> None \<and> dh_peer_epub (p_dh p) \<noteq> None)
     \<and> (bit (p_state p) 6 \<longrightarrow> p_encrypt p \<noteq> None)
     \<and> (bit (p_state p) 7 \<longrightarrow> p_sent_echo p \<noteq> None)"

definition handler_ok :: "peer \<Rightarrow> bool" where
  "handler_ok p \<longleftrightarrow> (case p_handler p of
     Hello_handler \<Rightarrow> \<not> bit (p_state p) 6
   | Public_key_exchange_handler \<Rightarrow> has_bits hello_complete p \<and> bit (p_state p) 3
   | Echo_handler \<Rightarrow> has_bits established p
   | Established_handler \<Rightarrow> has_bits established p)"

definition peer_ok :: "setting \<Rightarrow> peer \<Rightarrow> bool" where
  "peer_ok se p \<longleftrightarrow> reachable se p \<and> keys_ok p \<and> handler_ok p \<and> streams_ok (p_streams p)
     \<and> (\<forall>d. p_timer p = Some d \<longrightarrow> small d)"

text \<open>The only exceptions that leave an operation: a datagram too short to decode, a payload too
  short to decrypt or a key too short, and a failed agreement.\<close>

definition benign :: "err \<Rightarrow> bool" where
  "benign e \<longleftrightarrow> e \<in> {Io_error, Invalid_data_error, Std_runtime_error}"

definition tame :: "setting \<Rightarrow> 'a peer_action \<Rightarrow> pctx \<Rightarrow> bool" where
  "tame se m x \<longleftrightarrow> wp m (\<lambda>_ x'. peer_ok se (pc_peer x')) (\<lambda>e x'. peer_ok se (pc_peer x') \<and> benign e) x"

lemma tame_then:
  assumes "tame se m x" and "\<And>x'. peer_ok se (pc_peer x') \<Longrightarrow> tame se n x'"
  shows "tame se (andthen m n) x"
  using assms(1) unfolding tame_def wps
  by (rule wp_mono) (use assms(2) in \<open>auto simp: tame_def\<close>)

lemma streams_ok_Nil: "streams_ok []"
  by (simp add: streams_ok_def smap.every_empty)

lemma streams_ok_new: "streams_ok m \<Longrightarrow> streams_ok (map_insert i (stream_new i) m)"
  by (simp add: streams_ok_def smap.ok_insert smap.every_insert stream_ok_new)

lemma streams_ok_assign: "streams_ok m \<Longrightarrow> stream_ok s \<Longrightarrow> streams_ok (map_assign i s m)"
  by (simp add: streams_ok_def smap.ok_assign smap.every_assign)

lemma streams_ok_erase: "streams_ok m \<Longrightarrow> streams_ok (map_erase i m)"
  by (simp add: streams_ok_def smap.ok_erase smap.every_erase)

lemma streams_ok_find: "streams_ok m \<Longrightarrow> map_of m i = Some s \<Longrightarrow> stream_ok s"
  by (simp add: streams_ok_def smap.every_def)

lemmas peer_ok_defs = peer_ok_def keys_ok_def handler_ok_def

section \<open>The handshake\<close>

lemma received_hello_tame:
  "peer_ok se (pc_peer x) \<Longrightarrow> tame se (received_hello_handler se d) x"
  by (auto simp: tame_def received_hello_handler_def wps wp_send_ack peer_ok_defs bit_or_iff
      split: handler.splits)

lemma received_hello_ack_tame:
  "peer_ok se (pc_peer x) \<Longrightarrow> tame se received_hello_ack_handler x"
  by (auto simp: tame_def received_hello_ack_handler_def wps peer_ok_defs bit_or_iff
      split: handler.splits)

lemma hello_complete_tame:
  assumes "setting_ok se" and "peer_ok se (pc_peer x)" and "has_bits hello_complete (pc_peer x)"
  shows "tame se (hello_complete_handler se) x"
  using assms
  by (auto simp: tame_def hello_complete_handler_def send_public_key_def wps wp_send_retransmit
      generate_ephemeral_key_pairs_def ephemeral_pub_key_def block_of_def peer_ok_defs bit_or_iff
      setting_ok_def)

lemma el_new_error: "el_new c n AES_128 (Some k) = Inl e \<Longrightarrow> e = Invalid_data_error"
  by (auto simp: el_new_def aes_new_def aes_set_key_def act split: if_splits)

lemma wp_on_dh [wps]:
  "wp (on_dh m) Q E x \<longleftrightarrow> wp m (\<lambda>a dh. Q a (x\<lparr>pc_peer := (pc_peer x)\<lparr>p_dh := dh\<rparr>\<rparr>))
     (\<lambda>e dh. E e (x\<lparr>pc_peer := (pc_peer x)\<lparr>p_dh := dh\<rparr>\<rparr>)) (p_dh (pc_peer x))"
  by (simp add: wp_def on_dh_def split: prod.splits)

lemma public_key_exchange_complete_tame:
  assumes "setting_ok se" and "peer_ok se (pc_peer x)" and "has_bits public_key_exchanged (pc_peer x)"
    and "has_bits hello_complete (pc_peer x)" 
  shows "tame se (public_key_exchange_complete_handler se) x"
proof -
  obtain spriv epriv pspub pepub where keys: "dh_spriv (p_dh (pc_peer x)) = Some spriv"
      "dh_epriv (p_dh (pc_peer x)) = Some epriv" "dh_peer_spub (p_dh (pc_peer x)) = Some pspub"
      "dh_peer_epub (p_dh (pc_peer x)) = Some pepub"
    using assms(2,3) by (auto simp: peer_ok_def keys_ok_def)
  show ?thesis
  proof (cases "dh2_agree (se_crypto se) spriv epriv pspub pepub")
    case None
    then show ?thesis
      using assms(2) keys
      by (simp add: tame_def public_key_exchange_complete_handler_def peer_generate_shared_key_def wps)
        (simp add: wp_def generate_shared_key_def benign_def peer_ok_defs split: handler.splits)
  next
    case (Some k)
    have "wp (generate_shared_key (se_crypto se)) Q E (p_dh (pc_peer x)) =
        Q () ((p_dh (pc_peer x))\<lparr>dh_shared := Some k\<rparr>)" for Q E
      using keys Some by (simp add: wp_def generate_shared_key_def)
    moreover have "small (create_echo (str ''1234567890''))" by simp
    ultimately show ?thesis
      using assms keys
      by (auto simp: tame_def public_key_exchange_complete_handler_def peer_generate_shared_key_def
          send_echo_def wps wp_send_retransmit shared_key_def block_of_def benign_def peer_ok_defs
          bit_or_iff el_new_error split: sum.splits handler.splits)
  qed
qed

lemma hello_handler_tame:
  assumes "setting_ok se" and "peer_ok se (pc_peer x)"
  shows "tame se (hello_handler se d) x"
proof -
  have "tame se (seq (pget (has_bits hello_complete)) (\<lambda>b. whenever b (hello_complete_handler se))) x'"
    if "peer_ok se (pc_peer x')" for x'
    using hello_complete_tame [OF assms(1) that] that by (auto simp: tame_def wps)
  moreover have "tame se (if dg_type d = Hello then received_hello_handler se d
      else received_hello_ack_handler) x"
    using assms(2) by (simp add: received_hello_tame received_hello_ack_tame)
  ultimately show ?thesis
    unfolding hello_handler_def using assms(2) by (auto intro!: tame_then) (simp add: tame_def wps)
qed

lemma public_key_exchange_handler_tame:
  assumes "setting_ok se" and "peer_ok se (pc_peer x)"
    and "p_handler (pc_peer x) = Public_key_exchange_handler"
  shows "tame se (public_key_exchange_handler se d) x"
proof -
  let ?first = "if dg_type d = Public_key then received_public_key_handler se d
    else if dg_type d = Ack then received_public_key_ack_handler
    else if dg_type d = Hello then send_ack_raw se else ret ()"
  let ?E = "\<lambda>e x'. peer_ok se (pc_peer x') \<and> benign e"
  have "wp ?first (\<lambda>_ x'. peer_ok se (pc_peer x') \<and> p_handler (pc_peer x') = Public_key_exchange_handler) ?E x"
    using assms(2,3)
    by (auto simp: received_public_key_handler_def received_public_key_ack_handler_def wps wp_send_ack
        peer_ok_defs bit_or_iff set_peer_pub_key_pairs_def)
  then show ?thesis
    unfolding tame_def public_key_exchange_handler_def wp_andthen
  proof (rule wp_mono)
    fix x' :: pctx
    assume "peer_ok se (pc_peer x') \<and> p_handler (pc_peer x') = Public_key_exchange_handler"
    moreover from this have "has_bits hello_complete (pc_peer x')"
      by (auto simp: peer_ok_def handler_ok_def)
    ultimately show "wp (seq (pget (has_bits public_key_exchanged))
        (\<lambda>b. whenever b (public_key_exchange_complete_handler se))) (\<lambda>_ x'. peer_ok se (pc_peer x')) ?E x'"
      using public_key_exchange_complete_tame [OF assms(1), of x'] by (simp add: tame_def wps)
  qed
qed

lemma received_echo_tame:
  "peer_ok se (pc_peer x) \<Longrightarrow> small d \<Longrightarrow> tame se (received_echo_handler se d) x"
  by (simp add: tame_def received_echo_handler_def wp_send_raw peer_ok_def)

lemma received_echo_back_tame:
  assumes "peer_ok se (pc_peer x)"
  shows "tame se (received_echo_back_handler d) x"
  using assms
  by (auto simp: tame_def received_echo_back_handler_def wps peer_ok_defs bit_and_iff bit_not_iff
      split: handler.splits)

lemma echo_handler_tame:
  assumes "peer_ok se (pc_peer x)" and "p_handler (pc_peer x) = Echo_handler" and "small d"
  shows "tame se (echo_handler se d) x"
proof -
  let ?first = "if dg_type d = Echo then received_echo_handler se d
    else if dg_type d = Echo_back then received_echo_back_handler d
    else if dg_type d = Public_key then send_ack_raw se else ret ()"
  let ?E = "\<lambda>e x'. peer_ok se (pc_peer x') \<and> benign e"
  have "wp ?first (\<lambda>_ x'. peer_ok se (pc_peer x') \<and> has_bits established (pc_peer x')) ?E x"
    using assms
    by (auto simp: received_echo_handler_def received_echo_back_handler_def wps wp_send_ack wp_send_raw
        peer_ok_defs bit_and_iff bit_not_iff)
  then show ?thesis
    unfolding tame_def echo_handler_def wp_andthen
    by (rule wp_mono) (auto simp: wps peer_ok_defs split: handler.splits)
qed

section \<open>Streams\<close>

lemma wp_on_encrypt_layer:
  "p_encrypt (pc_peer x) = Some el \<Longrightarrow> wp (on_encrypt_layer m) Q E x \<longleftrightarrow>
     wp m (\<lambda>a el'. Q a (x\<lparr>pc_peer := (pc_peer x)\<lparr>p_encrypt := Some el'\<rparr>\<rparr>))
       (\<lambda>e el'. E e (x\<lparr>pc_peer := (pc_peer x)\<lparr>p_encrypt := Some el'\<rparr>\<rparr>)) el"
  by (simp add: wp_def on_encrypt_layer_def split: prod.splits)

lemma encrypt_payload_eval:
  "encrypt_payload c n d el =
     (if dg_payload d = [] then (Inr d, el)
      else (Inr (d\<lparr>dg_payload := random_block c n
                @ cfb_encrypt c (el_key el) (random_block c n) (dg_payload d)\<rparr>),
            el\<lparr>encryptor := (encryptor el)\<lparr>aes_iv := random_block c n\<rparr>\<rparr>))"
  by (auto simp: encrypt_payload_def el_encrypt_def on_encryptor_def el_key_def act)

lemma aes_decrypt_cases:
  "wp (aes_decrypt c data) (\<lambda>_ _. True) (\<lambda>e _. e = Invalid_data_error) a"
  by (simp add: aes_decrypt_def Let_def wps)

lemma wp_on_encryptor:
  "wp (on_encryptor m) Q E el \<longleftrightarrow>
     wp m (\<lambda>r a. Q r (el\<lparr>encryptor := a\<rparr>)) (\<lambda>e a. E e (el\<lparr>encryptor := a\<rparr>)) (encryptor el)"
  by (simp add: wp_def on_encryptor_def split: prod.splits)

lemma decrypt_payload_cases:
  "wp (decrypt_payload c d) (\<lambda>_ _. True) (\<lambda>e _. e = Invalid_data_error) el"
  by (simp add: decrypt_payload_def el_decrypt_def wps wp_on_encryptor aes_decrypt_cases)

lemma small_encrypted:
  "cfb_ok c \<Longrightarrow> length (dg_payload d) \<le> segment_max \<Longrightarrow> encrypt_payload c n d el = (Inr d', el') \<Longrightarrow> small d'"
  by (auto simp: encrypt_payload_eval cfb_ok_def small_def segment_max_def split: if_splits)

lemma peer_send_datagram_tame:
  assumes "setting_ok se" and "peer_ok se (pc_peer x)" and "length (dg_payload d) \<le> segment_max"
  shows "tame se (peer_send_datagram se d) x"
proof (cases "has_bits established (pc_peer x)")
  case False
  then show ?thesis using assms(2) by (auto simp: tame_def peer_send_datagram_def wps)
next
  case True
  then obtain el where el: "p_encrypt (pc_peer x) = Some el"
    using assms(2) by (auto simp: peer_ok_def keys_ok_def)
  let ?c = "se_crypto se" and ?n = "pc_rnd x"
  obtain d' el' where enc: "encrypt_payload ?c ?n d el = (Inr d', el')"
    by (cases "dg_payload d = []") (auto simp: encrypt_payload_eval)
  have small: "small d'"
    using small_encrypted [OF _ assms(3) enc] assms(1) by (simp add: setting_ok_def)
  have "wp (encrypt_payload ?c ?n d) Q E el = Q d' el'" for Q E
    by (simp add: wp_def enc)
  moreover have "datagram_bytes d' = Inr (datagram_wire d')"
    using small by (intro datagram_write_ok) (simp add: small_def)
  ultimately show ?thesis
    using assms(2) True el
    by (simp add: tame_def peer_send_datagram_def wps wp_on_encrypt_layer wp_do_send peer_ok_defs
        split: handler.splits)
qed

lemma run_effect_tame:
  assumes "setting_ok se" and "peer_ok se (pc_peer x)" and "small_sends es" and "e \<in> set es"
  shows "tame se (run_effect se e) x"
proof (cases e)
  case (Send_datagram d)
  then show ?thesis
    using assms peer_send_datagram_tame by (simp add: run_effect_def small_sends_def)
next
  case (Put m)
  then show ?thesis using assms(2) by (simp add: run_effect_def tame_def wps)
qed

lemma run_effects_tame:
  assumes "setting_ok se" and "peer_ok se (pc_peer x)" and "small_sends es"
  shows "tame se (for_each (run_effect se) es) x"
  unfolding tame_def
  by (rule wp_for_each [where P = "\<lambda>x. peer_ok se (pc_peer x)"])
    (use assms run_effect_tame in \<open>auto simp: tame_def\<close>)

lemma peer_ok_streams: "peer_ok se p \<Longrightarrow> streams_ok m \<Longrightarrow> peer_ok se (p\<lparr>p_streams := m\<rparr>)"
  by (auto simp: peer_ok_defs split: handler.splits)

lemma peer_ok_encrypt: "peer_ok se p \<Longrightarrow> peer_ok se (p\<lparr>p_encrypt := Some el\<rparr>)"
  by (auto simp: peer_ok_defs split: handler.splits)

text \<open>An operation of a stream that keeps \<open>stream_ok\<close> and transmits short payloads is tame.\<close>

lemma on_stream_tame:
  assumes "setting_ok se" and "peer_ok se (pc_peer x)"
    and "map_of (p_streams (pc_peer x)) i = Some s"
    and "stream_ok s \<Longrightarrow> stream_ok (fst (f s)) \<and> small_sends (snd (f s))"
  shows "tame se (on_stream se i f) x"
proof -
  have m: "streams_ok (p_streams (pc_peer x))" using assms(2) by (simp add: peer_ok_def)
  have s: "stream_ok (fst (f s))" "small_sends (snd (f s))"
    using assms(4) streams_ok_find [OF m assms(3)] by simp_all
  let ?x = "x\<lparr>pc_peer := (pc_peer x)\<lparr>p_streams := map_assign i (fst (f s)) (p_streams (pc_peer x))\<rparr>\<rparr>"
  have "peer_ok se (pc_peer ?x)"
    using assms(2) m s(1) by (simp add: peer_ok_streams streams_ok_assign)
  from run_effects_tame [OF assms(1) this s(2)] show ?thesis
    using assms(3) by (simp add: tame_def on_stream_def peer_get_stream_def wps case_prod_beta)
qed

lemma feed_stream_tame:
  assumes "setting_ok se" and "peer_ok se (pc_peer x)"
  shows "tame se (feed_stream se d) x"
proof -
  have feed: "tame se (on_stream se (dg_id d) (stream_feed a d)) x'"
    if "peer_ok se (pc_peer x')" "map_of (p_streams (pc_peer x')) (dg_id d) = Some s" for a s x'
    using on_stream_tame [OF assms(1) that] stream_ok_feed small_sends_feed by blast
  have m: "streams_ok (p_streams (pc_peer x))" using assms(2) by (simp add: peer_ok_def)
  show ?thesis
  proof (cases "map_of (p_streams (pc_peer x)) (dg_id d)")
    case None
    let ?m = "map_insert (dg_id d) (stream_new (dg_id d)) (p_streams (pc_peer x))"
    have "map_of ?m (dg_id d) = Some (stream_new (dg_id d))"
      using m None smap.insert_new by (fastforce simp: streams_ok_def)
    moreover have "peer_ok se ((pc_peer x)\<lparr>p_streams := ?m\<rparr>)"
      using assms(2) m by (simp add: peer_ok_streams streams_ok_new)
    ultimately show ?thesis
      using None feed [of "x\<lparr>pc_peer := (pc_peer x)\<lparr>p_streams := ?m\<rparr>,
          pc_io := pc_io x @ [Output (New_stream (p_addr (pc_peer x)) (dg_id d))]\<rparr>"]
      by (simp add: tame_def feed_stream_def peer_get_stream_def wps)
  next
    case (Some s)
    then show ?thesis
      using feed [OF assms(2)] by (simp add: tame_def feed_stream_def peer_get_stream_def wps)
  qed
qed

lemma established_hello_eval:
  assumes "setting_ok se" and "peer_ok se (pc_peer x)" and "has_bits established (pc_peer x)"
    and "dg_type d = Hello"
  shows "tame se (established_handler se d) x"
  using assms
  by (auto simp: tame_def established_handler_def peer_reset_def send_hello_def
      received_hello_handler_def wps wp_send_retransmit wp_send_ack setting_ok_def peer_ok_defs
      bit_or_iff set_static_key_pairs_def streams_ok_Nil)

lemma established_handler_tame:
  assumes "setting_ok se" and "peer_ok se (pc_peer x)"
    and "p_handler (pc_peer x) = Established_handler" and "small d"
  shows "tame se (established_handler se d) x"
proof -
  have ready: "has_bits established (pc_peer x)"
    using assms(2,3) by (auto simp: peer_ok_def handler_ok_def)
  then obtain el where el: "p_encrypt (pc_peer x) = Some el"
    using assms(2) by (auto simp: peer_ok_def keys_ok_def)
  have "wp (decrypt_payload (se_crypto se) d)
      (\<lambda>d' el'. tame se (feed_stream se d') (x\<lparr>pc_peer := (pc_peer x)\<lparr>p_encrypt := Some el'\<rparr>\<rparr>))
      (\<lambda>e el'. peer_ok se ((pc_peer x)\<lparr>p_encrypt := Some el'\<rparr>) \<and> benign e) el"
    using decrypt_payload_cases
    by (rule wp_mono)
      (use assms(1,2) in \<open>simp_all add: feed_stream_tame peer_ok_encrypt benign_def\<close>)
  then have data: "tame se (seq (on_encrypt_layer (decrypt_payload (se_crypto se) d)) (\<lambda>d'. feed_stream se d')) x"
    using el by (simp add: tame_def wps wp_on_encrypt_layer)
  show ?thesis
  proof (cases "dg_type d = Hello")
    case True
    then show ?thesis using established_hello_eval [OF assms(1,2) ready] by simp
  next
    case False
    then show ?thesis
      using data ready received_echo_tame [OF assms(2,4)] received_echo_back_tame [OF assms(2), of d] assms(2)
      by (auto simp: tame_def established_handler_def wp_seq [of "pget _"] wp_peer wp_if)
  qed
qed

end
