(* ===== verification/Sample.thy ===== *)
theory Sample
  imports Peer
begin

text \<open>
  A concrete instance of what the model takes as parameters, to show that the hypotheses on
  them can hold: a cipher that XORs the key, keys whose public and private halves agree, and an
  agreement that is symmetric in the two sides.
\<close>

definition xor_stream :: "bytes \<Rightarrow> bytes \<Rightarrow> bytes" where
  "xor_stream k x = map (\<lambda>i. x ! i XOR (if k = [] then 0 else k ! (i mod length k))) [0..<length x]"

definition sample_crypto :: crypto where
  "sample_crypto = \<lparr>cfb_encrypt = (\<lambda>k iv x. xor_stream k x), cfb_decrypt = (\<lambda>k iv x. xor_stream k x),
     random_block = (\<lambda>n. replicate 16 (word_of_nat n)),
     integer_bytes = (\<lambda>x. x),
     ephemeral_pair = (\<lambda>n. (replicate 16 (word_of_nat n), replicate 16 (word_of_nat n))),
     dh2_agree = (\<lambda>spriv epriv pspub pepub. Some (map2 (XOR) spriv pspub @ map2 (XOR) epriv pepub)),
     group_valid = True, subgroup_order_ok = True\<rparr>"

definition sample_conf :: "bytes \<Rightarrow> bytes \<Rightarrow> bytes \<Rightarrow> bytes \<Rightarrow> configuration" where
  "sample_conf i key peer peer_key = configuration_new (mk_address [] 0) i key key 5000 5 3 [(peer, peer_key)]"

definition sample_setting :: "bytes \<Rightarrow> bytes \<Rightarrow> bytes \<Rightarrow> bytes \<Rightarrow> setting" where
  "sample_setting i key peer peer_key =
     \<lparr>se_crypto = sample_crypto, se_conf = sample_conf i key peer peer_key, se_valid_ip = (\<lambda>_. True)\<rparr>"

lemma xor_stream_involution [simp]: "xor_stream k (xor_stream k x) = x"
  by (rule nth_equalityI) (simp_all add: xor_stream_def xor.assoc)

lemma length_xor_stream [simp]: "length (xor_stream k x) = length x"
  by (simp add: xor_stream_def)

lemma sample_cfb_ok: "cfb_ok sample_crypto"
  by (simp add: cfb_ok_def sample_crypto_def)

lemma payload_encryption_witness:
  "let el = \<lparr>encryptor = \<lparr>aes_iv = [], aes_key = replicate 16 7\<rparr>\<rparr> in
   \<exists>e. fst (encrypt_payload sample_crypto 3 (create_echo [1, 2]) el) = Inr e
     \<and> fst (decrypt_payload sample_crypto e el) = Inr (create_echo [1, 2])"
  using payload_encryption [OF sample_cfb_ok, where d = "create_echo [1, 2]" and n = 3]
  by (simp add: create_echo_def)

end
