(* ===== verification/Peer_Lifetime.thy ===== *)
theory Peer_Lifetime
  imports Peer_Invariant Sample
begin

text \<open>
  The life of a peer as a sequence of events, in any order: datagrams from the network, its
  timers, those included whose handler was already waiting when they were cancelled, and the user's control messages. Every reachable peer satisfies the invariant, and
  the behaviours that the handshake's states rule out or let through are stated on the way.
\<close>

section \<open>Events\<close>

text \<open>The effect of \<^verbatim>\<open>send_data\<close> on a peer that was found.\<close>

definition send_on_stream :: "setting \<Rightarrow> u32 \<Rightarrow> bytes \<Rightarrow> unit peer_action" where
  "send_on_stream se i data = seq (pget (peer_get_stream i)) (\<lambda>v.
     whenever (v \<noteq> None) (on_stream se i (stream_send data)))"

text \<open>The timer of a stream lives as long as the stream.\<close>

definition stream_timer_event :: "setting \<Rightarrow> u32 \<Rightarrow> unit peer_action" where
  "stream_timer_event se i = seq (pget (peer_get_stream i)) (\<lambda>v.
     whenever (v \<noteq> None) (peer_stream_timer_fires se i))"

definition late_stream_timer_event :: "setting \<Rightarrow> u32 \<Rightarrow> unit peer_action" where
  "late_stream_timer_event se i = seq (pget (peer_get_stream i)) (\<lambda>v.
     whenever (v \<noteq> None) (on_stream se i stream_late_timer))"

datatype peer_event =
    Datagram_in bytes
  | Handshake_timer
  | Stream_timer u32
  | Late_timer datagram
  | Late_stream_timer u32
  | User_add_stream u32
  | User_del_stream u32
  | User_send u32 bytes

fun peer_do :: "setting \<Rightarrow> peer_event \<Rightarrow> unit peer_action" where
  "peer_do se (Datagram_in msg) = peer_feed se msg"
| "peer_do se Handshake_timer = peer_timer_fires se"
| "peer_do se (Stream_timer i) = stream_timer_event se i"
| "peer_do se (Late_timer d) = peer_late_timer se d"
| "peer_do se (Late_stream_timer i) = late_stream_timer_event se i"
| "peer_do se (User_add_stream i) = seq (peer_add_stream i) (\<lambda>_. ret ())"
| "peer_do se (User_del_stream i) = peer_del_stream i"
| "peer_do se (User_send i data) = send_on_stream se i data"

fun event_fits :: "peer_event \<Rightarrow> bool" where
  "event_fits (Datagram_in msg) = (length msg \<le> 2 ^ 30 - 13)"
| "event_fits (Late_timer d) = small d"
| "event_fits _ = True"

text \<open>An exception leaves the peer in the state it had reached; the next event finds it there.\<close>

inductive peer_life :: "setting \<Rightarrow> address \<Rightarrow> pctx \<Rightarrow> bool" for se a where
  Constructed: "peer_new se a n = (Inr p, n', out) \<Longrightarrow>
    peer_life se a \<lparr>pc_peer = p, pc_rnd = n', pc_io = out\<rparr>"
| Event: "peer_life se a x \<Longrightarrow> event_fits ev \<Longrightarrow> peer_do se ev x = (r, x') \<Longrightarrow> peer_life se a x'"

section \<open>Every event is tame\<close>

lemma small_datagram:
  assumes "datagram_of_bytes msg = Inr d" and "length msg \<le> 2 ^ 30 - 13"
  shows "small d"
  using assms datagram_of_bytes_eq [of msg]
  by (auto simp: small_def wire_datagram_def split: if_splits)

lemma decode_error:
  assumes "datagram_of_bytes msg = Inl e" and "length msg \<le> 2 ^ 30 - 13"
  shows "e = Io_error"
  using assms datagram_of_bytes_eq [of msg] by (auto split: if_splits)

lemma run_handler_tame:
  assumes "setting_ok se" and "peer_ok se (pc_peer x)" and "small d"
  shows "tame se (run_handler se d) x"
  using hello_handler_tame [OF assms(1,2)] public_key_exchange_handler_tame [OF assms(1,2)]
    echo_handler_tame [OF assms(2) _ assms(3)] established_handler_tame [OF assms(1,2) _ assms(3)]
  by (cases "p_handler (pc_peer x)") (simp_all add: tame_def run_handler_def wp_seq wp_peer)

lemma peer_feed_tame:
  assumes "setting_ok se" and "peer_ok se (pc_peer x)" and "length msg \<le> 2 ^ 30 - 13"
  shows "tame se (peer_feed se msg) x"
proof (cases "datagram_of_bytes msg")
  case (Inl e)
  then show ?thesis
    using assms(2) decode_error [OF Inl assms(3)] by (simp add: tame_def peer_feed_def wps benign_def)
next
  case (Inr d)
  then show ?thesis
    using run_handler_tame [OF assms(1,2) small_datagram [OF Inr assms(3)]]
    by (simp add: tame_def peer_feed_def wps)
qed

lemma peer_timer_tame:
  "peer_ok se (pc_peer x) \<Longrightarrow> tame se (peer_timer_fires se) x"
  by (cases "p_timer (pc_peer x)")
    (auto simp: tame_def peer_timer_fires_def retransmit_raw_datagram_def wps wp_send_retransmit
      peer_ok_defs split: handler.splits)

lemma peer_add_stream_tame:
  assumes "peer_ok se (pc_peer x)"
  shows "tame se (seq (peer_add_stream i) (\<lambda>_. ret ())) x"
proof -
  have "streams_ok (p_streams (pc_peer x))" using assms by (simp add: peer_ok_def)
  then show ?thesis
    using assms
    by (cases "map_of (p_streams (pc_peer x)) i")
      (simp_all add: tame_def peer_add_stream_def wps peer_ok_streams streams_ok_new)
qed

lemma peer_del_stream_tame:
  assumes "peer_ok se (pc_peer x)"
  shows "tame se (peer_del_stream i) x"
proof -
  have "streams_ok (p_streams (pc_peer x))" using assms by (simp add: peer_ok_def)
  then show ?thesis
    using assms by (simp add: tame_def peer_del_stream_def Let_def wps peer_ok_streams streams_ok_erase)
qed

lemma send_on_stream_tame:
  assumes "setting_ok se" and "peer_ok se (pc_peer x)"
  shows "tame se (send_on_stream se i data) x"
proof (cases "map_of (p_streams (pc_peer x)) i")
  case None
  then show ?thesis using assms by (simp add: tame_def send_on_stream_def peer_get_stream_def wps)
next
  case (Some s)
  then show ?thesis
    using on_stream_tame [OF assms Some, of "stream_send data"] stream_ok_send small_sends_send
    by (simp add: tame_def send_on_stream_def peer_get_stream_def wps)
qed

lemma stream_timer_tame:
  assumes "setting_ok se" and "peer_ok se (pc_peer x)"
  shows "tame se (stream_timer_event se i) x"
proof (cases "map_of (p_streams (pc_peer x)) i")
  case None
  then show ?thesis using assms by (simp add: tame_def stream_timer_event_def peer_get_stream_def wps)
next
  case (Some s)
  then show ?thesis
    using on_stream_tame [OF assms Some, of stream_timer_fires] stream_ok_timer small_sends_timer
    by (simp add: tame_def stream_timer_event_def peer_stream_timer_fires_def peer_get_stream_def wps)
qed

lemma late_timer_tame:
  "peer_ok se (pc_peer x) \<Longrightarrow> small d \<Longrightarrow> tame se (peer_late_timer se d) x"
  by (auto simp: tame_def peer_late_timer_def retransmit_raw_datagram_def wps wp_send_retransmit
      peer_ok_defs split: handler.splits)

lemma late_stream_timer_tame:
  assumes "setting_ok se" and "peer_ok se (pc_peer x)"
  shows "tame se (late_stream_timer_event se i) x"
proof (cases "map_of (p_streams (pc_peer x)) i")
  case None
  then show ?thesis
    using assms by (simp add: tame_def late_stream_timer_event_def peer_get_stream_def wps)
next
  case (Some s)
  then show ?thesis
    using on_stream_tame [OF assms Some, of stream_late_timer] stream_ok_late_timer small_sends_late_timer
    by (simp add: tame_def late_stream_timer_event_def peer_get_stream_def wps)
qed

lemma peer_do_tame:
  assumes "setting_ok se" and "peer_ok se (pc_peer x)" and "event_fits ev"
  shows "tame se (peer_do se ev) x"
  using assms
  by (cases ev) (simp_all add: peer_feed_tame peer_timer_tame peer_add_stream_tame
      peer_del_stream_tame send_on_stream_tame stream_timer_tame late_timer_tame late_stream_timer_tame)

section \<open>Construction\<close>

lemma send_hello_eval:
  assumes "reachable se (pc_peer x)" and "length (conf_id (se_conf se)) \<le> 2 ^ 30 - 13"
  shows "wp (send_hello se) Q E x \<longleftrightarrow>
    Q () (x\<lparr>pc_io := pc_io x @ [Udp_send (datagram_wire (create_hello (conf_id (se_conf se)))) (p_addr (pc_peer x))],
      pc_peer := (pc_peer x)\<lparr>p_timer := Some (create_hello (conf_id (se_conf se))),
        p_state := p_state (pc_peer x) OR sent_hello, p_handler := Hello_handler\<rparr>\<rparr>)"
  using assms by (simp add: send_hello_def wps wp_send_retransmit)

lemma send_hello_unreachable:
  "\<not> reachable se (pc_peer x) \<Longrightarrow> length (conf_id (se_conf se)) \<le> 2 ^ 30 - 13 \<Longrightarrow>
   wp (send_hello se) (\<lambda>_ _. False) (\<lambda>e _. e = Std_runtime_error) x"
  by (simp add: send_hello_def send_raw_datagram_with_retransmit_def send_raw_datagram_def do_send_def
      wps reachable_def datagram_write_ok create_hello_def datagram_new_def)

lemma peer_new_cases:
  assumes "setting_ok se"
  shows "case peer_new se a n of (r, n', out) \<Rightarrow> (case r of
      Inl e \<Rightarrow> e = Std_runtime_error
    | Inr p \<Rightarrow> peer_ok se p \<and> p_addr p = a \<and> p_handler p = Hello_handler \<and> n' = n
        \<and> out = [Udp_send (datagram_wire (create_hello (conf_id (se_conf se)))) a])"
proof (cases "group_valid (se_crypto se) \<and> subgroup_order_ok (se_crypto se)")
  case False
  then show ?thesis by (auto simp: peer_new_def dh_new_def)
next
  case True
  let ?x = "\<lparr>pc_peer = peer_blank a dh_blank, pc_rnd = n, pc_io = []\<rparr>"
  have id: "length (conf_id (se_conf se)) \<le> 2 ^ 30 - 13" using assms by (simp add: setting_ok_def)
  have "wp (peer_construct se) (\<lambda>_ x. peer_ok se (pc_peer x) \<and> p_addr (pc_peer x) = a
      \<and> p_handler (pc_peer x) = Hello_handler \<and> pc_rnd x = n
      \<and> pc_io x = [Udp_send (datagram_wire (create_hello (conf_id (se_conf se)))) a])
      (\<lambda>e _. e = Std_runtime_error) ?x"
  proof (cases "se_valid_ip se (ip_addr a)")
    case True
    then have "reachable se (peer_blank a dh)" for dh by (simp add: reachable_def peer_blank_def)
    then show ?thesis
      using id by (simp add: peer_construct_def wps send_hello_eval peer_ok_defs)
        (simp add: peer_blank_def set_static_key_pairs_def streams_ok_Nil bit_or_iff)
  next
    case False
    then have "\<not> reachable se (peer_blank a dh)" for dh by (simp add: reachable_def peer_blank_def)
    then show ?thesis
      unfolding peer_construct_def wps
      by (intro wp_mono [OF send_hello_unreachable]) (use id in simp_all)
  qed
  then show ?thesis
    using True by (auto simp: peer_new_def dh_new_def wp_def split: prod.splits sum.splits)
qed

text \<open>The peer as a successful construction leaves it.\<close>

definition greeted :: "setting \<Rightarrow> address \<Rightarrow> peer" where
  "greeted se a = (peer_blank a (set_static_key_pairs
       (hex_str_to_bytes (se_crypto se) (conf_privkey (se_conf se)))
       (hex_str_to_bytes (se_crypto se) (conf_pubkey (se_conf se))) dh_blank))
     \<lparr>p_timer := Some (create_hello (conf_id (se_conf se))), p_state := sent_hello\<rparr>"

lemma peer_new_eval:
  assumes "setting_ok se" and "group_valid (se_crypto se)" and "subgroup_order_ok (se_crypto se)"
    and "se_valid_ip se (ip_addr a)"
  shows "peer_new se a n = (Inr (greeted se a), n,
    [Udp_send (datagram_wire (create_hello (conf_id (se_conf se)))) a])"
proof -
  have "peer_construct se \<lparr>pc_peer = peer_blank a dh_blank, pc_rnd = n, pc_io = []\<rparr> =
    (Inr (), \<lparr>pc_peer = greeted se a, pc_rnd = n,
      pc_io = [Udp_send (datagram_wire (create_hello (conf_id (se_conf se)))) a]\<rparr>)"
    using assms by (intro wp_run)
      (simp add: peer_construct_def wps send_hello_eval setting_ok_def reachable_def peer_blank_def
        greeted_def initial_def)
  then show ?thesis using assms(2,3) by (simp add: peer_new_def dh_new_def)
qed

lemma peer_life_ok:
  assumes "setting_ok se" and "peer_life se a x"
  shows "peer_ok se (pc_peer x)"
  using assms(2)
proof (induction rule: peer_life.induct)
  case (Constructed n p n' out)
  then show ?case using peer_new_cases [OF assms(1), of a n] by simp
next
  case (Event x ev r x')
  then show ?case
    using peer_do_tame [OF assms(1), of x ev]
    by (auto simp: tame_def wp_def split: sum.splits)
qed

section \<open>Properties\<close>

text \<open>
  C9: Whatever datagrams arrive, timers fire and control messages are handled, in any order and
  after any exceptions, a peer keeps its invariant, and the only exceptions an event can raise
  are those for a datagram too short to decode, a payload that cannot be decrypted or a key too
  short, and a failed key agreement: no null pointer is dereferenced, and neither
  \<^verbatim>\<open>unknown_error\<close> nor a failure of the byte buffer can occur.
\<close>

theorem peer_life_safe:
  assumes "setting_ok se" and "peer_life se a x" and "event_fits ev"
  shows "peer_ok se (pc_peer x) \<and> (\<forall>e x'. peer_do se ev x = (Inl e, x') \<longrightarrow>
    e \<in> {Io_error, Invalid_data_error, Std_runtime_error})"
proof -
  have ok: "peer_ok se (pc_peer x)" by (rule peer_life_ok [OF assms(1,2)])
  show ?thesis
    using ok peer_do_tame [OF assms(1) ok assms(3)] by (auto simp: tame_def wp_def benign_def)
qed

lemma sample_setting_ok: "length i \<le> 1000 \<Longrightarrow> setting_ok (sample_setting i k j l)"
  by (simp add: setting_ok_def sample_setting_def sample_cfb_ok sample_conf_def configuration_new_def)
    (simp add: sample_crypto_def)

lemma peer_life_safe_witness:
  "\<exists>se a x x'. peer_life se a x \<and> peer_ok se (pc_peer x)
     \<and> peer_do se (Datagram_in [1, 2, 3]) x = (Inl Io_error, x')"
proof -
  let ?se = "sample_setting [1] [2] [3] [4]" and ?a = "mk_address [] 1"
  have "setting_ok ?se" by (rule sample_setting_ok) simp
  then have "peer_new ?se ?a 0 = (Inr (greeted ?se ?a), 0,
      [Udp_send (datagram_wire (create_hello (conf_id (se_conf ?se)))) ?a])"
    by (rule peer_new_eval) (simp_all add: sample_setting_def sample_crypto_def)
  from peer_life.Constructed [OF this] obtain x where life: "peer_life ?se ?a x" by blast
  have safe: "peer_ok ?se (pc_peer x)"
    using peer_life_safe [OF \<open>setting_ok ?se\<close> life, of Handshake_timer] by simp
  have "datagram_of_bytes [1, 2, 3] = Inl Io_error" by (simp add: datagram_of_bytes_eq)
  then show ?thesis
    using safe life by (intro exI conjI; (assumption)?) (auto simp: peer_feed_def act)
qed

text \<open>Before the peer is established: streams untouched, nothing reported but a new peer.\<close>

definition unannounced :: "pctx \<Rightarrow> pctx \<Rightarrow> bool" where
  "unannounced x x' \<longleftrightarrow> p_streams (pc_peer x') = p_streams (pc_peer x)
     \<and> (\<exists>out. pc_io x' = pc_io x @ out \<and> (\<forall>m. Output m \<in> set out \<longrightarrow> message_type m = Kind_new_peer))"

lemma unannounced_refl: "reflp unannounced"
  by (simp add: reflp_def unannounced_def)

lemma unannounced_trans: "transp unannounced"
proof (rule transpI)
  fix x y z
  assume "unannounced x y" and "unannounced y z"
  then obtain o1 o2 where "pc_io y = pc_io x @ o1" "pc_io z = (pc_io x @ o1) @ o2"
    and "\<forall>m. Output m \<in> set (o1 @ o2) \<longrightarrow> message_type m = Kind_new_peer"
    and "p_streams (pc_peer z) = p_streams (pc_peer x)"
    by (auto simp: unannounced_def)
  then show "unannounced x z" unfolding unannounced_def by (metis append_assoc)
qed

lemma unannounced_primitives:
  "moves unannounced (pget f)"
  "moves unannounced draw"
  "moves unannounced (deref v)"
  "moves unannounced (emit (Udp_send b a))"
  "moves unannounced (emit (Output (New_peer i a)))"
  "moves unannounced (or_state st)"
  "moves unannounced (set_handler h)"
  "moves unannounced cancel_timer"
  "moves unannounced (on_dh m)"
  "(\<And>p. p_streams (g p) = p_streams p) \<Longrightarrow> moves unannounced (pset g)"
  by (auto simp: moves_def unannounced_def pget_def draw_def deref_def emit_def or_state_def
      set_handler_def cancel_timer_def on_dh_def pset_def act split: option.splits prod.splits)

lemmas unannounced_rules = unannounced_primitives
  moves_refl [OF unannounced_refl] moves_trans [OF unannounced_trans]

lemma unannounced_sends:
  "moves unannounced (send_raw_datagram se d)"
  "moves unannounced (send_raw_datagram_with_retransmit se d)"
  "moves unannounced (send_ack_raw se)"
  by (auto simp: send_raw_datagram_def send_raw_datagram_with_retransmit_def send_ack_raw_def
      do_send_def intro!: unannounced_rules)

lemma unannounced_handlers:
  "moves unannounced (hello_handler se d)"
  "moves unannounced (public_key_exchange_handler se d)"
  "moves unannounced (echo_handler se d)"
  unfolding hello_handler_def received_hello_handler_def received_hello_ack_handler_def
    hello_complete_handler_def send_public_key_def public_key_exchange_handler_def
    received_public_key_handler_def received_public_key_ack_handler_def
    public_key_exchange_complete_handler_def peer_generate_shared_key_def send_echo_def
    echo_handler_def received_echo_handler_def received_echo_back_handler_def
  by (auto intro!: unannounced_rules unannounced_sends)

text \<open>What is sent once the key has been agreed goes out as one datagram.\<close>

lemma peer_send_transmits:
  assumes "setting_ok se" and "peer_ok se (pc_peer x)" and "has_bits established (pc_peer x)"
    and "length (dg_payload d) \<le> segment_max"
  shows "\<exists>b. pc_io (snd (peer_send_datagram se d x)) = pc_io x @ [Udp_send b (p_addr (pc_peer x))]"
proof -
  obtain el where el: "p_encrypt (pc_peer x) = Some el"
    using assms(2,3) by (auto simp: peer_ok_def keys_ok_def)
  let ?c = "se_crypto se" and ?n = "pc_rnd x"
  obtain d' el' where enc: "encrypt_payload ?c ?n d el = (Inr d', el')"
    by (cases "dg_payload d = []") (auto simp: encrypt_payload_eval)
  have "small d'" using small_encrypted [OF _ assms(4) enc] assms(1) by (simp add: setting_ok_def)
  then have "datagram_bytes d' = Inr (datagram_wire d')" by (intro datagram_write_ok) (simp add: small_def)
  moreover have "se_valid_ip se (ip_addr (p_addr (pc_peer x)))" using assms(2) by (simp add: peer_ok_def reachable_def)
  ultimately show ?thesis
    using assms(3) el enc
    by (simp add: peer_send_datagram_def on_encrypt_layer_def do_send_def pget_def draw_def emit_def act
        del: has_bits_simps)
qed

text \<open>
  C10: Nothing passes between network and streams too early, and the two directions open at different times. Until the
  handler is that of an established peer, which is when the peer is reported, a datagram that arrives
  changes no stream and reports nothing but the new peer. Until the bits of an established peer are set, which is when
  the key has been agreed, what a user sends on a stream is not transmitted. Between the two, in the echo phase, it is: a send for
  which the stream asks for one datagram puts one on the wire, as it does later.
\<close>

theorem no_data_before_established:
  shows "(p_handler (pc_peer x) \<noteq> Established_handler \<longrightarrow> unannounced x (snd (peer_feed se msg x)))
    \<and> (\<not> has_bits established (pc_peer x) \<longrightarrow> pc_io (snd (send_on_stream se i data x)) = pc_io x)
    \<and> (has_bits established (pc_peer x) \<and> setting_ok se \<and> peer_ok se (pc_peer x)
        \<and> map_of (p_streams (pc_peer x)) i = Some s \<and> snd (stream_send data s) = [Send_datagram d] \<longrightarrow>
        (\<exists>b. pc_io (snd (send_on_stream se i data x)) = pc_io x @ [Udp_send b (p_addr (pc_peer x))]))"
proof (intro conjI impI)
  assume phase: "p_handler (pc_peer x) \<noteq> Established_handler"
  have "unannounced y (snd (hello_handler se d y))" "unannounced y (snd (public_key_exchange_handler se d y))"
    "unannounced y (snd (echo_handler se d y))" for y d
    using unannounced_handlers by (simp_all add: moves_def)
  then show "unannounced x (snd (peer_feed se msg x))"
    using phase reflpD [OF unannounced_refl]
    by (cases "p_handler (pc_peer x)")
      (simp_all add: peer_feed_def run_handler_def pget_def act split: sum.splits)
next
  assume not_yet: "\<not> has_bits established (pc_peer x)"
  have silent: "peer_send_datagram se d y = (Inr (), y)" if "\<not> has_bits established (pc_peer y)" for d y
    using that by (simp add: peer_send_datagram_def pget_def act del: has_bits_simps)
  have sends: "\<forall>e \<in> set (snd (stream_send data s)). \<exists>d. e = Send_datagram d" for s
    by (auto simp: stream_send_def send_one_effects split: list.splits)
  have effects: "\<forall>e \<in> set es. \<exists>d. e = Send_datagram d \<Longrightarrow> \<not> has_bits established (pc_peer y) \<Longrightarrow>
      for_each (run_effect se) es y = (Inr (), y)" for es y
    by (induction es) (auto simp: act run_effect_def silent simp del: has_bits_simps)
  have bits: "has_bits established (p\<lparr>p_streams := m\<rparr>) = has_bits established p" for p m
    by (simp add: has_bits_def)
  show "pc_io (snd (send_on_stream se i data x)) = pc_io x"
    using not_yet effects [OF sends]
    by (auto simp: send_on_stream_def on_stream_def peer_get_stream_def pget_def pset_def deref_def act
        bits case_prod_beta simp del: has_bits_simps split: option.splits)
next
  assume "has_bits established (pc_peer x) \<and> setting_ok se \<and> peer_ok se (pc_peer x)
      \<and> map_of (p_streams (pc_peer x)) i = Some s \<and> snd (stream_send data s) = [Send_datagram d]"
  then have x: "has_bits established (pc_peer x)" "setting_ok se" "peer_ok se (pc_peer x)"
    "map_of (p_streams (pc_peer x)) i = Some s" "snd (stream_send data s) = [Send_datagram d]" by simp_all
  let ?y = "x\<lparr>pc_peer := (pc_peer x)\<lparr>p_streams := map_assign i (fst (stream_send data s)) (p_streams (pc_peer x))\<rparr>\<rparr>"
  have streams: "streams_ok (p_streams (pc_peer x))" using x(3) by (simp add: peer_ok_def)
  note s = streams_ok_find [OF streams x(4)]
  have ok: "peer_ok se (pc_peer ?y)" using x(3) streams stream_ok_send [OF s] by (simp add: peer_ok_streams streams_ok_assign)
  have short: "length (dg_payload d) \<le> segment_max" using small_sends_send [OF s, of data] x(5) by (simp add: small_sends_def)
  have "has_bits established (pc_peer ?y)" using x(1) by (simp add: has_bits_def)
  from peer_send_transmits [OF x(2) ok this short] obtain b where
    "pc_io (snd (peer_send_datagram se d ?y)) = pc_io x @ [Udp_send b (p_addr (pc_peer x))]" by auto
  moreover have "send_on_stream se i data x = andthen (peer_send_datagram se d) (ret ()) ?y"
    using x(4,5) by (simp add: send_on_stream_def on_stream_def peer_get_stream_def pget_def pset_def deref_def act
        case_prod_beta run_effect_def)
  ultimately show "\<exists>b. pc_io (snd (send_on_stream se i data x)) = pc_io x @ [Udp_send b (p_addr (pc_peer x))]"
    by (auto simp: act split: prod.splits sum.splits)
qed

lemma no_data_before_established_witness:
  "let se = sample_setting [1] [2] [3] [4];
       x = \<lparr>pc_peer = (greeted se (mk_address [] 1))\<lparr>p_streams := [(5, stream_new 5)]\<rparr>, pc_rnd = 0, pc_io = []\<rparr>;
       y = x\<lparr>pc_peer := (pc_peer x)\<lparr>p_handler := Echo_handler, p_state := established, p_timer := None,
         p_dh := (p_dh (pc_peer x))\<lparr>dh_epriv := Some [1], dh_peer_spub := Some [1], dh_peer_epub := Some [1]\<rparr>,
         p_encrypt := Some \<lparr>encryptor = \<lparr>aes_iv = [], aes_key = [7]\<rparr>\<rparr>\<rparr>\<rparr>
   in unannounced x (snd (peer_feed se (replicate 20 7) x)) \<and> pc_io (snd (send_on_stream se 5 [9] x)) = []
    \<and> (\<exists>b. pc_io (snd (send_on_stream se 5 [9] y)) = [Udp_send b (mk_address [] 1)])"
proof -
  let ?se = "sample_setting [1] [2] [3] [4]"
  let ?x = "\<lparr>pc_peer = (greeted ?se (mk_address [] 1))\<lparr>p_streams := [(5, stream_new 5)]\<rparr>, pc_rnd = 0, pc_io = []\<rparr>"
  let ?y = "?x\<lparr>pc_peer := (pc_peer ?x)\<lparr>p_handler := Echo_handler, p_state := established, p_timer := None,
      p_dh := (p_dh (pc_peer ?x))\<lparr>dh_epriv := Some [1], dh_peer_spub := Some [1], dh_peer_epub := Some [1]\<rparr>,
      p_encrypt := Some \<lparr>encryptor = \<lparr>aes_iv = [], aes_key = [7]\<rparr>\<rparr>\<rparr>\<rparr>"
  have "p_handler (pc_peer ?x) \<noteq> Established_handler" "\<not> has_bits established (pc_peer ?x)"
    by (simp_all add: greeted_def peer_blank_def)
  with no_data_before_established [of ?x ?se "replicate 20 7" 5 "[9]"]
  have 1: "unannounced ?x (snd (peer_feed ?se (replicate 20 7) ?x)) \<and> pc_io (snd (send_on_stream ?se 5 [9] ?x)) = []"
    by (simp del: has_bits_simps)
  have "has_bits established (pc_peer ?y)" by (simp add: has_bits_def)
  moreover have "setting_ok ?se" by (simp add: sample_setting_ok)
  moreover have "streams_ok [(5, stream_new 5)]" using streams_ok_new [OF streams_ok_Nil, of 5] by simp
  then have "peer_ok ?se (pc_peer ?y)"
    by (simp add: peer_ok_defs reachable_def sample_setting_def greeted_def peer_blank_def set_static_key_pairs_def)
      (simp add: established_def hello_complete_def public_key_exchanged_def bit_or_iff)
  moreover have "enqueue_segments 5 0 [9] 0 [] = [(0, segment 5 0 [9] 0)]"
    by (subst enqueue_segments.simps, subst enqueue_segments.simps) (simp add: Let_def segment_max_def segment_def)
  then have "\<exists>d. snd (stream_send [9] (stream_new 5)) = [Send_datagram d]"
    by (simp add: stream_new_def stream_send_def current_max_offset_def send_one_datagram_def)
  ultimately have "\<exists>b. pc_io (snd (send_on_stream ?se 5 [9] ?y)) = [Udp_send b (mk_address [] 1)]"
    using no_data_before_established [of ?y ?se "replicate 20 7" 5 "[9]" "stream_new 5"]
    by (auto simp: greeted_def peer_blank_def simp del: has_bits_simps)
  with 1 show ?thesis by (simp add: Let_def)
qed

text \<open>
  A hello that arrives at an established peer tears the session down: the streams, the key
  and the cipher are dropped, a hello is sent and the received one acknowledged, and the peer is
  back in the hello state with both hello bits set.
\<close>

theorem established_hello_resets:
  assumes "setting_ok se" and "peer_ok se (pc_peer x)"
    and "p_handler (pc_peer x) = Established_handler" and "dg_type d = Hello"
  shows "\<exists>x'. established_handler se d x = (Inr (), x')
    \<and> p_handler (pc_peer x') = Hello_handler
    \<and> p_state (pc_peer x') = received_hello OR sent_hello
    \<and> p_streams (pc_peer x') = [] \<and> p_key (pc_peer x') = None \<and> p_encrypt (pc_peer x') = None
    \<and> p_id (pc_peer x') = dg_payload d
    \<and> pc_io x' = pc_io x @
        [Udp_send (datagram_wire (create_hello (conf_id (se_conf se)))) (p_addr (pc_peer x)),
         Udp_send (datagram_wire (create_ack 0 0)) (p_addr (pc_peer x))]"
proof -
  have ready: "has_bits established (pc_peer x)" and r: "reachable se (pc_peer x)"
    using assms(2,3) by (auto simp: peer_ok_def handler_ok_def)
  have "wp (established_handler se d) (\<lambda>_ x'. p_handler (pc_peer x') = Hello_handler
      \<and> p_state (pc_peer x') = received_hello OR sent_hello
      \<and> p_streams (pc_peer x') = [] \<and> p_key (pc_peer x') = None \<and> p_encrypt (pc_peer x') = None
      \<and> p_id (pc_peer x') = dg_payload d
      \<and> pc_io x' = pc_io x @
        [Udp_send (datagram_wire (create_hello (conf_id (se_conf se)))) (p_addr (pc_peer x)),
         Udp_send (datagram_wire (create_ack 0 0)) (p_addr (pc_peer x))]) (\<lambda>_ _. False) x"
    using assms(1,4) ready r
    by (simp add: established_handler_def peer_reset_def received_hello_handler_def wps
        send_hello_eval wp_send_ack setting_ok_def del: has_bits_simps)
      (simp add: ac_simps)
  then show ?thesis
    by (auto simp: wp_def split: prod.splits sum.splits)
qed

text \<open>An established peer of the sample setting.\<close>

definition sample_established :: pctx where
  "sample_established =
     \<lparr>pc_peer = (greeted (sample_setting [1] [2] [3] [4]) (mk_address [] 1))
        \<lparr>p_state := established, p_handler := Established_handler, p_timer := None,
         p_dh := \<lparr>dh_spriv = Some [2], dh_spub = Some [2], dh_epriv = Some [5], dh_epub = Some [5],
           dh_peer_spub = Some [4], dh_peer_epub = Some [6], dh_shared = Some [6, 3]\<rparr>,
         p_encrypt := Some \<lparr>encryptor = \<lparr>aes_iv = replicate 16 0, aes_key = replicate 16 1\<rparr>\<rparr>\<rparr>,
      pc_rnd = 0, pc_io = []\<rparr>"

lemma sample_established_ok:
  "peer_ok (sample_setting [1] [2] [3] [4]) (pc_peer sample_established)"
  "p_handler (pc_peer sample_established) = Established_handler"
  "p_streams (pc_peer sample_established) = []"
  by (simp_all add: sample_established_def peer_ok_defs reachable_def sample_setting_def greeted_def
      peer_blank_def streams_ok_Nil)
    (simp_all add: established_def hello_complete_def public_key_exchanged_def bit_or_iff)

lemma established_hello_resets_witness:
  "\<exists>x'. established_handler (sample_setting [1] [2] [3] [4]) (create_hello [3]) sample_established = (Inr (), x')
    \<and> p_handler (pc_peer x') = Hello_handler \<and> p_encrypt (pc_peer x') = None"
proof -
  have "setting_ok (sample_setting [1] [2] [3] [4])" by (rule sample_setting_ok) simp
  moreover have "dg_type (create_hello [3]) = Hello" by (simp add: create_hello_def)
  ultimately show ?thesis
    using established_hello_resets [OF _ sample_established_ok(1,2)] by blast
qed

lemma late_timer_eval:
  assumes "reachable se (pc_peer x)" and "small d"
  shows "peer_late_timer se d x = (Inr (), x\<lparr>pc_io := pc_io x @ [Udp_send (datagram_wire d) (p_addr (pc_peer x))],
    pc_peer := (pc_peer x)\<lparr>p_timer := Some d\<rparr>\<rparr>)"
  using assms by (intro wp_run) (simp add: peer_late_timer_def retransmit_raw_datagram_def wp_send_retransmit)

lemma hello_over_wire:
  assumes "setting_ok se" and "peer_ok se (pc_peer x)"
    and "p_handler (pc_peer x) = Established_handler" and "length i \<le> 2 ^ 30 - 13"
  shows "\<exists>x'. peer_feed se (datagram_wire (create_hello i)) x = (Inr (), x')
    \<and> p_handler (pc_peer x') = Hello_handler \<and> p_streams (pc_peer x') = []
    \<and> p_encrypt (pc_peer x') = None \<and> p_id (pc_peer x') = i
    \<and> pc_io x' = pc_io x @
        [Udp_send (datagram_wire (create_hello (conf_id (se_conf se)))) (p_addr (pc_peer x)),
         Udp_send (datagram_wire (create_ack 0 0)) (p_addr (pc_peer x))]"
proof -
  have hello: "dg_type (create_hello i) = Hello" "dg_payload (create_hello i) = i"
    by (simp_all add: create_hello_def)
  have "datagram_of_bytes (datagram_wire (create_hello i)) = Inr (create_hello i)"
    using assms(4) hello wire_datagram_wire [of "create_hello i"]
    by (simp add: datagram_of_bytes_eq length_datagram_wire named_type_def)
  then have "peer_feed se (datagram_wire (create_hello i)) x = established_handler se (create_hello i) x"
    using assms(3) by (simp add: peer_feed_def run_handler_def act pget_def)
  then show ?thesis
    using established_hello_resets [OF assms(1-3) hello(1)] hello(2) by fastforce
qed

text \<open>
  C12: A hello timer that had expired when the acknowledgement cancelled it destroys the session at
  both ends: its handler, run at an established peer, sends the hello once more and arms the timer
  again; the hello tears the session down at the other end, which answers with a hello of its
  own, and that one tears it down at this end too.
\<close>

theorem late_hello_timer_destroys_session:
  assumes ok: "setting_ok sa" "setting_ok sb" "peer_ok sa (pc_peer x)" "peer_ok sb (pc_peer y)"
    and up: "p_handler (pc_peer x) = Established_handler" "p_handler (pc_peer y) = Established_handler"
    and io: "pc_io x = []" "pc_io y = []"
  shows "\<exists>x1 y1 x2 hello answer.
    peer_late_timer sa (create_hello (conf_id (se_conf sa))) x = (Inr (), x1)
    \<and> pc_io x1 = [Udp_send hello (p_addr (pc_peer x))] \<and> p_timer (pc_peer x1) \<noteq> None
    \<and> p_handler (pc_peer x1) = Established_handler
    \<and> peer_feed sb hello y = (Inr (), y1)
    \<and> p_handler (pc_peer y1) = Hello_handler \<and> p_streams (pc_peer y1) = [] \<and> p_encrypt (pc_peer y1) = None
    \<and> hd (pc_io y1) = Udp_send answer (p_addr (pc_peer y))
    \<and> peer_feed sa answer x1 = (Inr (), x2)
    \<and> p_handler (pc_peer x2) = Hello_handler \<and> p_streams (pc_peer x2) = [] \<and> p_encrypt (pc_peer x2) = None"
proof -
  let ?ia = "conf_id (se_conf sa)" and ?ib = "conf_id (se_conf sb)"
  have len: "length ?ia \<le> 2 ^ 30 - 13" "length ?ib \<le> 2 ^ 30 - 13"
    using ok by (simp_all add: setting_ok_def)
  obtain x1 where x1: "peer_late_timer sa (create_hello ?ia) x = (Inr (), x1)"
      "pc_io x1 = [Udp_send (datagram_wire (create_hello ?ia)) (p_addr (pc_peer x))]"
      "p_timer (pc_peer x1) = Some (create_hello ?ia)" "p_handler (pc_peer x1) = Established_handler"
    using late_timer_eval [of sa x "create_hello ?ia"] ok(3) up(1) io(1) len(1) by (auto simp: peer_ok_def)
  have "tame sa (peer_late_timer sa (create_hello ?ia)) x"
    using ok(3) len(1) by (intro late_timer_tame) simp_all
  then have x1_ok: "peer_ok sa (pc_peer x1)" using x1(1) by (simp add: tame_def wp_def)
  obtain y1 where y1: "peer_feed sb (datagram_wire (create_hello ?ia)) y = (Inr (), y1)"
      "p_handler (pc_peer y1) = Hello_handler" "p_streams (pc_peer y1) = []" "p_encrypt (pc_peer y1) = None"
      "hd (pc_io y1) = Udp_send (datagram_wire (create_hello ?ib)) (p_addr (pc_peer y))"
    using hello_over_wire [OF ok(2,4) up(2) len(1)] io(2) by auto
  obtain x2 where "peer_feed sa (datagram_wire (create_hello ?ib)) x1 = (Inr (), x2)"
      "p_handler (pc_peer x2) = Hello_handler" "p_streams (pc_peer x2) = []" "p_encrypt (pc_peer x2) = None"
    using hello_over_wire [OF ok(1) x1_ok x1(4) len(2)] by auto
  then show ?thesis using x1 y1 by blast
qed

lemma late_hello_timer_destroys_session_witness:
  "\<exists>x1 y1. peer_late_timer (sample_setting [1] [2] [3] [4]) (create_hello [1]) sample_established = (Inr (), x1)
    \<and> p_handler (pc_peer x1) = Established_handler
    \<and> peer_feed (sample_setting [1] [2] [3] [4]) (datagram_wire (create_hello [1])) sample_established = (Inr (), y1)
    \<and> p_handler (pc_peer y1) = Hello_handler \<and> p_encrypt (pc_peer y1) = None"
proof -
  let ?se = "sample_setting [1] [2] [3] [4]"
  have se: "setting_ok ?se" by (rule sample_setting_ok) simp
  have fields: "conf_id (se_conf ?se) = [1]" "pc_io sample_established = []"
    by (simp_all add: sample_setting_def sample_conf_def configuration_new_def sample_established_def)
  have "peer_late_timer ?se (create_hello [1]) sample_established = (Inr (), x1) \<Longrightarrow>
      pc_io x1 = [Udp_send (datagram_wire (create_hello [1])) (p_addr (pc_peer sample_established))]" for x1
    using late_timer_eval [of ?se sample_established "create_hello [1]"] sample_established_ok(1) fields(2)
    by (auto simp: peer_ok_def)
  then show ?thesis
    using late_hello_timer_destroys_session [OF se se sample_established_ok(1,1,2,2) fields(2,2)]
    unfolding fields(1) by fastforce
qed

text \<open>
  An acknowledgement carries nothing about what it acknowledges: in the key exchange any one,
  also a late one for the hello, counts as the acknowledgement of the public key and stops its
  retransmission, whether or not the peer has received the key.
\<close>

theorem any_ack_stops_public_key:
  assumes "p_handler (pc_peer x) = Public_key_exchange_handler" and "dg_type d = Ack"
    and "\<not> bit (p_state (pc_peer x)) 5"
  shows "run_handler se d x = (Inr (), x\<lparr>pc_peer := (pc_peer x)
    \<lparr>p_state := p_state (pc_peer x) OR received_public_key_ack, p_timer := None\<rparr>\<rparr>)"
  using assms
  by (intro wp_run) (simp add: run_handler_def public_key_exchange_handler_def
      received_public_key_ack_handler_def wps bit_or_iff)

lemma any_ack_stops_public_key_witness:
  "\<exists>x se. p_timer (pc_peer x) \<noteq> None \<and> p_timer (pc_peer (snd (run_handler se (create_ack 0 0) x))) = None"
proof -
  let ?p = "(greeted (sample_setting [1] [2] [3] [4]) (mk_address [] 1))\<lparr>p_handler := Public_key_exchange_handler\<rparr>"
  let ?x = "\<lparr>pc_peer = ?p, pc_rnd = 0, pc_io = []\<rparr>"
  have "run_handler (sample_setting [1] [2] [3] [4]) (create_ack 0 0) ?x = (Inr (), ?x\<lparr>pc_peer := ?p
      \<lparr>p_state := p_state ?p OR received_public_key_ack, p_timer := None\<rparr>\<rparr>)"
    using any_ack_stops_public_key [of ?x "create_ack 0 0"] by (simp add: create_ack_def greeted_def)
  then show ?thesis
    by (intro exI [of _ ?x] exI [of _ "sample_setting [1] [2] [3] [4]"]) (simp add: greeted_def)
qed

text \<open>
  A late acknowledgement or public key of the handshake that arrives at an established peer is
  taken for stream data: it opens a stream with the id in its header and reports it to the user.
\<close>

theorem late_ack_opens_stream:
  assumes "peer_ok se (pc_peer x)" and "p_handler (pc_peer x) = Established_handler"
    and "dg_type d = Ack" and "dg_payload d = []" and "map_of (p_streams (pc_peer x)) (dg_id d) = None"
  shows "\<exists>x'. run_handler se d x = (Inr (), x')
    \<and> pc_io x' = pc_io x @ [Output (New_stream (p_addr (pc_peer x)) (dg_id d))]
    \<and> map_of (p_streams (pc_peer x')) (dg_id d) = Some (stream_new (dg_id d))"
proof -
  have ready: "has_bits established (pc_peer x)" and sorted: "sorted_keys (p_streams (pc_peer x))"
    using assms(1,2) by (auto simp: peer_ok_def handler_ok_def streams_ok_def)
  obtain el where el: "p_encrypt (pc_peer x) = Some el"
    using assms(1) ready by (auto simp: peer_ok_def keys_ok_def)
  have plain: "decrypt_payload (se_crypto se) d = ret d"
    using assms(4) by (simp add: decrypt_payload_def)
  have unfed: "stream_feed a d s = (s, [])" for a s
    using assms(3) by (simp add: stream_feed_other)
  note ins = smap.insert_new [OF sorted assms(5)]
  have "wp (run_handler se d) (\<lambda>_ x'.
      pc_io x' = pc_io x @ [Output (New_stream (p_addr (pc_peer x)) (dg_id d))]
      \<and> map_of (p_streams (pc_peer x')) (dg_id d) = Some (stream_new (dg_id d))) (\<lambda>_ _. False) x"
    using assms(2-5) ready el sorted ins
    by (simp add: run_handler_def established_handler_def feed_stream_def on_stream_def
        peer_get_stream_def wps wp_on_encrypt_layer plain unfed smap.find_assign smap.ok_insert
        del: has_bits_simps)
  then show ?thesis
    by (auto simp: wp_def split: prod.splits sum.splits)
qed

lemma late_ack_opens_stream_witness:
  "\<exists>x'. run_handler (sample_setting [1] [2] [3] [4]) (create_ack 0 0) sample_established = (Inr (), x')
    \<and> map_of (p_streams (pc_peer x')) 0 = Some (stream_new 0)"
proof -
  have "dg_type (create_ack 0 0) = Ack" "dg_payload (create_ack 0 0) = []" "dg_id (create_ack 0 0) = 0"
    by (simp_all add: create_ack_def datagram_new_def)
  then show ?thesis
    using late_ack_opens_stream [OF sample_established_ok(1,2), of "create_ack 0 0"] sample_established_ok(3)
    by auto
qed

text \<open>
  C35: Every datagram a peer transmits for a stream, encrypted and encoded, has at most 1029 bytes
  and so fits into the receive buffer of 1500 bytes at the other end.
\<close>

theorem stream_datagrams_fit:
  assumes "setting_ok se" and "peer_ok se (pc_peer x)"
    and "peer_get_stream i (pc_peer x) = Some s"
    and "Send_datagram d \<in> set (snd (stream_send data s)) \<or> Send_datagram d \<in> set (snd (stream_feed a d' s))
      \<or> Send_datagram d \<in> set (snd (stream_timer_fires s))"
    and "fst (encrypt_payload (se_crypto se) n d el) = Inr e"
  shows "\<exists>bs. datagram_bytes e = Inr bs \<and> length bs \<le> 1029"
proof -
  have s: "stream_ok s"
    using assms(2,3) streams_ok_find by (auto simp: peer_ok_def peer_get_stream_def)
  then have short: "length (dg_payload d) \<le> 1000"
    using assms(4) small_sends_send [OF s] small_sends_feed [OF s] small_sends_timer [OF s]
    by (auto simp: small_sends_def segment_max_def)
  have "cfb_ok (se_crypto se)" using assms(1) by (simp add: setting_ok_def)
  then have "length (dg_payload e) \<le> 16 + length (dg_payload d)"
    using assms(5) by (auto simp: encrypt_payload_eval cfb_ok_def split: if_splits)
  then show ?thesis
    using short by (simp add: datagram_write_ok length_datagram_wire)
qed

lemma stream_datagrams_fit_witness:
  "\<exists>d e bs. snd (stream_send [1] (stream_new 0)) = [Send_datagram d]
    \<and> fst (encrypt_payload sample_crypto 0 d \<lparr>encryptor = \<lparr>aes_iv = [], aes_key = [7]\<rparr>\<rparr>) = Inr e
    \<and> datagram_bytes e = Inr bs \<and> length bs \<le> 1029"
proof -
  let ?se = "sample_setting [1] [2] [3] [4]" and ?el = "\<lparr>encryptor = \<lparr>aes_iv = [], aes_key = [7 :: byte]\<rparr>\<rparr>"
  let ?x = "sample_established\<lparr>pc_peer := (pc_peer sample_established)\<lparr>p_streams := [(0, stream_new 0)]\<rparr>\<rparr>"
  let ?d = "datagram_new\<lparr>dg_type := Data, dg_id := 0, dg_length := 1, dg_offset := 0, dg_payload := [1]\<rparr>"
  have se: "setting_ok ?se" by (rule sample_setting_ok) simp
  have "streams_ok [(0, stream_new 0)]" using streams_ok_new [OF streams_ok_Nil, of 0] by simp
  then have ok: "peer_ok ?se (pc_peer ?x)" using sample_established_ok(1) by (simp add: peer_ok_streams)
  have sent: "snd (stream_send [1] (stream_new 0)) = [Send_datagram ?d]" by code_simp
  obtain e where e: "fst (encrypt_payload (se_crypto ?se) 0 ?d ?el) = Inr e"
    by (cases "fst (encrypt_payload (se_crypto ?se) 0 ?d ?el)") (auto simp: encrypt_payload_eval)
  have "peer_get_stream 0 (pc_peer ?x) = Some (stream_new 0)" by (simp add: peer_get_stream_def)
  from stream_datagrams_fit [OF se ok this _ e, of "[1]"] sent e show ?thesis
    by (auto simp: sample_setting_def)
qed

end
