(* ===== verification/Handshake.thy ===== *)
theory Handshake
  imports Peer_Lifetime
begin

text \<open>
  Two peers, each the code's, whose datagrams reach each other: in rounds, everything one side
  sent in a round is fed to the other side in the next. The handshake completes after six
  rounds and both ends hold the same cipher key.
\<close>

section \<open>Rounds\<close>

fun to_network :: "io list \<Rightarrow> bytes list" where
  "to_network [] = []"
| "to_network (Udp_send b a # es) = b # to_network es"
| "to_network (_ # es) = to_network es"

definition receive_all :: "setting \<Rightarrow> bytes list \<Rightarrow> pctx \<Rightarrow> pctx" where
  "receive_all se msgs x = snd (for_each (peer_feed se) msgs (x\<lparr>pc_io := []\<rparr>))"

definition exchange_round :: "setting \<Rightarrow> setting \<Rightarrow> pctx \<times> pctx \<Rightarrow> pctx \<times> pctx" where
  "exchange_round sa sb = (\<lambda>(x, y).
     (receive_all sa (to_network (pc_io y)) x, receive_all sb (to_network (pc_io x)) y))"

lemma feed_wire:
  "named_type (dg_type d) \<Longrightarrow> small d \<Longrightarrow> wp (peer_feed se (datagram_wire d)) Q E x = wp (run_handler se d) Q E x"
  by (simp add: peer_feed_def wps datagram_of_bytes_eq length_datagram_wire small_def wire_datagram_wire)

lemma receive_one:
  assumes "wp (peer_feed se msg) (\<lambda>_. P) (\<lambda>_ _. False) (x\<lparr>pc_io := []\<rparr>)"
  shows "P (receive_all se [msg] x)"
  using assms by (auto simp: receive_all_def wp_def act split: prod.splits sum.splits)

lemma named_types [simp]:
  "named_type Hello" "named_type Ack" "named_type Public_key" "named_type Echo" "named_type Echo_back"
  by (simp_all add: named_type_def)

lemma create_types [simp]:
  "dg_type (create_hello i) = Hello" "dg_type (create_ack n off) = Ack"
  "dg_type (create_public_key k) = Public_key" "dg_type (create_echo e) = Echo"
  "dg_type (create_echo_back d) = Echo_back"
  "dg_payload (create_hello i) = i" "dg_payload (create_public_key k) = k"
  "dg_payload (create_echo e) = e" "dg_payload (create_echo_back d) = dg_payload d"
  by (simp_all add: create_defs)

section \<open>The stages of one side\<close>

text \<open>The state of one side after a round: handler, state bits, keys, and what it just sent.\<close>

definition stage :: "setting \<Rightarrow> address \<Rightarrow> handler \<Rightarrow> nat set \<Rightarrow> nat \<Rightarrow> dh_key_agreement \<Rightarrow> datagram \<Rightarrow> pctx \<Rightarrow> bool" where
  "stage se a h bits n dh out x \<longleftrightarrow> reachable se (pc_peer x) \<and> p_addr (pc_peer x) = a
     \<and> p_streams (pc_peer x) = []
     \<and> p_handler (pc_peer x) = h \<and> (\<forall>i. bit (p_state (pc_peer x)) i \<longleftrightarrow> i \<in> bits)
     \<and> p_dh (pc_peer x) = dh \<and> pc_rnd x = n \<and> pc_io x = [Udp_send (datagram_wire out) a]"

definition knows :: "bytes \<Rightarrow> bytes \<Rightarrow> pctx \<Rightarrow> bool" where
  "knows i spub x \<longleftrightarrow> p_id (pc_peer x) = i \<and> p_peer_spub (pc_peer x) = spub"

definition side :: "setting \<Rightarrow> address \<Rightarrow> handler \<Rightarrow> nat set \<Rightarrow> nat \<Rightarrow> dh_key_agreement \<Rightarrow> datagram
    \<Rightarrow> bytes \<Rightarrow> bytes \<Rightarrow> pctx \<Rightarrow> bool" where
  "side se a h bits n dh out i spub x \<longleftrightarrow> stage se a h bits n dh out x \<and> knows i spub x"

lemmas side_defs = side_def stage_def knows_def

definition static_dh :: "setting \<Rightarrow> dh_key_agreement" where
  "static_dh se = set_static_key_pairs (hex_str_to_bytes (se_crypto se) (conf_privkey (se_conf se)))
     (hex_str_to_bytes (se_crypto se) (conf_pubkey (se_conf se))) dh_blank"

definition ephemeral_dh :: "setting \<Rightarrow> nat \<Rightarrow> dh_key_agreement" where
  "ephemeral_dh se n = generate_ephemeral_key_pairs (se_crypto se) n (static_dh se)"

definition trusted_spub :: "setting \<Rightarrow> bytes \<Rightarrow> bytes" where
  "trusted_spub se i = hex_str_to_bytes (se_crypto se) (get_peer_public_key_by_id (se_conf se) i)"

definition epub :: "setting \<Rightarrow> nat \<Rightarrow> bytes" where
  "epub se n = snd (ephemeral_pair (se_crypto se) n)"

text \<open>A datagram received on its own, from a state whose outputs have been collected.\<close>

definition hears :: "setting \<Rightarrow> datagram \<Rightarrow> (pctx \<Rightarrow> bool) \<Rightarrow> pctx \<Rightarrow> bool" where
  "hears se d P x \<longleftrightarrow> wp (run_handler se d) (\<lambda>_. P) (\<lambda>_ _. False) (x\<lparr>pc_io := []\<rparr>)"

lemma hears_receive:
  assumes "hears se d P x" and "named_type (dg_type d)" and "small d"
  shows "P (receive_all se [datagram_wire d] x)"
  using assms receive_one [where P = P and se = se and msg = "datagram_wire d" and x = x]
  by (simp add: feed_wire hears_def)

lemma round_1:
  assumes "stage se a Hello_handler {0} n dh out x"
  shows "hears se (create_hello i)
    (side se a Hello_handler {0, 2} n dh (create_ack 0 0) i (trusted_spub se i)) x"
  using assms
  by (auto simp: hears_def run_handler_def hello_handler_def received_hello_handler_def side_defs wps
      wp_send_ack bit_or_iff trusted_spub_def)

lemma round_2:
  assumes "setting_ok se" and "side se a Hello_handler {0, 2} n (static_dh se) out i k x"
  shows "hears se (create_ack 0 0) (side se a Public_key_exchange_handler {0, 1, 2, 3} (Suc n)
    (ephemeral_dh se n) (create_public_key (epub se n)) i k) x"
  using assms
  by (auto simp: hears_def run_handler_def hello_handler_def received_hello_ack_handler_def
      hello_complete_handler_def send_public_key_def side_defs wps wp_send_retransmit bit_or_iff
      setting_ok_def epub_def ephemeral_dh_def generate_ephemeral_key_pairs_def
      ephemeral_pub_key_def block_of_def)

lemma round_3:
  assumes "side se a Public_key_exchange_handler {0, 1, 2, 3} n dh out i k x"
  shows "hears se (create_public_key e) (side se a Public_key_exchange_handler {0, 1, 2, 3, 5} n
    (set_peer_pub_key_pairs k e dh) (create_ack 0 0) i k) x"
  using assms
  by (auto simp: hears_def run_handler_def public_key_exchange_handler_def
      received_public_key_handler_def side_defs wps wp_send_ack bit_or_iff)

text \<open>Once the key is agreed, the cipher holds the folded key and the echo is outstanding.\<close>

definition keyed :: "bytes \<Rightarrow> pctx \<Rightarrow> bool" where
  "keyed k x \<longleftrightarrow> p_sent_echo (pc_peer x) = Some (create_echo (str ''1234567890''))
     \<and> (\<exists>el. p_encrypt (pc_peer x) = Some el \<and> el_key el = fold_key (drop 16 k) 16 (take 16 k))"

lemma el_new_long:
  "16 \<le> length k \<Longrightarrow> \<exists>el. el_new c n AES_128 (Some k) = Inr el \<and> el_key el = fold_key (drop 16 k) 16 (take 16 k)"
  by (auto simp: el_new_def aes_new_def aes_set_key_def key_length_def el_key_def act Let_def)

text \<open>The echo of a side that holds the key \<open>k\<close> is outstanding.\<close>

definition echoing :: "setting \<Rightarrow> address \<Rightarrow> nat \<Rightarrow> dh_key_agreement \<Rightarrow> datagram \<Rightarrow> bytes \<Rightarrow> bytes \<Rightarrow> bytes
    \<Rightarrow> pctx \<Rightarrow> bool" where
  "echoing se a n dh out i pk k x \<longleftrightarrow>
     side se a Echo_handler {0, 1, 2, 3, 4, 5, 6, 7} n dh out i pk x \<and> keyed k x"

lemma round_4:
  assumes "side se a Public_key_exchange_handler {0, 1, 2, 3, 5} n dh out i pk x"
    and "dh_spriv dh = Some s1" "dh_epriv dh = Some e1" "dh_peer_spub dh = Some s2" "dh_peer_epub dh = Some e2"
    and "dh2_agree (se_crypto se) s1 e1 s2 e2 = Some k" and "16 \<le> length k"
  shows "hears se (create_ack 0 0) (echoing se a (Suc n) (dh\<lparr>dh_shared := Some k\<rparr>)
    (create_echo (str ''1234567890'')) i pk k) x"
proof -
  obtain el where el: "el_new (se_crypto se) n AES_128 (Some k) = Inr el"
      "el_key el = fold_key (drop 16 k) 16 (take 16 k)"
    using el_new_long [OF assms(7)] by blast
  have gen: "wp (generate_shared_key (se_crypto se)) Q E dh = Q () (dh\<lparr>dh_shared := Some k\<rparr>)" for Q E
    using assms(2-6) by (simp add: wp_def generate_shared_key_def)
  have "small (create_echo (str ''1234567890''))" by simp
  then show ?thesis
    using assms(1) el
    by (auto simp: hears_def run_handler_def public_key_exchange_handler_def
        received_public_key_ack_handler_def public_key_exchange_complete_handler_def
        peer_generate_shared_key_def send_echo_def echoing_def side_defs wps wp_send_retransmit bit_or_iff
        keyed_def gen shared_key_def block_of_def)
qed

lemma round_5:
  assumes "echoing se a n dh out i pk k x" and "small (create_echo e)"
  shows "hears se (create_echo e) (echoing se a n dh (create_echo_back (create_echo e)) i pk k) x"
  using assms
  by (auto simp: hears_def run_handler_def echo_handler_def received_echo_handler_def echoing_def
      side_defs wps wp_send_raw keyed_def)

definition connected :: "setting \<Rightarrow> bytes \<Rightarrow> address \<Rightarrow> bytes \<Rightarrow> pctx \<Rightarrow> bool" where
  "connected se i a k x \<longleftrightarrow> reachable se (pc_peer x) \<and> p_addr (pc_peer x) = a \<and> p_streams (pc_peer x) = []
     \<and> p_handler (pc_peer x) = Established_handler
     \<and> has_bits established (pc_peer x) \<and> keyed k x \<and> p_timer (pc_peer x) = None
     \<and> pc_io x = [Output (New_peer i a)]"

lemma round_6:
  assumes "echoing se a n dh out i pk k x"
  shows "hears se (create_echo_back (create_echo (str ''1234567890''))) (connected se i a k) x"
  using assms
  by (auto simp: hears_def run_handler_def echo_handler_def received_echo_back_handler_def echoing_def
      connected_def side_defs wps keyed_def bit_and_iff bit_not_iff)

section \<open>Completion\<close>

definition static_priv :: "setting \<Rightarrow> bytes" where
  "static_priv se = hex_str_to_bytes (se_crypto se) (conf_privkey (se_conf se))"

definition static_pub :: "setting \<Rightarrow> bytes" where
  "static_pub se = hex_str_to_bytes (se_crypto se) (conf_pubkey (se_conf se))"

definition epriv :: "setting \<Rightarrow> nat \<Rightarrow> bytes" where
  "epriv se n = fst (ephemeral_pair (se_crypto se) n)"

text \<open>Each side is configured with the public key of the other.\<close>

definition mutual_trust :: "setting \<Rightarrow> setting \<Rightarrow> bool" where
  "mutual_trust sa sb \<longleftrightarrow> trusted_spub sa (conf_id (se_conf sb)) = static_pub sb
     \<and> trusted_spub sb (conf_id (se_conf sa)) = static_pub sa"

text \<open>The contract of the agreement: from matching key pairs both sides compute the same secret,
  at least one cipher key long.\<close>

definition agreement_ok :: "setting \<Rightarrow> setting \<Rightarrow> bool" where
  "agreement_ok sa sb \<longleftrightarrow> (\<forall>n m. \<exists>k. 16 \<le> length k
     \<and> dh2_agree (se_crypto sa) (static_priv sa) (epriv sa n) (static_pub sb) (epub sb m) = Some k
     \<and> dh2_agree (se_crypto sb) (static_priv sb) (epriv sb m) (static_pub sa) (epub sa n) = Some k)"

lemma peer_new_Inr:
  assumes "setting_ok se" and "peer_new se a n = (Inr p, n', out)"
  shows "stage se a Hello_handler {0} n (static_dh se) (create_hello (conf_id (se_conf se)))
    \<lparr>pc_peer = p, pc_rnd = n', pc_io = out\<rparr>"
proof -
  have new: "peer_ok se p" "p_addr p = a" using peer_new_cases [OF assms(1), of a n] assms(2) by simp_all
  then have "se_valid_ip se (ip_addr a)" by (simp add: peer_ok_def reachable_def)
  moreover have "group_valid (se_crypto se)" "subgroup_order_ok (se_crypto se)"
    using assms(2) by (auto simp: peer_new_def dh_new_def split: if_splits)
  ultimately have "p = greeted se a" "n' = n" "out = [Udp_send (datagram_wire (create_hello (conf_id (se_conf se)))) a]"
    using peer_new_eval [OF assms(1)] assms(2) by simp_all
  then show ?thesis
    using new by (simp add: stage_def greeted_def peer_blank_def static_dh_def peer_ok_def)
qed

lemma dh_fields [simp]:
  "dh_spriv (set_peer_pub_key_pairs k e (ephemeral_dh se n)) = Some (static_priv se)"
  "dh_epriv (set_peer_pub_key_pairs k e (ephemeral_dh se n)) = Some (epriv se n)"
  "dh_peer_spub (set_peer_pub_key_pairs k e dh) = Some k"
  "dh_peer_epub (set_peer_pub_key_pairs k e dh) = Some e"
  by (simp_all add: set_peer_pub_key_pairs_def ephemeral_dh_def generate_ephemeral_key_pairs_def
      static_dh_def set_static_key_pairs_def static_priv_def epriv_def)

text \<open>A round takes both sides from one stage to the next.\<close>

lemma round_pair:
  assumes "to_network (pc_io x) = [datagram_wire d]" and "to_network (pc_io y) = [datagram_wire d']"
    and "hears sa d' P x" and "hears sb d Q y"
    and "named_type (dg_type d)" "named_type (dg_type d')" "small d" "small d'"
  shows "\<exists>x' y'. exchange_round sa sb (x, y) = (x', y') \<and> P x' \<and> Q y'"
  using assms hears_receive by (fastforce simp: exchange_round_def)

lemma stage_sent:
  "stage se a h bits n dh d x \<Longrightarrow> to_network (pc_io x) = [datagram_wire d]"
  "side se a h bits n dh d i pk x \<Longrightarrow> to_network (pc_io x) = [datagram_wire d]"
  "echoing se a n dh d i pk k x \<Longrightarrow> to_network (pc_io x) = [datagram_wire d]"
  by (simp_all add: echoing_def side_defs)

text \<open>The first three rounds exchange names and keys, the last three agree on the secret.\<close>

lemma keys_exchanged:
  assumes ok: "setting_ok sa" "setting_ok sb"
    and s0: "stage sa b Hello_handler {0} n (static_dh sa) (create_hello ia) x"
      "stage sb a Hello_handler {0} m (static_dh sb) (create_hello ib) y"
    and small: "small (create_hello ia)" "small (create_hello ib)"
  shows "\<exists>x' y'. (exchange_round sa sb ^^ 3) (x, y) = (x', y')
    \<and> side sa b Public_key_exchange_handler {0, 1, 2, 3, 5} (Suc n)
        (set_peer_pub_key_pairs (trusted_spub sa ib) (epub sb m) (ephemeral_dh sa n))
        (create_ack 0 0) ib (trusted_spub sa ib) x'
    \<and> side sb a Public_key_exchange_handler {0, 1, 2, 3, 5} (Suc m)
        (set_peer_pub_key_pairs (trusted_spub sb ia) (epub sa n) (ephemeral_dh sb m))
        (create_ack 0 0) ia (trusted_spub sb ia) y'"
proof -
  have pk: "small (create_public_key (epub sa n))" "small (create_public_key (epub sb m))"
    using ok by (simp_all add: setting_ok_def epub_def)
  obtain x1 y1 where r1: "exchange_round sa sb (x, y) = (x1, y1)"
    and s1: "side sa b Hello_handler {0, 2} n (static_dh sa) (create_ack 0 0) ib (trusted_spub sa ib) x1"
      "side sb a Hello_handler {0, 2} m (static_dh sb) (create_ack 0 0) ia (trusted_spub sb ia) y1"
    using round_pair [OF stage_sent(1) [OF s0(1)] stage_sent(1) [OF s0(2)] round_1 [OF s0(1)] round_1 [OF s0(2)]]
      small by auto
  obtain x2 y2 where r2: "exchange_round sa sb (x1, y1) = (x2, y2)"
    and s2: "side sa b Public_key_exchange_handler {0, 1, 2, 3} (Suc n) (ephemeral_dh sa n)
        (create_public_key (epub sa n)) ib (trusted_spub sa ib) x2"
      "side sb a Public_key_exchange_handler {0, 1, 2, 3} (Suc m) (ephemeral_dh sb m)
        (create_public_key (epub sb m)) ia (trusted_spub sb ia) y2"
    using round_pair [OF stage_sent(2) [OF s1(1)] stage_sent(2) [OF s1(2)]
        round_2 [OF ok(1) s1(1)] round_2 [OF ok(2) s1(2)]] by auto
  show ?thesis
    using round_pair [OF stage_sent(2) [OF s2(1)] stage_sent(2) [OF s2(2)] round_3 [OF s2(1)] round_3 [OF s2(2)]]
      pk r1 r2 by (auto simp: numeral_3_eq_3)
qed

lemma key_agreed:
  assumes s3: "side sa b Public_key_exchange_handler {0, 1, 2, 3, 5} n dh (create_ack 0 0) ib pb x"
      "side sb a Public_key_exchange_handler {0, 1, 2, 3, 5} m dh' (create_ack 0 0) ia pa y"
    and hears: "hears sa (create_ack 0 0) (echoing sa b n1 dh1 (create_echo (str ''1234567890'')) ib pb k) x"
      "hears sb (create_ack 0 0) (echoing sb a m1 dh1' (create_echo (str ''1234567890'')) ia pa k) y"
  shows "\<exists>x' y'. (exchange_round sa sb ^^ 3) (x, y) = (x', y') \<and> connected sa ib b k x' \<and> connected sb ia a k y'"
proof -
  let ?e = "create_echo (str ''1234567890'')"
  have small: "small ?e" "small (create_echo_back ?e)" by simp_all
  obtain x4 y4 where r4: "exchange_round sa sb (x, y) = (x4, y4)"
    and s4: "echoing sa b n1 dh1 ?e ib pb k x4" "echoing sb a m1 dh1' ?e ia pa k y4"
    using round_pair [OF stage_sent(2) [OF s3(1)] stage_sent(2) [OF s3(2)] hears]
    by auto
  obtain x5 y5 where r5: "exchange_round sa sb (x4, y4) = (x5, y5)"
    and s5: "echoing sa b n1 dh1 (create_echo_back ?e) ib pb k x5" "echoing sb a m1 dh1' (create_echo_back ?e) ia pa k y5"
    using round_pair [OF stage_sent(3) [OF s4(1)] stage_sent(3) [OF s4(2)]
        round_5 [OF s4(1) small(1)] round_5 [OF s4(2) small(1)]] small by auto
  show ?thesis
    using round_pair [OF stage_sent(3) [OF s5(1)] stage_sent(3) [OF s5(2)] round_6 [OF s5(1)] round_6 [OF s5(2)]]
      small r4 r5 by (auto simp: numeral_3_eq_3)
qed

text \<open>Six exchanges connect two peers that trust each other.\<close>

lemma handshake_connected:
  assumes ok: "setting_ok sa" "setting_ok sb"
    and trust: "mutual_trust sa sb" and agree: "agreement_ok sa sb"
    and new: "peer_new sa b n = (Inr p, n', out)" "peer_new sb a m = (Inr q, m', out')"
  shows "\<exists>x y k. (exchange_round sa sb ^^ 6) (\<lparr>pc_peer = p, pc_rnd = n', pc_io = out\<rparr>,
      \<lparr>pc_peer = q, pc_rnd = m', pc_io = out'\<rparr>) = (x, y)
    \<and> connected sa (conf_id (se_conf sb)) b k x \<and> connected sb (conf_id (se_conf sa)) a k y"
proof -
  let ?ia = "conf_id (se_conf sa)" and ?ib = "conf_id (se_conf sb)"
  let ?x = "\<lparr>pc_peer = p, pc_rnd = n', pc_io = out\<rparr>" and ?y = "\<lparr>pc_peer = q, pc_rnd = m', pc_io = out'\<rparr>"
  have small: "small (create_hello ?ia)" "small (create_hello ?ib)"
    using ok by (simp_all add: setting_ok_def)
  have spub: "trusted_spub sa ?ib = static_pub sb" "trusted_spub sb ?ia = static_pub sa"
    using trust by (simp_all add: mutual_trust_def)
  obtain k where k: "16 \<le> length k"
      "dh2_agree (se_crypto sa) (static_priv sa) (epriv sa n) (static_pub sb) (epub sb m) = Some k"
      "dh2_agree (se_crypto sb) (static_priv sb) (epriv sb m) (static_pub sa) (epub sa n) = Some k"
    using agree unfolding agreement_ok_def by blast
  obtain x3 y3 where r3: "(exchange_round sa sb ^^ 3) (?x, ?y) = (x3, y3)"
    and s3: "side sa b Public_key_exchange_handler {0, 1, 2, 3, 5} (Suc n)
        (set_peer_pub_key_pairs (static_pub sb) (epub sb m) (ephemeral_dh sa n))
        (create_ack 0 0) ?ib (static_pub sb) x3"
      "side sb a Public_key_exchange_handler {0, 1, 2, 3, 5} (Suc m)
        (set_peer_pub_key_pairs (static_pub sa) (epub sa n) (ephemeral_dh sb m))
        (create_ack 0 0) ?ia (static_pub sa) y3"
    using keys_exchanged [OF ok peer_new_Inr [OF ok(1) new(1)] peer_new_Inr [OF ok(2) new(2)] small]
    unfolding spub by blast
  obtain x y where r6: "(exchange_round sa sb ^^ 3) (x3, y3) = (x, y)"
    and s6: "connected sa ?ib b k x" "connected sb ?ia a k y"
    using key_agreed [OF s3 round_4 [OF s3(1) dh_fields k(2,1)] round_4 [OF s3(2) dh_fields k(3,1)]] by blast
  have "(exchange_round sa sb ^^ (3 + 3)) (?x, ?y) = (x, y)"
    unfolding funpow_add using r3 r6 by simp
  then have "(exchange_round sa sb ^^ 6) (?x, ?y) = (x, y)" by simp
  then show ?thesis using s6 by blast
qed

text \<open>Two peers of the sample settings that have just been constructed.\<close>

definition sample_a :: setting where
  "sample_a = sample_setting [1] [2] [3] [4]"

definition sample_b :: setting where
  "sample_b = sample_setting [3] [4] [1] [2]"

definition sample_x :: pctx where
  "sample_x = \<lparr>pc_peer = greeted sample_a (mk_address [] 2), pc_rnd = 0,
     pc_io = [Udp_send (datagram_wire (create_hello [1])) (mk_address [] 2)]\<rparr>"

definition sample_y :: pctx where
  "sample_y = \<lparr>pc_peer = greeted sample_b (mk_address [] 1), pc_rnd = 7,
     pc_io = [Udp_send (datagram_wire (create_hello [3])) (mk_address [] 1)]\<rparr>"

lemma sample_pair:
  "setting_ok sample_a" "setting_ok sample_b" "mutual_trust sample_a sample_b" "agreement_ok sample_a sample_b"
  "peer_new sample_a (mk_address [] 2) 0 = (Inr (greeted sample_a (mk_address [] 2)), 0,
     [Udp_send (datagram_wire (create_hello [1])) (mk_address [] 2)])"
  "peer_new sample_b (mk_address [] 1) 7 = (Inr (greeted sample_b (mk_address [] 1)), 7,
     [Udp_send (datagram_wire (create_hello [3])) (mk_address [] 1)])"
proof -
  show ok: "setting_ok sample_a" "setting_ok sample_b"
    by (simp_all add: sample_a_def sample_b_def sample_setting_ok)
  have id: "conf_id (se_conf sample_a) = [1]" "conf_id (se_conf sample_b) = [3]"
    by (simp_all add: sample_a_def sample_b_def sample_setting_def sample_conf_def configuration_new_def)
  show "peer_new sample_a (mk_address [] 2) 0 = (Inr (greeted sample_a (mk_address [] 2)), 0,
     [Udp_send (datagram_wire (create_hello [1])) (mk_address [] 2)])"
    using peer_new_eval [OF ok(1), of "mk_address [] 2" 0] unfolding id
    by (simp add: sample_a_def sample_setting_def sample_crypto_def)
  show "peer_new sample_b (mk_address [] 1) 7 = (Inr (greeted sample_b (mk_address [] 1)), 7,
     [Udp_send (datagram_wire (create_hello [3])) (mk_address [] 1)])"
    using peer_new_eval [OF ok(2), of "mk_address [] 1" 7] unfolding id
    by (simp add: sample_b_def sample_setting_def sample_crypto_def)
  show "mutual_trust sample_a sample_b"
    by (simp add: sample_a_def sample_b_def mutual_trust_def trusted_spub_def static_pub_def
        hex_str_to_bytes_def sample_setting_def sample_crypto_def sample_conf_def
        configuration_new_def get_peer_public_key_by_id_def)
  show "agreement_ok sample_a sample_b"
    by (simp add: sample_a_def sample_b_def agreement_ok_def static_priv_def static_pub_def epriv_def
        epub_def hex_str_to_bytes_def sample_setting_def sample_crypto_def sample_conf_def
        configuration_new_def zip_replicate xor.commute)
qed

text \<open>
  C6: Two peers that trust each other's public keys and whose datagrams get through complete the
  handshake in six exchanges: both become established, with the same cipher key and no timer
  left, and each reports the other as a new peer.
\<close>

theorem handshake_completes:
  assumes ok: "setting_ok sa" "setting_ok sb"
    and trust: "mutual_trust sa sb" and agree: "agreement_ok sa sb"
    and new: "peer_new sa b n = (Inr p, n', out)" "peer_new sb a m = (Inr q, m', out')"
  shows "\<exists>x y el el'. (exchange_round sa sb ^^ 6) (\<lparr>pc_peer = p, pc_rnd = n', pc_io = out\<rparr>,
      \<lparr>pc_peer = q, pc_rnd = m', pc_io = out'\<rparr>) = (x, y)
    \<and> p_handler (pc_peer x) = Established_handler \<and> p_handler (pc_peer y) = Established_handler
    \<and> has_bits established (pc_peer x) \<and> has_bits established (pc_peer y)
    \<and> p_encrypt (pc_peer x) = Some el \<and> p_encrypt (pc_peer y) = Some el' \<and> el_key el = el_key el'
    \<and> p_timer (pc_peer x) = None \<and> p_timer (pc_peer y) = None
    \<and> pc_io x = [Output (New_peer (conf_id (se_conf sb)) b)]
    \<and> pc_io y = [Output (New_peer (conf_id (se_conf sa)) a)]"
  using handshake_connected [OF assms] unfolding connected_def keyed_def by fastforce

lemma handshake_completes_witness:
  "\<exists>x y el el'. (exchange_round sample_a sample_b ^^ 6) (sample_x, sample_y) = (x, y)
    \<and> p_handler (pc_peer x) = Established_handler \<and> p_handler (pc_peer y) = Established_handler
    \<and> p_encrypt (pc_peer x) = Some el \<and> p_encrypt (pc_peer y) = Some el' \<and> el_key el = el_key el'"
  using handshake_completes [OF sample_pair(1-4) sample_pair(5,6)]
  unfolding sample_x_def sample_y_def by blast

end
