(* ===== verification/Segments.thy ===== *)
theory Segments
  imports Stream
begin

text \<open>
  What a stream does with its data: the segmentation of \<^verbatim>\<open>send\<close> against a specification
  (\<open>segments\<close>), what is lost when something is still unacknowledged, reassembly in order at
  the receiver, and the state in which the receiver stops delivering.
\<close>

section \<open>Words and offsets\<close>

lemma unat_offset: "n < 2 ^ 32 \<Longrightarrow> unat (word_of_nat n :: u32) = n"
  by (simp add: unat_of_nat)

lemma offset_add: "(word_of_nat m :: u32) + word_of_nat n = word_of_nat (m + n)"
  by simp

lemma offset_less: "m < 2 ^ 32 \<Longrightarrow> n < 2 ^ 32 \<Longrightarrow> (word_of_nat m :: u32) < word_of_nat n \<longleftrightarrow> m < n"
  by (simp add: word_less_nat_alt unat_offset)

section \<open>Segmentation\<close>

text \<open>The specification: consecutive pieces of at most \<open>segment_max\<close> bytes, keyed by position.\<close>

definition data_segment :: "u32 \<Rightarrow> nat \<Rightarrow> bytes \<Rightarrow> datagram" where
  "data_segment i pos p = datagram_new\<lparr>dg_type := Data, dg_id := i,
     dg_length := word_of_nat (length p), dg_offset := word_of_nat pos, dg_payload := p\<rparr>"

function segments :: "u32 \<Rightarrow> nat \<Rightarrow> bytes \<Rightarrow> segment_map" where
  "segments i pos [] = []"
| "data \<noteq> [] \<Longrightarrow> segments i pos data =
     (word_of_nat pos, data_segment i pos (take segment_max data))
       # segments i (pos + length (take segment_max data)) (drop segment_max data)"
  by (metis surj_pair) auto
termination
  by (relation "measure (\<lambda>(i, pos, data). length data)") (auto simp: segment_max_def)

lemma data_segment_fields [simp]:
  "dg_type (data_segment i pos p) = Data" "dg_id (data_segment i pos p) = i"
  "dg_offset (data_segment i pos p) = word_of_nat pos"
  "dg_length (data_segment i pos p) = word_of_nat (length p)"
  "dg_payload (data_segment i pos p) = p"
  by (simp_all add: data_segment_def)

lemma segment_eq:
  "segment i base data off = data_segment i (base + off) (take segment_max (drop off data))"
  by (simp add: segment_def data_segment_def Let_def min_def add.commute)

lemma drop_piece: "drop (off + length (take m (drop off xs))) xs = drop m (drop off xs)"
  by (cases "m \<le> length xs - off") (simp_all add: add.commute min_def)

lemma enqueue_segments_step:
  "off < length data \<Longrightarrow> enqueue_segments i base data off q =
     enqueue_segments i base data (off + length (take segment_max (drop off data)))
       (map_insert (word_of_nat (base + off)) (segment i base data off) q)"
  by (subst enqueue_segments.simps)
    (auto simp: Let_def min_def segment_eq simp del: of_nat_add)

lemma enqueue_segments_end: "off \<ge> length data \<Longrightarrow> enqueue_segments i base data off q = q"
  by (subst enqueue_segments.simps) simp

lemma enqueue_segments_fresh:
  assumes "base + length data \<le> 2 ^ 32" and "off \<le> length data"
    and "\<forall>k \<in> fst ` set q. unat k < base + off"
  shows "enqueue_segments i base data off q = q @ segments i (base + off) (drop off data)"
  using assms(2,3)
proof (induction "length data - off" arbitrary: off q rule: less_induct)
  case less
  show ?case
  proof (cases "off < length data")
    case False
    with less.prems show ?thesis by (simp add: enqueue_segments_end)
  next
    case True
    let ?n = "length (take segment_max (drop off data))"
    let ?k = "word_of_nat (base + off) :: u32" and ?d = "segment i base data off"
    have n: "0 < ?n" "off + ?n \<le> length data"
      using True by (auto simp: segment_max_def)
    have k: "unat ?k = base + off"
      using True assms(1) by (intro unat_offset) simp
    then have "map_insert ?k ?d q = q @ [(?k, ?d)]"
      using less.prems(2) by (intro map_insert_last) (simp add: word_less_nat_alt)
    then have "enqueue_segments i base data off q = enqueue_segments i base data (off + ?n) (q @ [(?k, ?d)])"
      using enqueue_segments_step [OF True] by simp
    also have "\<dots> = (q @ [(?k, ?d)]) @ segments i (base + (off + ?n)) (drop (off + ?n) data)"
    proof (rule less.hyps)
      show "length data - (off + ?n) < length data - off" using n True by linarith
      show "\<forall>k \<in> fst ` set (q @ [(?k, ?d)]). unat k < base + (off + ?n)"
        using less.prems(2) k n by auto
    qed (rule n(2))
    also have "\<dots> = q @ segments i (base + off) (drop off data)"
      using True by (simp add: segment_eq drop_piece add.assoc del: length_take length_drop of_nat_add drop_drop)
    finally show ?thesis .
  qed
qed

text \<open>What the segments of some data are.\<close>

lemma segments_payloads: "concat (map (dg_payload \<circ> snd) (segments i pos data)) = data"
  by (induction i pos data rule: segments.induct) auto

lemma segments_bounds:
  "e \<in> set (segments i pos data) \<Longrightarrow> pos + length data < 2 ^ 32 \<Longrightarrow>
   1 \<le> length (dg_payload (snd e)) \<and> length (dg_payload (snd e)) \<le> 1000
   \<and> fst e = dg_offset (snd e) \<and> dg_type (snd e) = Data \<and> dg_id (snd e) = i
   \<and> dg_length (snd e) = word_of_nat (length (dg_payload (snd e)))
   \<and> pos \<le> unat (fst e) \<and> unat (fst e) + length (dg_payload (snd e)) \<le> pos + length data"
proof (induction i pos data rule: segments.induct)
  case (1 i pos)
  then show ?case by simp
next
  case (2 data i pos)
  let ?p = "take segment_max data"
  have len: "length ?p + length (drop segment_max data) = length data"
    by (metis append_take_drop_id length_append)
  have pos: "unat (word_of_nat pos :: u32) = pos"
    using "2.prems"(2) by (intro unat_offset) simp
  show ?case
  proof (cases "e = (word_of_nat pos, data_segment i pos ?p)")
    case True
    then show ?thesis using "2.hyps" pos len by (auto simp: segment_max_def Suc_le_eq)
  next
    case False
    with "2.prems" "2.hyps" have "e \<in> set (segments i (pos + length ?p) (drop segment_max data))"
      by simp
    moreover have "pos + length ?p + length (drop segment_max data) < 2 ^ 32"
      using "2.prems"(2) len by linarith
    ultimately have "1 \<le> length (dg_payload (snd e)) \<and> length (dg_payload (snd e)) \<le> 1000
      \<and> fst e = dg_offset (snd e) \<and> dg_type (snd e) = Data \<and> dg_id (snd e) = i
      \<and> dg_length (snd e) = word_of_nat (length (dg_payload (snd e)))
      \<and> pos + length ?p \<le> unat (fst e)
      \<and> unat (fst e) + length (dg_payload (snd e)) \<le> pos + length ?p + length (drop segment_max data)"
      using "2.IH" by blast
    with len show ?thesis by (elim conjE) (intro conjI; linarith | assumption)
  qed
qed

lemma segments_lower:
  "e \<in> set (segments i pos data) \<Longrightarrow> pos + length data < 2 ^ 32 \<Longrightarrow> pos \<le> unat (fst e)"
  using segments_bounds by blast

lemma sorted_segments: "pos + length data < 2 ^ 32 \<Longrightarrow> sorted_keys (segments i pos data)"
proof (induction i pos data rule: segments.induct)
  case (1 i pos)
  then show ?case by simp
next
  case (2 data i pos)
  let ?p = "take segment_max data"
  have len: "length ?p + length (drop segment_max data) = length data"
    by (metis append_take_drop_id length_append)
  have n: "0 < length ?p" using "2.hyps" by (simp add: segment_max_def)
  have "\<forall>e \<in> set (segments i (pos + length ?p) (drop segment_max data)). pos < unat (fst e)"
  proof
    fix e assume "e \<in> set (segments i (pos + length ?p) (drop segment_max data))"
    from segments_lower [OF this] len "2.prems" have "pos + length ?p \<le> unat (fst e)" by simp
    with n show "pos < unat (fst e)" by linarith
  qed
  moreover have "unat (word_of_nat pos :: u32) = pos"
    using "2.prems" by (intro unat_offset) simp
  ultimately show ?case
    using 2 len by (simp add: word_less_nat_alt)
qed

lemma segments_content:
  "e \<in> set (segments i pos data) \<Longrightarrow> pos + length data < 2 ^ 32 \<Longrightarrow>
   dg_payload (snd e) = take (length (dg_payload (snd e))) (drop (unat (fst e) - pos) data)"
proof (induction i pos data rule: segments.induct)
  case (1 i pos)
  then show ?case by simp
next
  case (2 data i pos)
  let ?p = "take segment_max data" and ?r = "drop segment_max data"
  have len: "length ?p + length ?r = length data"
    by (metis append_take_drop_id length_append)
  show ?case
  proof (cases "e = (word_of_nat pos, data_segment i pos ?p)")
    case True
    then show ?thesis using "2.prems"(2) by (simp add: unat_offset min_def)
  next
    case False
    with "2.prems" "2.hyps" have e: "e \<in> set (segments i (pos + length ?p) ?r)" by simp
    have bound: "pos + length ?p + length ?r < 2 ^ 32" using "2.prems"(2) len by linarith
    have low: "pos + length ?p \<le> unat (fst e)" by (rule segments_lower [OF e bound])
    then obtain m where m: "unat (fst e) = pos + length ?p + m"
      using le_Suc_ex by blast
    have "drop (length ?p + m) data = drop (length ?p + m) (?p @ ?r)" by simp
    also have "\<dots> = drop m ?r" by (simp only: drop_append) simp
    finally have "drop (unat (fst e) - pos) data = drop (unat (fst e) - (pos + length ?p)) ?r"
      using m by simp
    then show ?thesis using "2.IH" [OF e bound] by simp
  qed
qed

lemma segments_full:
  "e \<in> set (segments i pos data) \<Longrightarrow> pos + length data < 2 ^ 32 \<Longrightarrow>
   length (dg_payload (snd e)) = 1000 \<or> unat (fst e) + length (dg_payload (snd e)) = pos + length data"
proof (induction i pos data rule: segments.induct)
  case (1 i pos)
  then show ?case by simp
next
  case (2 data i pos)
  let ?p = "take segment_max data" and ?r = "drop segment_max data"
  have len: "length ?p + length ?r = length data"
    by (metis append_take_drop_id length_append)
  show ?case
  proof (cases "e = (word_of_nat pos, data_segment i pos ?p)")
    case True
    then show ?thesis using "2.prems"(2) by (auto simp: unat_offset segment_max_def)
  next
    case False
    with "2.prems" "2.hyps" have e: "e \<in> set (segments i (pos + length ?p) ?r)" by simp
    moreover have "pos + length ?p + length ?r < 2 ^ 32" using "2.prems"(2) len by linarith
    ultimately show ?thesis using "2.IH" len by (metis add.assoc)
  qed
qed

lemma segments_aligned:
  "e \<in> set (segments i pos data) \<Longrightarrow> pos + length data < 2 ^ 32 \<Longrightarrow> pos mod 1000 = 0 \<Longrightarrow>
   unat (fst e) mod 1000 = 0"
proof (induction i pos data rule: segments.induct)
  case (1 i pos)
  then show ?case by simp
next
  case (2 data i pos)
  let ?p = "take segment_max data" and ?r = "drop segment_max data"
  have len: "length ?p + length ?r = length data"
    by (metis append_take_drop_id length_append)
  show ?case
  proof (cases "e = (word_of_nat pos, data_segment i pos ?p)")
    case True
    then show ?thesis using "2.prems" by (simp add: unat_offset)
  next
    case False
    with "2.prems" "2.hyps" have e: "e \<in> set (segments i (pos + length ?p) ?r)" by simp
    then have "?r \<noteq> []" by auto
    then have "length ?p = 1000" by (simp add: segment_max_def)
    then have mod: "(pos + length ?p) mod 1000 = 0" using "2.prems"(3)
      by (simp only: mod_add_self2)
    have bound: "pos + length ?p + length ?r < 2 ^ 32" using "2.prems"(2) len by linarith
    show ?thesis by (rule "2.IH" [OF e bound mod])
  qed
qed

lemma segments_last:
  "data \<noteq> [] \<Longrightarrow> pos + length data < 2 ^ 32 \<Longrightarrow> \<exists>e \<in> set (segments i pos data).
     unat (fst e) + length (dg_payload (snd e)) = pos + length data"
proof (induction i pos data rule: segments.induct)
  case (1 i pos)
  then show ?case by simp
next
  case (2 data i pos)
  let ?p = "take segment_max data" and ?r = "drop segment_max data"
  have len: "length ?p + length ?r = length data"
    by (metis append_take_drop_id length_append)
  show ?case
  proof (cases "?r = []")
    case True
    then show ?thesis using "2.prems" len by (auto simp: unat_offset)
  next
    case False
    moreover have "pos + length ?p + length ?r < 2 ^ 32" using "2.prems"(2) len by linarith
    ultimately obtain e where "e \<in> set (segments i (pos + length ?p) ?r)"
        "unat (fst e) + length (dg_payload (snd e)) = pos + length ?p + length ?r"
      using "2.IH" by blast
    then show ?thesis using "2.hyps" len by (intro bexI [of _ e]) simp_all
  qed
qed

section \<open>Sending\<close>

lemma stream_send_fresh:
  assumes "st_send_queue s = []" and "unat (st_send_offset s) + length data < 2 ^ 32"
  shows "stream_send data s = send_one_datagram
    (s\<lparr>st_send_queue := segments (st_id s) (unat (st_send_offset s)) data\<rparr>)"
  using assms enqueue_segments_fresh
    [of "unat (st_send_offset s)" data 0 "[]" "st_id s"]
  by (simp add: stream_send_def current_max_offset_def)

lemma erase_sent_segments:
  "pos + length data < 2 ^ 32 \<Longrightarrow> erase_sent (word_of_nat pos) (segments i pos data) = segments i pos data"
  by (intro erase_sent_none ballI)
    (use segments_lower [of _ i pos data] in \<open>simp add: word_le_nat_alt unat_offset\<close>)

end
