(* ===== verification/Reassembly.thy ===== *)
theory Reassembly
  imports Segments
begin

text \<open>
  The receiving half of a stream: what is delivered to the output ring when the network hands
  over pieces of some data, and the state in which nothing is ever delivered again.
\<close>

section \<open>Observing the effects\<close>

fun delivered :: "effect list \<Rightarrow> bytes" where
  "delivered [] = []"
| "delivered (Put (Recv_data a i p) # es) = p @ delivered es"
| "delivered (_ # es) = delivered es"

fun sent :: "effect list \<Rightarrow> datagram list" where
  "sent [] = []"
| "sent (Send_datagram d # es) = d # sent es"
| "sent (Put m # es) = sent es"

lemma sent_append [simp]: "sent (es @ fs) = sent es @ sent fs"
  by (induction es rule: sent.induct) auto

lemma delivered_append [simp]: "delivered (es @ fs) = delivered es @ delivered fs"
  by (induction es rule: delivered.induct) auto

lemma delivered_send_one [simp]: "delivered (snd (send_one_datagram s)) = []"
  by (auto simp: send_one_effects split: list.splits)

lemma delivered_ack [simp]: "delivered (send_ack s) = []"
  by (simp add: send_ack_def)

fun feed_all :: "address \<Rightarrow> datagram list \<Rightarrow> stream \<Rightarrow> stream \<times> effect list" where
  "feed_all addr [] s = (s, [])"
| "feed_all addr (d # ds) s =
     (case stream_feed addr d s of (s1, es1) \<Rightarrow>
        (case feed_all addr ds s1 of (s2, es2) \<Rightarrow> (s2, es1 @ es2)))"

lemma feed_all_Cons:
  "fst (feed_all addr (d # ds) s) = fst (feed_all addr ds (fst (stream_feed addr d s)))"
  "snd (feed_all addr (d # ds) s) =
     snd (stream_feed addr d s) @ snd (feed_all addr ds (fst (stream_feed addr d s)))"
  by (simp_all split: prod.splits)

section \<open>Pieces of the data\<close>

definition genuine :: "bytes \<Rightarrow> datagram \<Rightarrow> bool" where
  "genuine data d \<longleftrightarrow> dg_type d = Data
     \<and> dg_length d = word_of_nat (length (dg_payload d))
     \<and> unat (dg_offset d) + length (dg_payload d) \<le> length data
     \<and> dg_payload d = take (length (dg_payload d)) (drop (unat (dg_offset d)) data)
     \<and> (length (dg_payload d) = 1000 \<or> unat (dg_offset d) + length (dg_payload d) = length data)"

text \<open>The positions at which a segment can end.\<close>

definition boundary :: "bytes \<Rightarrow> nat \<Rightarrow> bool" where
  "boundary data n \<longleftrightarrow> n mod 1000 = 0 \<or> n = length data"

lemma boundary_step:
  assumes "genuine data d" and "boundary data (unat (dg_offset d))"
  shows "boundary data (unat (dg_offset d) + length (dg_payload d))"
  using assms by (auto simp: boundary_def genuine_def)

definition holds_pieces :: "bytes \<Rightarrow> segment_map \<Rightarrow> bool" where
  "holds_pieces data q \<longleftrightarrow> (\<forall>e \<in> set q. fst e = dg_offset (snd e) \<and> genuine data (snd e))"

lemma holds_pieces_simps [simp]:
  "holds_pieces data []"
  "holds_pieces data ((k, d) # q) \<longleftrightarrow> k = dg_offset d \<and> genuine data d \<and> holds_pieces data q"
  by (auto simp: holds_pieces_def)

lemma holds_pieces_assign:
  "holds_pieces data q \<Longrightarrow> genuine data d \<Longrightarrow> holds_pieces data (map_assign (dg_offset d) d q)"
  by (induction "dg_offset d" d q rule: map_assign.induct) auto

lemma holds_pieces_erase: "holds_pieces data q \<Longrightarrow> holds_pieces data (erase_sent off q)"
  using set_erase_sent [of off q] by (auto simp: holds_pieces_def)

lemma holds_pieces_segments:
  assumes "length data < 2 ^ 32"
  shows "holds_pieces data (segments i 0 data)"
  unfolding holds_pieces_def
proof
  fix e assume e: "e \<in> set (segments i 0 data)"
  have b: "0 + length data < 2 ^ 32" using assms by simp
  note bounds = segments_bounds [OF e b] and content = segments_content [OF e b]
    and full = segments_full [OF e b]
  from bounds have k: "fst e = dg_offset (snd e)" by blast
  from content k have "dg_payload (snd e) =
      take (length (dg_payload (snd e))) (drop (unat (dg_offset (snd e))) data)" by simp
  with bounds k full show "fst e = dg_offset (snd e) \<and> genuine data (snd e)"
    unfolding genuine_def by (intro conjI) simp_all
qed

section \<open>In-order delivery\<close>

lemma drain_delivers:
  assumes "length data < 2 ^ 32"
  shows "holds_pieces data q \<Longrightarrow> unat off \<le> length data \<Longrightarrow> drain addr i q off = (q', off', es) \<Longrightarrow>
     unat off' \<le> length data \<and> take (unat off) data @ delivered es = take (unat off') data
     \<and> holds_pieces data q' \<and> unat off \<le> unat off'
     \<and> (boundary data (unat off) \<longrightarrow> boundary data (unat off'))"
proof (induction addr i q off arbitrary: q' off' es rule: drain.induct)
  case (1 addr i off)
  then show ?case by simp
next
  case (2 addr i k d q off)
  show ?case
  proof (cases "k = off")
    case False
    with "2.prems" show ?thesis by auto
  next
    case True
    let ?n = "length (dg_payload d)"
    from "2.prems"(1) True have g: "genuine data d" "dg_offset d = off" by simp_all
    then have n: "unat off + ?n \<le> length data" by (simp add: genuine_def)
    have "unat (off + dg_length d) = unat off + ?n"
      using g n assms by (simp add: genuine_def unat_word_ariths unat_of_nat)
    moreover obtain q1 off1 es1 where d: "drain addr i q (off + dg_length d) = (q1, off1, es1)"
      by (cases "drain addr i q (off + dg_length d)")
    moreover have "take (unat off) data @ dg_payload d = take (unat off + ?n) data"
      using g by (simp add: genuine_def take_add)
    moreover have "boundary data (unat off) \<longrightarrow> boundary data (unat off + ?n)"
      using boundary_step [OF g(1)] g(2) by simp
    ultimately show ?thesis
      using "2.IH" [OF True _ _ d] "2.prems" True n by (auto simp flip: append_assoc)
  qed
qed

definition receiving :: "bytes \<Rightarrow> bytes \<Rightarrow> stream \<Rightarrow> bool" where
  "receiving data got s \<longleftrightarrow> holds_pieces data (st_recv_queue s)
     \<and> unat (st_recv_offset s) \<le> length data \<and> boundary data (unat (st_recv_offset s))
     \<and> got = take (unat (st_recv_offset s)) data"

lemma receiving_drain:
  assumes "length data < 2 ^ 32" and "receiving data got s"
  shows "receiving data (got @ delivered (snd (drain_received addr s))) (fst (drain_received addr s))"
  using assms drain_delivers [OF assms(1), of "st_recv_queue s" "st_recv_offset s"]
  by (auto simp: receiving_def drain_received_def Let_def split: list.splits prod.splits)

lemma recv_offset_drain:
  assumes "length data < 2 ^ 32" and "receiving data got s"
  shows "unat (st_recv_offset s) \<le> unat (st_recv_offset (fst (drain_received addr s)))"
  using assms drain_delivers [OF assms(1), of "st_recv_queue s" "st_recv_offset s"]
  by (auto simp: receiving_def drain_received_def Let_def split: list.splits prod.splits)

lemma sent_puts: "drain addr i q off = (q', off', es) \<Longrightarrow> sent es = []"
  by (induction addr i q off arbitrary: off' es rule: drain.induct) (auto split: if_splits prod.splits)

lemma sent_drain:
  "d \<in> set (sent (snd (drain_received addr s))) \<Longrightarrow>
     dg_type d = Data_ack \<and> dg_offset d = st_recv_offset (fst (drain_received addr s))"
  by (auto simp: drain_received_def Let_def send_ack_def sent_puts split: list.splits prod.splits if_splits)

lemma receiving_feed:
  assumes "length data < 2 ^ 32" and "receiving data got s" and "genuine data d \<or> dg_type d = Data_ack"
  shows "receiving data (got @ delivered (snd (stream_feed addr d s))) (fst (stream_feed addr d s))"
  using assms(3)
proof
  assume g: "genuine data d"
  then have "receiving data got (s\<lparr>st_recv_queue := map_assign (dg_offset d) d (st_recv_queue s)\<rparr>)"
    using assms(2) by (simp add: receiving_def holds_pieces_assign)
  then show ?thesis
    using g receiving_drain [OF assms(1)] by (simp add: genuine_def stream_feed_data)
next
  assume t: "dg_type d = Data_ack"
  have "receiving data got (fst (send_one_datagram (s\<lparr>st_send_offset := dg_offset d\<rparr>)))"
    using assms(2) by (simp add: receiving_def)
  then show ?thesis
    using t receiving_drain [OF assms(1)] by (simp add: stream_feed_ack Let_def)
qed

section \<open>The stuck receiver\<close>

text \<open>
  The first segment waiting lies below the receive offset: the drain loop never gets past it.
\<close>

definition stuck :: "stream \<Rightarrow> bool" where
  "stuck s \<longleftrightarrow> (case map_first (st_recv_queue s) of
     None \<Rightarrow> False | Some (k, d) \<Rightarrow> k < st_recv_offset s)"

lemma stuck_drain: "stuck s \<Longrightarrow> drain_received addr s = (s, [])"
  by (cases "st_recv_queue s") (auto simp: stuck_def drain_received_def)

lemma stuck_assign:
  assumes "stream_ok s" and "stuck s"
  shows "stuck (s\<lparr>st_recv_queue := map_assign k d (st_recv_queue s)\<rparr>)"
proof -
  obtain j x where "map_first (st_recv_queue s) = Some (j, x)" "j < st_recv_offset s"
    using assms(2) by (auto simp: stuck_def split: option.splits)
  then obtain k' w where "map_first (map_assign k d (st_recv_queue s)) = Some (k', w)"
      "k' < st_recv_offset s"
    using assms(1) smap.assign_first_blocked [of "st_recv_queue s" j x "st_recv_offset s" k d]
    unfolding stream_ok_def by blast
  then show ?thesis by (simp add: stuck_def)
qed

lemma stuck_feed:
  assumes "stream_ok s" and "stuck s"
  shows "stuck (fst (stream_feed addr d s)) \<and> delivered (snd (stream_feed addr d s)) = []
    \<and> st_recv_offset (fst (stream_feed addr d s)) = st_recv_offset s"
proof -
  consider "dg_type d = Data \<or> dg_type d = Abort" | "dg_type d = Data_ack"
    | "dg_type d \<notin> {Data, Abort, Data_ack}" by blast
  then show ?thesis
  proof cases
    case 1
    then show ?thesis
      using stuck_drain [OF stuck_assign [OF assms]] stuck_assign [OF assms]
      by (simp add: stream_feed_data)
  next
    case 2
    have "stuck (fst (send_one_datagram (s\<lparr>st_send_offset := dg_offset d\<rparr>)))"
      using assms(2) by (auto simp: stuck_def split: option.splits)
    then show ?thesis using 2 by (simp add: stream_feed_ack Let_def stuck_drain)
  next
    case 3
    then show ?thesis using assms(2) by (simp add: stream_feed_other)
  qed
qed

lemma stuck_feed_all:
  "stream_ok s \<Longrightarrow> stuck s \<Longrightarrow> delivered (snd (feed_all addr ds s)) = []
     \<and> st_recv_offset (fst (feed_all addr ds s)) = st_recv_offset s"
proof (induction ds arbitrary: s)
  case Nil
  then show ?case by simp
next
  case (Cons d ds)
  then show ?case
    using stuck_feed [of s addr d] stream_ok_feed [of s addr d]
    by (fastforce split: prod.splits)
qed

section \<open>Properties of a stream\<close>

text \<open>A segment delivered on arrival, to a receiver with nothing waiting.\<close>

lemma feed_next_segment:
  assumes "dg_type d = Data" and "st_recv_queue s = []" and "dg_offset d = st_recv_offset s"
  shows "stream_feed addr d s =
    (let s' = s\<lparr>st_recv_queue := [], st_recv_offset := st_recv_offset s + dg_length d\<rparr>
     in (s', Put (Recv_data addr (st_id s) (dg_payload d)) # send_ack s'))"
  using assms by (simp add: stream_feed_data drain_received_def Let_def)

lemma feed_stale_segment:
  assumes "dg_type d = Data" and "st_recv_queue s = []" and "dg_offset d < st_recv_offset s"
  shows "stream_feed addr d s = (s\<lparr>st_recv_queue := [(dg_offset d, d)]\<rparr>, [])"
  using assms by (auto simp: stream_feed_data drain_received_def)

text \<open>
  C16: Sending on a stream that has nothing unacknowledged queues the data cut into consecutive
  pieces of at most 1000 bytes, each with its offset and length, arms the timer and sends the
  first piece only; the payloads of the queue in order are the data.
\<close>

theorem stream_send_segments:
  assumes "st_send_queue s = []" and "unat (st_send_offset s) + length data < 2 ^ 32"
  shows "st_send_queue (fst (stream_send data s)) = segments (st_id s) (unat (st_send_offset s)) data
    \<and> concat (map (dg_payload \<circ> snd) (st_send_queue (fst (stream_send data s)))) = data
    \<and> (st_timer (fst (stream_send data s)) \<longleftrightarrow> data \<noteq> [])
    \<and> snd (stream_send data s) =
        (if data = [] then [] else
           [Send_datagram (data_segment (st_id s) (unat (st_send_offset s)) (take segment_max data))])"
proof -
  let ?q = "segments (st_id s) (unat (st_send_offset s)) data"
  have e: "erase_sent (st_send_offset s) ?q = ?q"
    using erase_sent_segments [OF assms(2)] by simp
  have "?q = [] \<longleftrightarrow> data = []" by (cases "data = []") simp_all
  moreover have "data \<noteq> [] \<Longrightarrow> \<exists>t. ?q =
      (st_send_offset s, data_segment (st_id s) (unat (st_send_offset s)) (take segment_max data)) # t"
    by simp
  ultimately show ?thesis
    using assms e by (auto simp: stream_send_fresh send_one_timer send_one_effects segments_payloads)
qed

lemma stream_send_segments_witness:
  "let s = stream_new 3; data = replicate 1001 (0x41 :: byte) in
   st_send_queue (fst (stream_send data s)) = segments 3 0 data
   \<and> concat (map (dg_payload \<circ> snd) (st_send_queue (fst (stream_send data s)))) = data
   \<and> (st_timer (fst (stream_send data s)) \<longleftrightarrow> data \<noteq> [])
   \<and> snd (stream_send data s) = (if data = [] then [] else
       [Send_datagram (data_segment 3 0 (take segment_max data))])"
proof -
  have "unat (st_send_offset (stream_new 3)) + length (replicate 1001 (0x41 :: byte)) < 2 ^ 32"
    by simp
  from stream_send_segments [OF stream_new_fields(5) this] show ?thesis
    unfolding Let_def stream_new_fields unat_0 .
qed

text \<open>
  While a piece is still unacknowledged, sending up to 1000 further bytes queues nothing:
  the new piece is given the offset of the last queued piece and the insertion is refused, so
  the call has exactly the effect of retransmitting and the data is lost.
\<close>

theorem stream_send_unacknowledged_loses:
  assumes "sorted_keys (st_send_queue s)" and "st_send_queue s \<noteq> []" and "length data \<le> 1000"
  shows "stream_send data s = send_one_datagram s"
proof -
  let ?q = "st_send_queue s" and ?b = "unat (fst (last (st_send_queue s)))"
  have "enqueue_segments (st_id s) ?b data 0 ?q = ?q"
  proof (cases "data = []")
    case True
    then show ?thesis by (simp add: enqueue_segments_end)
  next
    case False
    then have piece: "length (take segment_max data) = length data"
      using assms(3) by (simp add: segment_max_def)
    have "map_insert (word_of_nat (?b + 0)) (segment (st_id s) ?b data 0) ?q = ?q"
      using assms(1,2) by (intro map_insert_found) auto
    then show ?thesis
      using False piece by (simp add: enqueue_segments_step enqueue_segments_end)
  qed
  then show ?thesis
    using assms(2) by (simp add: stream_send_def current_max_offset_def)
qed

lemma stream_send_unacknowledged_loses_witness:
  "let s = fst (stream_send [1, 2, 3] (stream_new 0)) in
   st_send_queue s \<noteq> [] \<and> stream_send [4, 5] s = send_one_datagram s"
proof -
  let ?s = "fst (stream_send [1, 2, 3] (stream_new 0))"
  have "st_send_queue ?s \<noteq> []" by code_simp
  moreover have "sorted_keys (st_send_queue ?s)"
    using stream_ok_send [OF stream_ok_new] by (simp add: stream_ok_def)
  ultimately show ?thesis
    using stream_send_unacknowledged_loses [of ?s "[4, 5]"] by simp
qed

text \<open>
  C17: A receiver that gets a segment it has already delivered a second time is silenced for good:
  whatever datagrams follow, nothing more is delivered and the receive offset stays.
\<close>

theorem duplicate_silences_receiver:
  assumes "stream_ok s" and "st_recv_queue s = []" and "dg_type d = Data"
    and "dg_offset d = st_recv_offset s" and "dg_offset d < dg_offset d + dg_length d"
  shows "delivered (snd (feed_all addr (d # d # ds) s)) = dg_payload d
    \<and> st_recv_offset (fst (feed_all addr (d # d # ds) s)) = st_recv_offset s + dg_length d"
proof -
  let ?s1 = "s\<lparr>st_recv_queue := [], st_recv_offset := st_recv_offset s + dg_length d\<rparr>"
  let ?s2 = "?s1\<lparr>st_recv_queue := [(dg_offset d, d)]\<rparr>"
  have one: "stream_feed addr d s = (?s1, Put (Recv_data addr (st_id s) (dg_payload d)) # send_ack ?s1)"
    using feed_next_segment [OF assms(3,2,4), of addr] by (simp only: Let_def)
  have two: "stream_feed addr d ?s1 = (?s2, [])"
    using feed_stale_segment [of d ?s1 addr] assms(3,4,5) by simp
  have "stuck ?s2" using assms(4,5) by (simp add: stuck_def)
  moreover have "stream_ok ?s2" using assms(1) by (simp add: stream_ok_def)
  ultimately show ?thesis
    using one two stuck_feed_all [of ?s2 addr ds] by (simp add: feed_all_Cons del: feed_all.simps)
qed

lemma duplicate_silences_receiver_witness:
  "\<exists>d d' a. dg_payload d' \<noteq> [] \<and> dg_offset d' = dg_offset d + dg_length d
   \<and> delivered (snd (feed_all a [d, d, d'] (stream_new 0))) = dg_payload d"
proof -
  let ?d = "data_segment 0 0 [7, 8]" and ?d' = "data_segment 0 2 [9]"
  have "delivered (snd (feed_all (mk_address [] 0) [?d, ?d, ?d'] (stream_new 0))) = dg_payload ?d"
    using duplicate_silences_receiver [of "stream_new 0" ?d "mk_address [] 0" "[?d']"]
    by (simp add: stream_ok_new del: feed_all.simps)
  then show ?thesis
    by (intro exI [of _ ?d] exI [of _ ?d'] exI) auto
qed

end
