(* ===== verification/Link.thy ===== *)
theory Link
  imports Reassembly
begin

text \<open>
  Two streams joined by a network. The sender's and the receiver's \<open>stream\<close> are the code's;
  the network is a step relation that may lose, duplicate and reorder the datagrams in flight.
  The safety of the protocol is an invariant of every reachable state; that it completes is
  shown for a network that loses nothing.
\<close>

section \<open>The state and its steps\<close>

record link =
  lk_snd :: stream
  lk_rcv :: stream
  lk_fwd :: "datagram list"   \<comment> \<open>in flight to the receiver\<close>
  lk_bwd :: "datagram list"   \<comment> \<open>in flight to the sender\<close>
  lk_got :: bytes             \<comment> \<open>what the receiver delivered to its user\<close>

definition link_new :: "u32 \<Rightarrow> link" where
  "link_new i = \<lparr>lk_snd = stream_new i, lk_rcv = stream_new i, lk_fwd = [], lk_bwd = [], lk_got = []\<rparr>"

definition submit :: "bytes \<Rightarrow> link \<Rightarrow> link" where
  "submit data l = (case stream_send data (lk_snd l) of
     (s, es) \<Rightarrow> l\<lparr>lk_snd := s, lk_fwd := lk_fwd l @ sent es\<rparr>)"

definition timeout :: "link \<Rightarrow> link" where
  "timeout l = (case stream_timer_fires (lk_snd l) of
     (s, es) \<Rightarrow> l\<lparr>lk_snd := s, lk_fwd := lk_fwd l @ sent es\<rparr>)"

text \<open>The handler of a timer that was cancelled or armed again after it had expired.\<close>

definition late_timeout :: "link \<Rightarrow> link" where
  "late_timeout l = (case stream_late_timer (lk_snd l) of
     (s, es) \<Rightarrow> l\<lparr>lk_snd := s, lk_fwd := lk_fwd l @ sent es\<rparr>)"

definition arrives :: "address \<Rightarrow> datagram \<Rightarrow> link \<Rightarrow> link" where
  "arrives a d l = (case stream_feed a d (lk_rcv l) of
     (s, es) \<Rightarrow> l\<lparr>lk_rcv := s, lk_bwd := lk_bwd l @ sent es, lk_got := lk_got l @ delivered es\<rparr>)"

definition returns :: "address \<Rightarrow> datagram \<Rightarrow> link \<Rightarrow> link" where
  "returns a d l = (case stream_feed a d (lk_snd l) of
     (s, es) \<Rightarrow> l\<lparr>lk_snd := s, lk_fwd := lk_fwd l @ sent es\<rparr>)"

text \<open>
  A datagram that arrives stays in flight, so it can arrive again; \<open>Lose\<close> forgets any
  part of what is in flight. Together they cover loss, duplication and reordering.
\<close>

inductive link_step :: "address \<Rightarrow> link \<Rightarrow> link \<Rightarrow> bool" for a where
  Timeout: "link_step a l (timeout l)"
| Late_timeout: "link_step a l (late_timeout l)"
| Arrive: "d \<in> set (lk_fwd l) \<Longrightarrow> link_step a l (arrives a d l)"
| Return: "d \<in> set (lk_bwd l) \<Longrightarrow> link_step a l (returns a d l)"
| Lose: "set fwd \<subseteq> set (lk_fwd l) \<Longrightarrow> set bwd \<subseteq> set (lk_bwd l) \<Longrightarrow>
    link_step a l (l\<lparr>lk_fwd := fwd, lk_bwd := bwd\<rparr>)"

inductive link_run :: "address \<Rightarrow> link \<Rightarrow> link \<Rightarrow> bool" for a l where
  Start: "link_run a l l"
| Step: "link_run a l m \<Longrightarrow> link_step a m n \<Longrightarrow> link_run a l n"

section \<open>Safety\<close>

definition unsent_delivered :: "u32 \<Rightarrow> bytes \<Rightarrow> link \<Rightarrow> bool" where
  "unsent_delivered i data l \<longleftrightarrow> (\<forall>e \<in> set (segments i 0 data).
     e \<notin> set (st_send_queue (lk_snd l)) \<longrightarrow> unat (fst e) < unat (st_recv_offset (lk_rcv l)))"

definition link_ok :: "u32 \<Rightarrow> bytes \<Rightarrow> link \<Rightarrow> bool" where
  "link_ok i data l \<longleftrightarrow>
     st_recv_queue (lk_snd l) = [] \<and> st_send_queue (lk_rcv l) = []
     \<and> st_send_offset (lk_snd l) \<le> st_recv_offset (lk_rcv l)
     \<and> set (st_send_queue (lk_snd l)) \<subseteq> set (segments i 0 data)
     \<and> set (lk_fwd l) \<subseteq> snd ` set (segments i 0 data)
     \<and> (\<forall>d \<in> set (lk_bwd l). dg_type d = Data_ack \<and> unat (dg_offset d) \<le> unat (st_recv_offset (lk_rcv l)))
     \<and> receiving data (lk_got l) (lk_rcv l) \<and> unsent_delivered i data l"

lemma sent_send_one: "set (sent (snd (send_one_datagram s))) \<subseteq> snd ` set (st_send_queue s)"
  using set_erase_sent [of "st_send_offset s" "st_send_queue s"]
  by (force simp: send_one_effects split: list.splits)

lemma erased_below: "e \<in> set q \<Longrightarrow> e \<notin> set (erase_sent off q) \<Longrightarrow> fst e < off"
  by (induction off q rule: erase_sent.induct) (auto split: if_splits)

lemma genuine_segment:
  "length data < 2 ^ 32 \<Longrightarrow> d \<in> snd ` set (segments i 0 data) \<Longrightarrow> genuine data d"
  using holds_pieces_segments [of data i] by (auto simp: holds_pieces_def)

text \<open>Every transmission of the sender starts by erasing what is below its offset.\<close>

lemma link_ok_send_one:
  assumes "link_ok i data l" and "off \<le> st_recv_offset (lk_rcv l)"
    and "send_one_datagram ((lk_snd l)\<lparr>st_send_offset := off, st_timer := t\<rparr>) = (s, es)"
  shows "link_ok i data (l\<lparr>lk_snd := s, lk_fwd := lk_fwd l @ sent es\<rparr>)"
proof -
  let ?s = "(lk_snd l)\<lparr>st_send_offset := off, st_timer := t\<rparr>"
  have fst: "s = fst (send_one_datagram ?s)" and snd: "es = snd (send_one_datagram ?s)"
    using assms(3) by simp_all
  have q: "st_send_queue s = erase_sent off (st_send_queue (lk_snd l))" by (simp add: fst)
  have "unsent_delivered i data (l\<lparr>lk_snd := s, lk_fwd := lk_fwd l @ sent es\<rparr>)"
    unfolding unsent_delivered_def
  proof (intro ballI impI)
    fix e assume e: "e \<in> set (segments i 0 data)"
      and gone: "e \<notin> set (st_send_queue (lk_snd (l\<lparr>lk_snd := s, lk_fwd := lk_fwd l @ sent es\<rparr>)))"
    have "unat (fst e) < unat (st_recv_offset (lk_rcv l))"
    proof (cases "e \<in> set (st_send_queue (lk_snd l))")
      case True
      then have "fst e < off" using gone q erased_below by fastforce
      then show ?thesis using assms(2) by (simp add: word_less_nat_alt word_le_nat_alt)
    next
      case False
      then show ?thesis using assms(1) e by (simp add: link_ok_def unsent_delivered_def)
    qed
    then show "unat (fst e) < unat (st_recv_offset (lk_rcv (l\<lparr>lk_snd := s, lk_fwd := lk_fwd l @ sent es\<rparr>)))"
      by simp
  qed
  moreover have "set (st_send_queue s) \<subseteq> set (segments i 0 data)"
    using assms(1) q set_erase_sent [of off "st_send_queue (lk_snd l)"] by (auto simp: link_ok_def)
  moreover have "set (sent es) \<subseteq> snd ` set (segments i 0 data)"
    using assms(1) sent_send_one [of ?s] by (auto simp: snd link_ok_def)
  moreover have "st_recv_queue s = []" using assms(1) by (simp add: fst link_ok_def)
  moreover have "st_send_offset s = off" by (simp add: fst)
  ultimately show ?thesis using assms(1,2) by (simp add: link_ok_def)
qed

lemma link_ok_timeout:
  assumes "link_ok i data l"
  shows "link_ok i data (timeout l)"
proof (cases "st_timer (lk_snd l)")
  case True
  have "(lk_snd l)\<lparr>st_timer := False\<rparr> =
      (lk_snd l)\<lparr>st_send_offset := st_send_offset (lk_snd l), st_timer := False\<rparr>" by simp
  then show ?thesis
    using True assms link_ok_send_one [OF assms, of "st_send_offset (lk_snd l)" False]
    by (simp add: timeout_def stream_timer_fires_def retransmit_def link_ok_def split: prod.splits)
next
  case False
  then show ?thesis using assms by (simp add: timeout_def stream_timer_fires_def)
qed

lemma link_ok_late_timeout:
  assumes "link_ok i data l"
  shows "link_ok i data (late_timeout l)"
  using assms link_ok_send_one [OF assms, of "st_send_offset (lk_snd l)" "st_timer (lk_snd l)"]
  by (simp add: late_timeout_def stream_late_timer_def retransmit_def link_ok_def split: prod.splits)

lemma link_ok_returns:
  assumes "link_ok i data l" and "d \<in> set (lk_bwd l)"
  shows "link_ok i data (returns a d l)"
proof -
  let ?s = "(lk_snd l)\<lparr>st_send_offset := dg_offset d, st_timer := st_timer (lk_snd l)\<rparr>"
  obtain s es where one: "send_one_datagram ?s = (s, es)" by fastforce
  have d: "dg_type d = Data_ack" "dg_offset d \<le> st_recv_offset (lk_rcv l)"
    using assms by (auto simp: link_ok_def word_le_nat_alt)
  have "st_recv_queue (fst (send_one_datagram ?s)) = []"
    using assms(1) by (simp add: link_ok_def)
  then have "st_recv_queue s = []" unfolding one by (simp only: fst_conv)
  then have "drain_received a s = (s, [])" by (simp add: drain_received_def)
  then have "stream_feed a d (lk_snd l) = (s, es)"
    using one d(1) by (simp add: stream_feed_ack Let_def)
  then show ?thesis
    using link_ok_send_one [OF assms(1) d(2) one] by (simp add: returns_def)
qed

lemma link_ok_arrives:
  assumes "length data < 2 ^ 32" and "link_ok i data l" and "d \<in> set (lk_fwd l)"
  shows "link_ok i data (arrives a d l)"
proof -
  let ?q = "(lk_rcv l)\<lparr>st_recv_queue := map_assign (dg_offset d) d (st_recv_queue (lk_rcv l))\<rparr>"
  have "d \<in> snd ` set (segments i 0 data)"
    using assms(2,3) by (auto simp: link_ok_def)
  then have g: "genuine data d" by (rule genuine_segment [OF assms(1)])
  then have feed: "stream_feed a d (lk_rcv l) = drain_received a ?q"
    by (simp add: genuine_def stream_feed_data)
  have q: "receiving data (lk_got l) ?q"
    using assms(2) g by (simp add: link_ok_def receiving_def holds_pieces_assign)
  obtain s es where d: "drain_received a ?q = (s, es)" by fastforce
  have later: "st_recv_offset (lk_rcv l) \<le> st_recv_offset s"
    using recv_offset_drain [OF assms(1) q, of a] d by (simp add: word_le_nat_alt)
  have "receiving data (lk_got l @ delivered es) s"
    using receiving_drain [OF assms(1) q, of a] d by simp
  moreover have "\<forall>x \<in> set (sent es). dg_type x = Data_ack \<and> dg_offset x = st_recv_offset s"
    using sent_drain [of _ a ?q] d by simp
  moreover have "st_send_queue s = []"
    using drain_received_fields(3) [of a ?q] d assms(2) by (simp add: link_ok_def)
  ultimately show ?thesis
    using assms(2) later
    by (fastforce simp: arrives_def feed d link_ok_def unsent_delivered_def word_le_nat_alt)
qed

lemma link_ok_step:
  assumes "length data < 2 ^ 32" and "link_ok i data l" and "link_step a l l'"
  shows "link_ok i data l'"
  using assms(3)
proof (cases rule: link_step.cases)
  case Timeout
  then show ?thesis using assms(2) by (simp add: link_ok_timeout)
next
  case Late_timeout
  then show ?thesis using assms(2) by (simp add: link_ok_late_timeout)
next
  case (Arrive d)
  then show ?thesis using assms by (simp add: link_ok_arrives)
next
  case (Return d)
  then show ?thesis using assms(2) by (simp add: link_ok_returns)
next
  case (Lose fwd bwd)
  then show ?thesis using assms(2) unfolding link_ok_def unsent_delivered_def
    by (auto dest: subsetD)
qed

lemma link_ok_start:
  assumes "length data < 2 ^ 32"
  shows "link_ok i data (submit data (link_new i))"
proof -
  let ?s = "(stream_new i)\<lparr>st_send_queue := segments i 0 data\<rparr>"
  have fresh: "stream_send data (stream_new i) = send_one_datagram ?s"
    using assms stream_send_fresh [of "stream_new i" data] by simp
  have e: "erase_sent 0 (segments i 0 data) = segments i 0 data"
    using erase_sent_segments [of 0 data i] assms by simp
  obtain s es where one: "send_one_datagram ?s = (s, es)" by fastforce
  have s: "st_send_queue s = segments i 0 data" "st_recv_queue s = []" "st_send_offset s = 0"
    using send_one_fields [of ?s] unfolding one by (simp_all add: e)
  have "set (sent es) \<subseteq> snd ` set (segments i 0 data)"
    using sent_send_one [of ?s] unfolding one by simp
  then show ?thesis
    by (simp add: submit_def link_new_def fresh one link_ok_def receiving_def
        boundary_def unsent_delivered_def s)
qed

lemma link_ok_run:
  assumes "length data < 2 ^ 32" and "link_run a (submit data (link_new i)) l"
  shows "link_ok i data l"
  using assms(2)
proof (induction rule: link_run.induct)
  case Start
  then show ?case by (rule link_ok_start [OF assms(1)])
next
  case (Step m n)
  then show ?case using link_ok_step [OF assms(1)] by blast
qed

lemma last_boundary:
  assumes "boundary data n" and "n \<le> length data" and "k mod 1000 = 0" and "len \<le> 1000"
    and "k < n" and "k + len = length data"
  shows "n = length data"
proof (rule ccontr)
  assume "n \<noteq> length data"
  with assms(1,3) obtain x y where "n = 1000 * x" "k = 1000 * y"
    by (auto simp: boundary_def elim!: dvdE)
  moreover from this assms(5) have "Suc y \<le> x" by simp
  then have "1000 * y + 1000 \<le> 1000 * x" by simp
  ultimately show False using assms(2,4,6) \<open>n \<noteq> length data\<close> by linarith
qed

lemma link_run_delivers:
  assumes "length data < 2 ^ 32" and "link_run a (submit data (link_new i)) l"
  shows "lk_got l = take (unat (st_recv_offset (lk_rcv l))) data
    \<and> (st_send_queue (lk_snd l) = [] \<longrightarrow> lk_got l = data)"
proof
  have ok: "link_ok i data l" by (rule link_ok_run [OF assms])
  then show got: "lk_got l = take (unat (st_recv_offset (lk_rcv l))) data"
    by (simp add: link_ok_def receiving_def)
  show "st_send_queue (lk_snd l) = [] \<longrightarrow> lk_got l = data"
  proof
    assume gone: "st_send_queue (lk_snd l) = []"
    show "lk_got l = data"
    proof (cases "data = []")
      case True
      then show ?thesis using got by simp
    next
      case False
      moreover have lt: "0 + length data < 2 ^ 32" using assms(1) by simp
      ultimately obtain e where e: "e \<in> set (segments i 0 data)"
          "unat (fst e) + length (dg_payload (snd e)) = length data"
        using segments_last [of data 0 i] by auto
      have above: "unat (fst e) < unat (st_recv_offset (lk_rcv l))"
        using ok gone e(1) by (simp add: link_ok_def unsent_delivered_def)
      have "boundary data (unat (st_recv_offset (lk_rcv l)))" "unat (st_recv_offset (lk_rcv l)) \<le> length data"
        using ok by (simp_all add: link_ok_def receiving_def)
      moreover have "unat (fst e) mod 1000 = 0" "length (dg_payload (snd e)) \<le> 1000"
        using segments_aligned [OF e(1) lt] segments_bounds [OF e(1) lt] by simp_all
      ultimately have "unat (st_recv_offset (lk_rcv l)) = length data"
        by (rule last_boundary [OF _ _ _ _ above e(2)])
      then show ?thesis using got by simp
    qed
  qed
qed

text \<open>
  C7: Over a network that may lose, duplicate and reorder datagrams, what the receiver delivers
  is at every moment the prefix of the sent data that its receive offset says; and once the
  sender has no segment left, everything has been delivered.
\<close>

theorem delivered_prefix:
  assumes "length data < 2 ^ 32" and "link_run a (submit data (link_new i)) l"
  shows "lk_got l = take (unat (st_recv_offset (lk_rcv l))) data
    \<and> (st_send_queue (lk_snd l) = [] \<longrightarrow> lk_got l = data)"
  by (rule link_run_delivers [OF assms])

lemma delivered_prefix_witness:
  "\<exists>l. link_run (mk_address [] 1) (submit [1, 2, 3] (link_new 0)) l \<and> lk_got l = [1, 2, 3]"
proof -
  let ?a = "mk_address [] 1" and ?start = "submit [1, 2, 3] (link_new 0)"
  let ?l = "arrives ?a (data_segment 0 0 [1, 2, 3]) ?start"
  have "data_segment 0 0 [1, 2, 3] \<in> set (lk_fwd ?start)" by code_simp
  then have run: "link_run ?a ?start ?l" by (intro link_run.Step [OF link_run.Start] link_step.Arrive)
  have "unat (st_recv_offset (lk_rcv ?l)) = 3" by code_simp
  then show ?thesis using delivered_prefix [OF _ run] run by auto
qed

section \<open>Completion without loss\<close>

text \<open>One exchange: the oldest datagram in flight arrives, and the answer returns.\<close>

definition exchange :: "address \<Rightarrow> link \<Rightarrow> link" where
  "exchange a l = (case lk_fwd l of
     [] \<Rightarrow> l
   | d # fwd \<Rightarrow> (case arrives a d (l\<lparr>lk_fwd := fwd\<rparr>) of l1 \<Rightarrow>
       (case lk_bwd l1 of
          [] \<Rightarrow> l1
        | d' # bwd \<Rightarrow> returns a d' (l1\<lparr>lk_bwd := bwd\<rparr>))))"

definition transfer :: "address \<Rightarrow> bytes \<Rightarrow> link \<Rightarrow> link" where
  "transfer a data l = (exchange a ^^ ((length data + 999) div 1000)) (submit data l)"

definition sending :: "u32 \<Rightarrow> nat \<Rightarrow> bytes \<Rightarrow> link \<Rightarrow> bool" where
  "sending i pos data l \<longleftrightarrow>
     st_id (lk_snd l) = i \<and> st_id (lk_rcv l) = i
     \<and> st_send_queue (lk_snd l) = segments i pos data \<and> st_recv_queue (lk_snd l) = []
     \<and> st_send_offset (lk_snd l) = word_of_nat pos \<and> (st_timer (lk_snd l) \<longleftrightarrow> data \<noteq> [])
     \<and> st_send_queue (lk_rcv l) = [] \<and> st_recv_queue (lk_rcv l) = []
     \<and> st_recv_offset (lk_rcv l) = word_of_nat pos
     \<and> lk_fwd l = (if data = [] then [] else [data_segment i pos (take segment_max data)])
     \<and> lk_bwd l = []"

lemma send_one_segments:
  assumes "send_one_datagram s = (s', es)"
    and "erase_sent (st_send_offset s) (st_send_queue s) = segments i pos data"
  shows "st_send_queue s' = segments i pos data" "st_timer s' \<longleftrightarrow> data \<noteq> []"
    "sent es = (if data = [] then [] else [data_segment i pos (take segment_max data)])"
    "st_id s' = st_id s" "st_send_offset s' = st_send_offset s" "st_recv_queue s' = st_recv_queue s"
  using send_one_fields [of s] send_one_timer [of s] send_one_effects [of s]
  unfolding assms by (cases "data = []"; simp)+

lemma sending_submit:
  assumes "sending i pos [] l" and "pos + length data < 2 ^ 32"
  shows "sending i pos data (submit data l) \<and> lk_got (submit data l) = lk_got l"
proof -
  obtain s es where send: "stream_send data (lk_snd l) = (s, es)" by fastforce
  have pos: "unat (st_send_offset (lk_snd l)) = pos"
    using assms by (simp add: sending_def unat_offset)
  have empty: "st_send_queue (lk_snd l) = []" using assms(1) by (simp add: sending_def)
  have small: "unat (st_send_offset (lk_snd l)) + length data < 2 ^ 32"
    using assms(2) pos by simp
  note eval = stream_send_fresh [OF empty small, unfolded pos send]
  let ?s = "(lk_snd l)\<lparr>st_send_queue := segments (st_id (lk_snd l)) pos data\<rparr>"
  have e: "erase_sent (st_send_offset ?s) (st_send_queue ?s) = segments i pos data"
    using assms erase_sent_segments [OF assms(2)] by (simp add: sending_def)
  note s = send_one_segments [OF eval [symmetric] e]
  have "submit data l = l\<lparr>lk_snd := s, lk_fwd := lk_fwd l @ sent es\<rparr>"
    by (simp add: submit_def send)
  then show ?thesis using assms(1) s by (simp add: sending_def)
qed

lemma sending_exchange:
  assumes "sending i pos data l" and "data \<noteq> []" and "pos + length data < 2 ^ 32"
  shows "sending i (pos + length (take segment_max data)) (drop segment_max data) (exchange a l)
    \<and> lk_got (exchange a l) = lk_got l @ take segment_max data"
proof -
  let ?p = "take segment_max data" and ?r = "drop segment_max data"
  let ?d = "data_segment i pos ?p" and ?n = "pos + length (take segment_max data)"
  let ?ack = "datagram_new\<lparr>dg_type := Data_ack, dg_id := i, dg_offset := word_of_nat ?n, dg_length := 0\<rparr>"
  let ?rcv = "(lk_rcv l)\<lparr>st_recv_queue := [], st_recv_offset := word_of_nat ?n\<rparr>"
  have len: "length ?p + length ?r = length data"
    by (metis append_take_drop_id length_append)
  have "stream_feed a ?d (lk_rcv l) = (?rcv, [Put (Recv_data a i ?p), Send_datagram ?ack])"
    using assms(1) feed_next_segment [of ?d "lk_rcv l" a]
    by (simp add: sending_def send_ack_def Let_def del: length_take)
  then have one: "arrives a ?d (l\<lparr>lk_fwd := []\<rparr>) =
      l\<lparr>lk_fwd := [], lk_rcv := ?rcv, lk_bwd := [?ack], lk_got := lk_got l @ ?p\<rparr>"
    using assms(1) by (simp add: arrives_def sending_def)
  let ?s = "(lk_snd l)\<lparr>st_send_offset := word_of_nat ?n\<rparr>"
  have "fst e < word_of_nat ?n" if "e = (word_of_nat pos :: u32, ?d)" for e
  proof -
    have "0 < length ?p" using assms(2) by (simp add: segment_max_def)
    then show ?thesis
      using that assms(3) len offset_less [of pos ?n] by (simp del: of_nat_add length_take length_drop)
  qed
  moreover have "erase_sent (word_of_nat ?n) (segments i ?n ?r) = segments i ?n ?r"
    using assms(3) len by (intro erase_sent_segments) linarith
  ultimately have erase: "erase_sent (word_of_nat ?n) (segments i pos data) = segments i ?n ?r"
    using assms(2) by (simp del: of_nat_add length_take)
  obtain s es where send: "send_one_datagram ?s = (s, es)" by fastforce
  have "erase_sent (st_send_offset ?s) (st_send_queue ?s) = segments i ?n ?r"
    using assms(1) erase by (simp add: sending_def del: of_nat_add length_take length_drop)
  note s = send_one_segments [OF send this]
  have "drain_received a s = (s, [])"
    using assms(1) s(6) by (simp add: drain_received_def sending_def)
  then have "stream_feed a ?ack (lk_snd l) = (s, es)"
    using send by (simp add: stream_feed_ack Let_def del: of_nat_add length_take)
  then have "exchange a l = l\<lparr>lk_snd := s, lk_rcv := ?rcv, lk_fwd := sent es, lk_bwd := [], lk_got := lk_got l @ ?p\<rparr>"
    using assms(1,2) one by (simp add: exchange_def sending_def returns_def del: of_nat_add length_take)
  then show ?thesis using assms(1) s by (simp add: sending_def del: of_nat_add length_take)
qed

lemma rounds_step:
  assumes "0 < n"
  shows "(n + 999) div 1000 = Suc ((n - 1000 + 999) div (1000 :: nat))"
proof (cases "n \<le> 1000")
  case True
  then have "(n + 999) div 1000 = 1" using assms by (intro div_nat_eqI) simp_all
  then show ?thesis using True by simp
next
  case False
  then obtain m where "n = 1000 + m" using le_Suc_ex by (metis nat_le_linear)
  then have "n + 999 = (n - 1000 + 999) + 1000" by simp
  then show ?thesis by (simp only: div_add_self2)
qed

lemma sending_exchanges:
  "sending i pos data l \<Longrightarrow> pos + length data < 2 ^ 32 \<Longrightarrow>
   sending i (pos + length data) [] ((exchange a ^^ ((length data + 999) div 1000)) l)
   \<and> lk_got ((exchange a ^^ ((length data + 999) div 1000)) l) = lk_got l @ data"
proof (induction i pos data arbitrary: l rule: segments.induct)
  case (1 i pos)
  then show ?case by simp
next
  case (2 data i pos)
  let ?p = "take segment_max data" and ?r = "drop segment_max data"
  let ?n = "(length ?r + 999) div 1000"
  have len: "length ?p + length ?r = length data"
    by (metis append_take_drop_id length_append)
  have one: "sending i (pos + length ?p) ?r (exchange a l)"
    and got: "lk_got (exchange a l) = lk_got l @ ?p"
    using sending_exchange [OF "2.prems"(1) "2.hyps" "2.prems"(2)] by blast+
  have bound: "pos + length ?p + length ?r < 2 ^ 32" using "2.prems"(2) len by linarith
  have "0 < length data" using "2.hyps" by simp
  then have n: "(length data + 999) div 1000 = Suc ?n" by (simp add: segment_max_def rounds_step)
  show ?case
    using "2.IH" [OF one bound] got len
    by (simp add: n funpow_swap1 [symmetric] funpow_Suc_right del: funpow.simps length_take length_drop)
      (simp add: add.assoc del: length_take length_drop flip: append_assoc)
qed

lemma sending_transfers:
  "sending i pos [] l \<Longrightarrow> pos + length (concat msgs) < 2 ^ 32 \<Longrightarrow>
   sending i (pos + length (concat msgs)) [] (fold (transfer a) msgs l)
   \<and> lk_got (fold (transfer a) msgs l) = lk_got l @ concat msgs"
proof (induction msgs arbitrary: pos l)
  case Nil
  then show ?case by simp
next
  case (Cons m ms)
  have small: "pos + length m < 2 ^ 32" using Cons.prems(2) by simp
  have one: "sending i pos m (submit m l)" "lk_got (submit m l) = lk_got l"
    using sending_submit [OF Cons.prems(1) small] by blast+
  have "sending i (pos + length m) [] (transfer a m l)" "lk_got (transfer a m l) = lk_got l @ m"
    using sending_exchanges [OF one(1) small] one(2) unfolding transfer_def by simp_all
  then show ?case using Cons.IH [of "pos + length m" "transfer a m l"] Cons.prems(2)
    by (simp add: add.assoc)
qed

text \<open>
  C8: Over a network that loses nothing, any sequence of messages, each sent when the previous
  one has been acknowledged, is delivered completely and in order after one exchange per
  segment, and leaves nothing queued and no timer armed.
\<close>

theorem lossless_transfer:
  assumes "length (concat msgs) < 2 ^ 32"
  shows "lk_got (fold (transfer a) msgs (link_new i)) = concat msgs
    \<and> st_send_queue (lk_snd (fold (transfer a) msgs (link_new i))) = []
    \<and> \<not> st_timer (lk_snd (fold (transfer a) msgs (link_new i)))"
proof -
  have "sending i 0 [] (link_new i)" by (simp add: sending_def link_new_def)
  then show ?thesis
    using sending_transfers [of i 0 "link_new i" msgs a] assms by (simp add: sending_def link_new_def)
qed

lemma lossless_transfer_witness:
  "lk_got (fold (transfer (mk_address [] 1)) [[1, 2, 3], [], [4]] (link_new 7)) = [1, 2, 3, 4]"
  using lossless_transfer [of "[[1, 2, 3], [], [4]]" "mk_address [] 1" 7] by simp

end
