(* ===== verification/Session.thy ===== *)
theory Session
  imports Handshake Link
begin

text \<open>
  An established peer as the streams see it: what a stream asks for goes out encrypted, what
  arrives encrypted under the same key reaches the stream of its id, and the streams of one peer
  do not touch each other.
\<close>

section \<open>Streams that keep to themselves\<close>

text \<open>What a stream transmits: data and acknowledgements no longer than a segment.\<close>

definition carried :: "datagram \<Rightarrow> bool" where
  "carried d \<longleftrightarrow> dg_type d \<in> {Data, Data_ack} \<and> length (dg_payload d) \<le> segment_max"

definition stream_own :: "u32 \<Rightarrow> stream \<Rightarrow> bool" where
  "stream_own j s \<longleftrightarrow> stream_ok s \<and> st_id s = j
     \<and> (\<forall>e \<in> set (st_send_queue s). dg_type (snd e) = Data \<and> dg_id (snd e) = j)"

fun puts :: "effect list \<Rightarrow> message list" where
  "puts [] = []"
| "puts (Put m # es) = m # puts es"
| "puts (_ # es) = puts es"

definition effects_own :: "address \<Rightarrow> u32 \<Rightarrow> effect list \<Rightarrow> bool" where
  "effects_own a j es \<longleftrightarrow> (\<forall>d \<in> set (sent es). carried d \<and> dg_id d = j)
     \<and> (\<forall>m \<in> set (puts es). \<exists>p. m = Recv_data a j p \<or> m = New_stream a j)"

text \<open>The data a user has been told of on the stream \<open>i\<close> of the peer at \<open>a\<close>.\<close>

fun heard :: "address \<Rightarrow> u32 \<Rightarrow> message list \<Rightarrow> bytes" where
  "heard a i [] = []"
| "heard a i (Recv_data b j p # ms) = (if b = a \<and> j = i then p else []) @ heard a i ms"
| "heard a i (_ # ms) = heard a i ms"

lemma puts_append [simp]: "puts (es @ fs) = puts es @ puts fs"
  by (induction es rule: puts.induct) auto

text \<open>What a stream reports is data it received.\<close>

lemma feed_puts: "m \<in> set (puts (snd (stream_feed a d s))) \<Longrightarrow> \<exists>i p. m = Recv_data a i p"
proof -
  have drain: "m \<in> set (puts es) \<Longrightarrow> \<exists>i p. m = Recv_data a i p" if "drain a i q off = (q', off', es)"
    for i q off q' off' es
    using that by (induction a i q off arbitrary: q' off' es rule: drain.induct) (auto split: if_splits prod.splits)
  have "m \<in> set (puts (snd (drain_received a s))) \<Longrightarrow> \<exists>i p. m = Recv_data a i p" for s
    by (auto simp: drain_received_def Let_def send_ack_def split: list.splits prod.splits if_splits dest: drain)
  moreover have "puts (snd (send_one_datagram s)) = []" for s
    by (auto simp: send_one_effects split: list.splits)
  ultimately show "m \<in> set (puts (snd (stream_feed a d s))) \<Longrightarrow> \<exists>i p. m = Recv_data a i p"
    by (auto simp: stream_feed_def case_prod_beta split: if_splits)
qed

lemma silent_puts:
  "puts (snd (stream_send data s)) = []" "puts (snd (stream_timer_fires s)) = []"
  "puts (snd (stream_late_timer s)) = []"
  by (auto simp: stream_send_def stream_timer_fires_def stream_late_timer_def retransmit_def
      send_one_effects split: list.splits)

lemma heard_append [simp]: "heard a i (ms @ ns) = heard a i ms @ heard a i ns"
  by (induction a i ms rule: heard.induct) auto

lemma effects_own_simps [simp]:
  "effects_own a j []"
  "effects_own a j (es @ fs) \<longleftrightarrow> effects_own a j es \<and> effects_own a j fs"
  "effects_own a j (Send_datagram d # es) \<longleftrightarrow> carried d \<and> dg_id d = j \<and> effects_own a j es"
  "effects_own a j (Put m # es) \<longleftrightarrow> (\<exists>p. m = Recv_data a j p \<or> m = New_stream a j) \<and> effects_own a j es"
  by (auto simp: effects_own_def)

lemma heard_own: "effects_own a j es \<Longrightarrow> heard a i (puts es) = (if i = j then delivered es else [])"
  by (induction es rule: delivered.induct) auto

lemma stream_own_new: "stream_own j (stream_new j)"
  by (simp add: stream_own_def stream_ok_new)

lemma own_send_one:
  assumes "sorted_keys (st_send_queue s)" "sorted_keys (st_recv_queue s)" "short_segments (st_send_queue s)"
    and "st_id s = j" and q: "\<forall>e \<in> set (st_send_queue s). dg_type (snd e) = Data \<and> dg_id (snd e) = j"
  shows "stream_own j (fst (send_one_datagram s)) \<and> effects_own a j (snd (send_one_datagram s))"
proof
  have sub: "set (erase_sent (st_send_offset s) (st_send_queue s)) \<subseteq> set (st_send_queue s)"
    by (rule set_erase_sent)
  then show "stream_own j (fst (send_one_datagram s))"
    using assms stream_ok_send_one [OF assms(1-3)] by (auto simp: stream_own_def)
  show "effects_own a j (snd (send_one_datagram s))"
    using sub q assms(3)
    by (fastforce simp: send_one_effects carried_def short_segments_def split: list.splits)
qed

lemma own_drain:
  assumes "stream_own j s"
  shows "stream_own j (fst (drain_received a s)) \<and> effects_own a j (snd (drain_received a s))"
proof -
  have puts: "effects_own a i es" if "drain a i q off = (q', off', es)" for i q off q' off' es
    using that
    by (induction a i q off arbitrary: q' off' es rule: drain.induct) (auto split: if_splits prod.splits)
  have "carried (datagram_new\<lparr>dg_type := Data_ack, dg_id := i, dg_offset := off, dg_length := 0\<rparr>)" for i off
    by (simp add: carried_def datagram_new_def)
  then show ?thesis
    using assms stream_ok_drain [of s a]
    by (auto simp: stream_own_def drain_received_def send_ack_def Let_def puts split: list.splits prod.splits)
qed

lemma own_feed:
  assumes "stream_own j s"
  shows "stream_own j (fst (stream_feed a d s)) \<and> effects_own a j (snd (stream_feed a d s))"
proof -
  consider "dg_type d = Data \<or> dg_type d = Abort" | "dg_type d = Data_ack"
    | "dg_type d \<notin> {Data, Abort, Data_ack}" by blast
  then show ?thesis
  proof cases
    case 1
    have "stream_own j (s\<lparr>st_recv_queue := map_assign (dg_offset d) d (st_recv_queue s)\<rparr>)"
      using assms by (simp add: stream_own_def stream_ok_def smap.ok_assign)
    then show ?thesis using 1 own_drain by (simp add: stream_feed_data)
  next
    case 2
    have "stream_own j (fst (send_one_datagram (s\<lparr>st_send_offset := dg_offset d\<rparr>)))
        \<and> effects_own a j (snd (send_one_datagram (s\<lparr>st_send_offset := dg_offset d\<rparr>)))"
      using assms by (intro own_send_one) (simp_all add: stream_own_def stream_ok_def)
    then show ?thesis using 2 own_drain by (simp add: stream_feed_ack Let_def)
  next
    case 3
    then show ?thesis using assms by (simp add: stream_feed_other)
  qed
qed

lemma own_enqueue:
  "\<forall>e \<in> set q. dg_type (snd e) = Data \<and> dg_id (snd e) = i \<Longrightarrow>
   \<forall>e \<in> set (enqueue_segments i base data off q). dg_type (snd e) = Data \<and> dg_id (snd e) = i"
proof (induction i base data off q rule: enqueue_segments.induct)
  case (1 i base data off q)
  let ?d = "segment i base data off"
  have "\<forall>e \<in> set (map_insert (dg_offset ?d) ?d q). dg_type (snd e) = Data \<and> dg_id (snd e) = i"
    using "1.prems" map_insert_subset [of "dg_offset ?d" ?d q] by (auto simp: segment_eq)
  then show ?case
    using 1 by (subst enqueue_segments.simps) (simp add: Let_def)
qed

lemma own_send:
  "stream_own j s \<Longrightarrow> stream_own j (fst (stream_send data s)) \<and> effects_own a j (snd (stream_send data s))"
  unfolding stream_send_def
  by (rule own_send_one)
    (auto simp: stream_own_def stream_ok_def sorted_enqueue enqueue_segments_short dest: own_enqueue)

lemma own_late_timer:
  "stream_own j s \<Longrightarrow> stream_own j (fst (stream_late_timer s)) \<and> effects_own a j (snd (stream_late_timer s))"
  using own_send_one [of s j] by (simp add: stream_late_timer_def retransmit_def stream_own_def stream_ok_def)

lemma own_timer:
  "stream_own j s \<Longrightarrow> stream_own j (fst (stream_timer_fires s)) \<and> effects_own a j (snd (stream_timer_fires s))"
  using own_send_one [of "s\<lparr>st_timer := False\<rparr>" j]
  by (simp add: stream_timer_fires_def retransmit_def stream_own_def stream_ok_def)

section \<open>Sealed datagrams\<close>

text \<open>The bytes of a datagram encrypted under the key \<open>k\<close> with the \<open>n\<close>-th random block.\<close>

definition seal :: "crypto \<Rightarrow> bytes \<Rightarrow> nat \<Rightarrow> datagram \<Rightarrow> bytes" where
  "seal c k n d = datagram_wire (if dg_payload d = [] then d
     else d\<lparr>dg_payload := random_block c n @ cfb_encrypt c k (random_block c n) (dg_payload d)\<rparr>)"

definition sealed :: "crypto \<Rightarrow> bytes \<Rightarrow> datagram \<Rightarrow> bytes \<Rightarrow> bool" where
  "sealed c k d w \<longleftrightarrow> (\<exists>n. w = seal c k n d)"

text \<open>Both ends use the same cipher.\<close>

definition same_cipher :: "crypto \<Rightarrow> crypto \<Rightarrow> bool" where
  "same_cipher c c' \<longleftrightarrow> cfb_encrypt c = cfb_encrypt c'"

lemma decrypt_sealed:
  assumes "cfb_ok c" and "cfb_ok c'" and "same_cipher c c'" and "el_key el = k" and "carried d"
    and "dg_payload d \<noteq> []"
  shows "\<exists>el'. el_key el' = k \<and> decrypt_payload c'
    (d\<lparr>dg_payload := random_block c n @ cfb_encrypt c k (random_block c n) (dg_payload d)\<rparr>) el = (Inr d, el')"
proof -
  let ?iv = "random_block c n" and ?p = "dg_payload d"
  let ?y = "?iv @ cfb_encrypt c k ?iv ?p"
  have len: "length ?iv = 16" "length (cfb_encrypt c k ?iv ?p) = length ?p" "length ?p \<le> 1000" "0 < length ?p"
    using assms by (simp_all add: cfb_ok_def carried_def segment_max_def)
  have "cfb_decrypt c' k ?iv (cfb_encrypt c k ?iv ?p) = ?p"
    using assms(2,3) by (simp add: cfb_ok_def same_cipher_def)
  then have "aes_decrypt c' ?y (encryptor el) = (Inr ?p, (encryptor el)\<lparr>aes_iv := ?iv\<rparr>)"
    using len assms(4) by (simp add: aes_decrypt_long el_key_def)
  then show ?thesis
    using len assms(4)
    by (auto simp: decrypt_payload_def el_decrypt_def on_encryptor_def act el_key_def)
qed

section \<open>Peers in session\<close>

definition in_session :: "setting \<Rightarrow> address \<Rightarrow> bytes \<Rightarrow> pctx \<Rightarrow> bool" where
  "in_session se a k x \<longleftrightarrow> reachable se (pc_peer x) \<and> p_addr (pc_peer x) = a
     \<and> p_handler (pc_peer x) = Established_handler \<and> has_bits established (pc_peer x)
     \<and> p_timer (pc_peer x) = None
     \<and> (\<exists>el. p_encrypt (pc_peer x) = Some el \<and> el_key el = k)
     \<and> sorted_keys (p_streams (pc_peer x))
     \<and> (\<forall>j s. map_of (p_streams (pc_peer x)) j = Some s \<longrightarrow> stream_own j s)"

fun to_user :: "io list \<Rightarrow> message list" where
  "to_user [] = []"
| "to_user (Output m # es) = m # to_user es"
| "to_user (_ # es) = to_user es"

lemma to_network_append [simp]: "to_network (es @ fs) = to_network es @ to_network fs"
  by (induction es rule: to_network.induct) auto

lemma to_user_append [simp]: "to_user (es @ fs) = to_user es @ to_user fs"
  by (induction es rule: to_user.induct) auto

text \<open>What a peer in session hands over: datagrams for its own address, and reports.\<close>

fun plain_io :: "address \<Rightarrow> io \<Rightarrow> bool" where
  "plain_io a (Udp_send w b) = (b = a)"
| "plain_io a (Output m) = True"
| "plain_io a (Delete_peer b) = False"

text \<open>
  From \<open>x\<close> the peer came to \<open>x'\<close> in session, with the streams \<open>m\<close>, and put what \<open>es\<close> asks for
  on the wire and into the output ring.
\<close>

definition performs :: "setting \<Rightarrow> address \<Rightarrow> bytes \<Rightarrow> pctx \<Rightarrow> (u32 \<rightharpoonup> stream) \<Rightarrow> effect list \<Rightarrow> pctx \<Rightarrow> bool" where
  "performs se a k x m es x' \<longleftrightarrow> in_session se a k x' \<and> map_of (p_streams (pc_peer x')) = m
     \<and> (\<exists>out. pc_io x' = pc_io x @ out \<and> to_user out = puts es
          \<and> list_all2 (sealed (se_crypto se) k) (sent es) (to_network out)
          \<and> (\<forall>e \<in> set out. plain_io a e))"

lemma performs_nothing:
  "in_session se a k x \<Longrightarrow> performs se a k x (map_of (p_streams (pc_peer x))) [] x"
  by (simp add: performs_def)

lemma performs_silent: "pc_io y = pc_io x \<Longrightarrow> performs se a k y = performs se a k x"
  by (simp add: performs_def fun_eq_iff)

lemma performs_trans:
  assumes "performs se a k x m es y" and "performs se a k y m' fs z"
  shows "performs se a k x m' (es @ fs) z"
proof -
  let ?sealed = "list_all2 (sealed (se_crypto se) k)"
  obtain us vs where "pc_io y = pc_io x @ us" "to_user us = puts es" "?sealed (sent es) (to_network us)"
      "\<forall>e \<in> set us. plain_io a e"
      "pc_io z = pc_io y @ vs" "to_user vs = puts fs" "?sealed (sent fs) (to_network vs)"
      "\<forall>e \<in> set vs. plain_io a e"
    using assms by (auto simp: performs_def)
  then have "pc_io z = pc_io x @ us @ vs" "to_user (us @ vs) = puts (es @ fs)"
      "?sealed (sent (es @ fs)) (to_network (us @ vs))" "\<forall>e \<in> set (us @ vs). plain_io a e"
    by (auto simp: list_all2_appendI)
  then show ?thesis using assms(2) unfolding performs_def by blast
qed

abbreviation always :: "'a peer_action \<Rightarrow> (pctx \<Rightarrow> bool) \<Rightarrow> pctx \<Rightarrow> bool" where
  "always m P x \<equiv> wp m (\<lambda>_. P) (\<lambda>_ _. False) x"

lemma session_send:
  assumes "cfb_ok (se_crypto se)" and "in_session se a k x" and "carried d"
  shows "always (peer_send_datagram se d)
    (performs se a k x (map_of (p_streams (pc_peer x))) [Send_datagram d]) x"
proof -
  let ?c = "se_crypto se" and ?n = "pc_rnd x"
  obtain el where el: "p_encrypt (pc_peer x) = Some el" "el_key el = k"
    using assms(2) by (auto simp: in_session_def)
  obtain d' el' where enc: "encrypt_payload ?c ?n d el = (Inr d', el')"
    by (cases "dg_payload d = []") (auto simp: encrypt_payload_eval)
  have small: "small d'" using small_encrypted [OF assms(1) _ enc] assms(3) by (simp add: carried_def)
  have d': "datagram_wire d' = seal ?c k ?n d" "el_key el' = k"
    using enc el(2) by (auto simp: encrypt_payload_eval seal_def el_key_def split: if_splits)
  have "wp (encrypt_payload ?c ?n d) Q E el = Q d' el'" for Q E
    by (simp add: wp_def enc)
  moreover have "datagram_bytes d' = Inr (datagram_wire d')"
    using small by (intro datagram_write_ok) (simp add: small_def)
  ultimately show ?thesis
    using assms(2) el(1) d'
    by (auto simp: peer_send_datagram_def wps wp_on_encrypt_layer wp_do_send in_session_def
        performs_def sealed_def)
qed

lemma session_effects:
  assumes "cfb_ok (se_crypto se)"
  shows "in_session se a k x \<Longrightarrow> \<forall>d \<in> set (sent es). carried d \<Longrightarrow>
    always (for_each (run_effect se) es) (performs se a k x (map_of (p_streams (pc_peer x))) es) x"
proof (induction es arbitrary: x)
  case Nil
  then show ?case by (simp add: wps performs_nothing del: for_each.simps)
next
  case (Cons e es)
  let ?m = "map_of (p_streams (pc_peer x))"
  have one: "always (run_effect se e) (performs se a k x ?m [e]) x"
  proof (cases e)
    case (Send_datagram d)
    then show ?thesis
      using Cons.prems session_send [OF assms] by (simp add: run_effect_def)
  next
    case (Put m)
    then show ?thesis
      using Cons.prems(1) by (simp add: run_effect_def wps performs_def in_session_def)
  qed
  have rest: "always (for_each (run_effect se) es) (performs se a k x ?m (e # es)) y"
    if y: "performs se a k x ?m [e] y" for y
  proof -
    have "in_session se a k y" "map_of (p_streams (pc_peer y)) = ?m"
      using y by (simp_all add: performs_def)
    then have "always (for_each (run_effect se) es) (performs se a k y ?m es) y"
      using Cons.IH [of y] Cons.prems(2) by (cases e) simp_all
    then show ?thesis
      by (rule wp_mono) (use performs_trans [OF y] in simp_all)
  qed
  show ?case unfolding wp_for_each_Cons
    by (rule wp_mono [OF one]) (use rest in simp_all)
qed

section \<open>What a peer in session does\<close>

lemma session_streams:
  assumes "in_session se a k x" and "sorted_keys m" and "\<forall>j s. map_of m j = Some s \<longrightarrow> stream_own j s"
  shows "in_session se a k (x\<lparr>pc_peer := (pc_peer x)\<lparr>p_streams := m\<rparr>\<rparr>)"
    "in_session se a k (x\<lparr>pc_peer := (pc_peer x)\<lparr>p_streams := m\<rparr>, pc_io := out\<rparr>)"
  using assms by (simp_all add: in_session_def)

lemma session_streams_own:
  "in_session se a k x \<Longrightarrow> sorted_keys (p_streams (pc_peer x))
    \<and> (\<forall>j s. map_of (p_streams (pc_peer x)) j = Some s \<longrightarrow> stream_own j s)"
  by (simp add: in_session_def)

text \<open>An operation of the stream \<open>j\<close> that keeps it.\<close>

lemma session_stream:
  assumes "cfb_ok (se_crypto se)" and "in_session se a k x" and "map_of (p_streams (pc_peer x)) j = Some s"
    and "stream_own j (fst (f s)) \<and> effects_own a j (snd (f s))"
  shows "always (on_stream se j f)
    (performs se a k x ((map_of (p_streams (pc_peer x)))(j \<mapsto> fst (f s))) (snd (f s))) x"
proof -
  let ?y = "x\<lparr>pc_peer := (pc_peer x)\<lparr>p_streams := map_assign j (fst (f s)) (p_streams (pc_peer x))\<rparr>\<rparr>"
  have sorted: "sorted_keys (p_streams (pc_peer x))" using assms(2) by (simp add: in_session_def)
  then have m: "map_of (p_streams (pc_peer ?y)) = (map_of (p_streams (pc_peer x)))(j \<mapsto> fst (f s))"
    by (simp add: smap.find_assign fun_eq_iff)
  have y: "in_session se a k ?y"
    using session_streams_own [OF assms(2)] assms(4) sorted
    by (intro session_streams [OF assms(2)]) (simp_all add: smap.ok_assign smap.find_assign)
  have "always (for_each (run_effect se) (snd (f s)))
      (performs se a k ?y (map_of (p_streams (pc_peer ?y))) (snd (f s))) ?y"
    by (rule session_effects [OF assms(1) y]) (use assms(4) in \<open>simp add: effects_own_def\<close>)
  then show ?thesis
    using assms(3) m performs_silent [of ?y x]
    by (simp add: on_stream_def peer_get_stream_def wps case_prod_beta)
qed

text \<open>The stream of an id: one that does not exist yet is created by the first datagram for it.\<close>

definition stream_at :: "u32 \<Rightarrow> pctx \<Rightarrow> stream" where
  "stream_at j x = (case map_of (p_streams (pc_peer x)) j of None \<Rightarrow> stream_new j | Some s \<Rightarrow> s)"

lemma stream_at_own: "in_session se a k x \<Longrightarrow> stream_own j (stream_at j x)"
  by (auto simp: in_session_def stream_at_def stream_own_new split: option.splits)

text \<open>A datagram is fed to the stream of its id and to no other.\<close>

definition fed :: "setting \<Rightarrow> address \<Rightarrow> bytes \<Rightarrow> datagram \<Rightarrow> pctx \<Rightarrow> pctx \<Rightarrow> bool" where
  "fed se a k d x x' \<longleftrightarrow> (\<exists>es. performs se a k x
       ((map_of (p_streams (pc_peer x)))(dg_id d \<mapsto> fst (stream_feed a d (stream_at (dg_id d) x)))) es x'
     \<and> effects_own a (dg_id d) es
     \<and> sent es = sent (snd (stream_feed a d (stream_at (dg_id d) x)))
     \<and> delivered es = delivered (snd (stream_feed a d (stream_at (dg_id d) x))))"

lemma session_feed:
  assumes "cfb_ok (se_crypto se)" and "in_session se a k x"
  shows "always (feed_stream se d) (fed se a k d x) x"
proof -
  let ?j = "dg_id d" and ?m = "map_of (p_streams (pc_peer x))"
  let ?s = "stream_at (dg_id d) x"
  have addr: "p_addr (pc_peer x) = a" and sorted: "sorted_keys (p_streams (pc_peer x))"
    using assms(2) by (simp_all add: in_session_def)
  have own: "stream_own ?j (fst (stream_feed a d ?s)) \<and> effects_own a ?j (snd (stream_feed a d ?s))"
    by (rule own_feed [OF stream_at_own [OF assms(2)]])
  show ?thesis
  proof (cases "?m ?j")
    case (Some s)
    then have s: "?s = s" by (simp add: stream_at_def)
    have "always (on_stream se ?j (stream_feed a d))
        (performs se a k x (?m(?j \<mapsto> fst (stream_feed a d s))) (snd (stream_feed a d s))) x"
      by (rule session_stream [OF assms Some]) (use own s in simp)
    then show ?thesis
      using Some addr own s
      by (simp add: feed_stream_def peer_get_stream_def wps) (erule wp_mono, auto simp: fed_def)
  next
    case None
    then have s: "?s = stream_new ?j" by (simp add: stream_at_def)
    let ?y = "x\<lparr>pc_peer := (pc_peer x)\<lparr>p_streams := map_insert ?j (stream_new ?j) (p_streams (pc_peer x))\<rparr>,
        pc_io := pc_io x @ [Output (New_stream a ?j)]\<rparr>"
    have m: "map_of (p_streams (pc_peer ?y)) = ?m(?j \<mapsto> stream_new ?j)"
      using None sorted by (auto simp: smap.find_insert fun_eq_iff)
    have y: "in_session se a k ?y"
      using session_streams_own [OF assms(2)] None sorted
      by (intro session_streams [OF assms(2)]) (simp_all add: smap.ok_insert smap.find_insert stream_own_new)
    have first: "performs se a k x (?m(?j \<mapsto> stream_new ?j)) [Put (New_stream a ?j)] ?y"
      using y m by (simp add: performs_def)
    have "always (on_stream se ?j (stream_feed a d)) (performs se a k ?y
        (?m(?j \<mapsto> fst (stream_feed a d (stream_new ?j)))) (snd (stream_feed a d (stream_new ?j)))) ?y"
      using session_stream [OF assms(1) y, of ?j "stream_new ?j" "stream_feed a d"] own s m by simp
    then have "always (on_stream se ?j (stream_feed a d)) (fed se a k d x) ?y"
    proof (rule wp_mono)
      fix y'
      assume "performs se a k ?y (?m(?j \<mapsto> fst (stream_feed a d (stream_new ?j)))) (snd (stream_feed a d (stream_new ?j))) y'"
      from performs_trans [OF first this] show "fed se a k d x y'"
        unfolding fed_def s by (intro exI conjI, assumption) (use own s in simp_all)
    qed simp
    then show ?thesis
      using None addr by (simp add: feed_stream_def peer_get_stream_def wps)
  qed
qed

lemma session_encrypt:
  "in_session se a k x \<Longrightarrow> el_key el = k \<Longrightarrow>
    in_session se a k (x\<lparr>pc_peer := (pc_peer x)\<lparr>p_encrypt := Some el\<rparr>\<rparr>)"
  by (simp add: in_session_def)

text \<open>What the other side sealed is fed as the datagram it was.\<close>

lemma session_datagram:
  assumes "cfb_ok (se_crypto se)" and "cfb_ok c" and "same_cipher c (se_crypto se)"
    and x: "in_session se a k x" and "sealed c k d w" and "carried d"
  shows "always (peer_feed se w) (fed se a k d x) x"
proof -
  obtain el where el: "p_encrypt (pc_peer x) = Some el" "el_key el = k"
    using x by (auto simp: in_session_def)
  obtain n where w: "w = seal c k n d" using assms(5) by (auto simp: sealed_def)
  let ?e = "if dg_payload d = [] then d
    else d\<lparr>dg_payload := random_block c n @ cfb_encrypt c k (random_block c n) (dg_payload d)\<rparr>"
  have type: "named_type (dg_type ?e)" "dg_type ?e \<notin> {Hello, Echo, Echo_back, Abort}"
    using assms(6) by (auto simp: carried_def named_type_def)
  have small: "small ?e"
    using assms(2,6) by (simp add: carried_def small_def cfb_ok_def segment_max_def)
  obtain el' where dec: "decrypt_payload (se_crypto se) ?e el = (Inr d, el')" "el_key el' = k"
    using decrypt_sealed [OF assms(2,1,3) el(2) assms(6)] el(2)
    by (cases "dg_payload d = []") (auto simp: decrypt_payload_def act)
  let ?y = "x\<lparr>pc_peer := (pc_peer x)\<lparr>p_encrypt := Some el'\<rparr>\<rparr>"
  have "always (peer_feed se w) P x = always (feed_stream se d) P ?y" for P
  proof -
    have "wp (decrypt_payload (se_crypto se) ?e) Q E el = Q d el'" for Q E
      by (simp add: wp_def dec(1))
    then show ?thesis
      using x type el(1)
      by (simp add: w seal_def feed_wire [OF type(1) small] run_handler_def established_handler_def
          in_session_def wps wp_on_encrypt_layer)
  qed
  moreover have "always (feed_stream se d) (fed se a k d ?y) ?y"
    by (rule session_feed [OF assms(1) session_encrypt [OF x dec(2)]])
  moreover have "fed se a k d ?y = fed se a k d x"
    by (simp add: fun_eq_iff fed_def performs_def stream_at_def)
  ultimately show ?thesis by simp
qed

section \<open>The other streams\<close>

text \<open>The events of a peer that have nothing to do with the stream \<open>i\<close>.\<close>

fun foreign :: "u32 \<Rightarrow> peer_event \<Rightarrow> bool" where
  "foreign i (Stream_timer j) = (j \<noteq> i)"
| "foreign i (Late_stream_timer j) = (j \<noteq> i)"
| "foreign i (User_add_stream j) = (j \<noteq> i)"
| "foreign i (User_del_stream j) = (j \<noteq> i)"
| "foreign i (User_send j data) = (j \<noteq> i)"
| "foreign i Handshake_timer = True"
| "foreign i _ = False"

definition apart :: "setting \<Rightarrow> address \<Rightarrow> bytes \<Rightarrow> u32 \<Rightarrow> pctx \<Rightarrow> pctx \<Rightarrow> bool" where
  "apart se a k i x x' \<longleftrightarrow> (\<exists>j m es. j \<noteq> i \<and> performs se a k x m es x'
     \<and> m i = map_of (p_streams (pc_peer x)) i \<and> effects_own a j es)"

lemma apart_quiet:
  assumes "performs se a k x m [] x'" and "m i = map_of (p_streams (pc_peer x)) i"
  shows "apart se a k i x x'"
proof -
  have "i + 1 \<noteq> i" by simp
  moreover have "effects_own a (i + 1) []" by simp
  ultimately show ?thesis unfolding apart_def using assms by blast
qed

lemma apart_stream:
  assumes "cfb_ok (se_crypto se)" and "in_session se a k x" and "map_of (p_streams (pc_peer x)) j = Some s"
    and own: "stream_own j (fst (f s)) \<and> effects_own a j (snd (f s))" and "j \<noteq> i"
  shows "always (on_stream se j f) (apart se a k i x) x"
proof -
  have "apart se a k i x x'"
    if "performs se a k x ((map_of (p_streams (pc_peer x)))(j \<mapsto> fst (f s))) (snd (f s)) x'" for x'
  proof -
    have "((map_of (p_streams (pc_peer x)))(j \<mapsto> fst (f s))) i = map_of (p_streams (pc_peer x)) i"
      using assms(5) by simp
    then show ?thesis unfolding apart_def using that own assms(5) by blast
  qed
  then show ?thesis
    using session_stream [where f = f, OF assms(1-3) own] by (auto intro: wp_mono)
qed

lemma apart_streams:
  assumes "in_session se a k x" and "sorted_keys m" and "\<forall>j s. map_of m j = Some s \<longrightarrow> stream_own j s"
    and "map_of m i = map_of (p_streams (pc_peer x)) i"
  shows "apart se a k i x (x\<lparr>pc_peer := (pc_peer x)\<lparr>p_streams := m\<rparr>\<rparr>)"
  using session_streams(1) [OF assms(1-3)] assms(4)
  by (intro apart_quiet [of se a k x "map_of m"]) (simp_all add: performs_def)

lemma apart_found:
  assumes "cfb_ok (se_crypto se)" and x: "in_session se a k x" and "j \<noteq> i"
    and own: "\<And>s. stream_own j s \<Longrightarrow> stream_own j (fst (f s)) \<and> effects_own a j (snd (f s))"
  shows "always (seq (pget (peer_get_stream j)) (\<lambda>v. whenever (v \<noteq> None) (on_stream se j f)))
    (apart se a k i x) x"
proof (cases "map_of (p_streams (pc_peer x)) j")
  case None
  have "apart se a k i x x" by (rule apart_quiet [OF performs_nothing [OF x]]) simp
  then show ?thesis using None by (simp add: peer_get_stream_def wps)
next
  case (Some s)
  then have "stream_own j s" using x by (simp add: in_session_def)
  from apart_stream [where f = f, OF assms(1,2) Some own [OF this] assms(3)] Some show ?thesis
    by (simp add: peer_get_stream_def wps)
qed

text \<open>The events of one stream leave every other stream and its data alone.\<close>

lemma session_foreign:
  assumes c: "cfb_ok (se_crypto se)" and x: "in_session se a k x" and "foreign i ev"
  shows "always (peer_do se ev) (apart se a k i x) x"
proof -
  have own: "\<forall>j s. map_of (p_streams (pc_peer x)) j = Some s \<longrightarrow> stream_own j s"
    and sorted: "sorted_keys (p_streams (pc_peer x))"
    using x by (simp_all add: in_session_def)
  note found = apart_found [OF c x]
  show ?thesis
  proof (cases ev)
    case (Stream_timer j)
    then show ?thesis
      using assms(3) found [of j i stream_timer_fires] own_timer
      by (simp add: stream_timer_event_def peer_stream_timer_fires_def)
  next
    case (Late_stream_timer j)
    then show ?thesis
      using assms(3) found [of j i stream_late_timer] own_late_timer
      by (simp add: late_stream_timer_event_def)
  next
    case (User_send j data)
    then show ?thesis
      using assms(3) found [of j i "stream_send data"] own_send by (simp add: send_on_stream_def)
  next
    case (User_add_stream j)
    let ?m = "map_insert j (stream_new j) (p_streams (pc_peer x))"
    have m: "\<forall>n s. map_of ?m n = Some s \<longrightarrow> stream_own n s"
      using own sorted by (simp add: smap.find_insert stream_own_new)
    have "apart se a k i x (x\<lparr>pc_peer := (pc_peer x)\<lparr>p_streams := ?m\<rparr>\<rparr>)"
      using User_add_stream assms(3) sorted
      by (intro apart_streams [OF x _ m]) (simp_all add: smap.ok_insert smap.find_insert)
    moreover have "apart se a k i x x" by (rule apart_quiet [OF performs_nothing [OF x]]) simp
    ultimately show ?thesis
      using User_add_stream
      by (cases "map_of (p_streams (pc_peer x)) j") (simp_all add: peer_add_stream_def wps)
  next
    case (User_del_stream j)
    let ?m = "map_erase j (p_streams (pc_peer x))"
    have "apart se a k i x (x\<lparr>pc_peer := (pc_peer x)\<lparr>p_streams := ?m\<rparr>\<rparr>)"
      using User_del_stream assms(3) sorted own
      by (intro apart_streams [OF x]) (simp_all add: smap.ok_erase smap.find_erase)
    then show ?thesis
      using User_del_stream by (simp add: peer_del_stream_def Let_def wps)
  next
    case Handshake_timer
    have "apart se a k i x x" by (rule apart_quiet [OF performs_nothing [OF x]]) simp
    then show ?thesis
      using Handshake_timer x by (simp add: peer_timer_fires_def in_session_def wps)
  qed (use assms(3) in simp_all)
qed

end
