(* ===== verification/Secure_Link.thy ===== *)
theory Secure_Link
  imports Session
begin

text \<open>
  Two connected peers and the network between them. Each side is the code's \<open>peer\<close>, the network
  carries the bytes the peers hand to their socket and may lose, duplicate and reorder them, and
  both users go on using other streams. As the stream \<open>i\<close> sees it this is the link of \<open>Link\<close>:
  the theorems about streams hold of the encrypted datagrams of two peers.
\<close>

section \<open>The state and its steps\<close>

record channel =
  ch_snd :: pctx
  ch_rcv :: pctx
  ch_fwd :: "bytes list"      \<comment> \<open>in flight to the receiver\<close>
  ch_bwd :: "bytes list"      \<comment> \<open>in flight to the sender\<close>
  ch_told :: "message list"   \<comment> \<open>what the receiver put into its output ring\<close>

text \<open>An event at a peer; an exception leaves the state it had reached.\<close>

definition acts :: "setting \<Rightarrow> peer_event \<Rightarrow> pctx \<Rightarrow> pctx" where
  "acts se ev x = snd (peer_do se ev (x\<lparr>pc_io := []\<rparr>))"

definition sender_does :: "setting \<Rightarrow> peer_event \<Rightarrow> channel \<Rightarrow> channel" where
  "sender_does se ev c = (case acts se ev (ch_snd c) of
     x \<Rightarrow> c\<lparr>ch_snd := x, ch_fwd := ch_fwd c @ to_network (pc_io x)\<rparr>)"

definition receiver_does :: "setting \<Rightarrow> peer_event \<Rightarrow> channel \<Rightarrow> channel" where
  "receiver_does se ev c = (case acts se ev (ch_rcv c) of
     y \<Rightarrow> c\<lparr>ch_rcv := y, ch_bwd := ch_bwd c @ to_network (pc_io y), ch_told := ch_told c @ to_user (pc_io y)\<rparr>)"

text \<open>The sender's user opens the stream \<open>i\<close>, and sends the data on it.\<close>

definition open_channel :: "setting \<Rightarrow> u32 \<Rightarrow> pctx \<Rightarrow> pctx \<Rightarrow> channel" where
  "open_channel se i x y = sender_does se (User_add_stream i)
     \<lparr>ch_snd = x, ch_rcv = y, ch_fwd = [], ch_bwd = [], ch_told = []\<rparr>"

definition dispatch :: "setting \<Rightarrow> u32 \<Rightarrow> bytes \<Rightarrow> channel \<Rightarrow> channel" where
  "dispatch se i data c = sender_does se (User_send i data) c"

text \<open>The pool of random blocks is shared with the other peers of the service, who draw from it, too.\<close>

inductive channel_step :: "setting \<Rightarrow> setting \<Rightarrow> u32 \<Rightarrow> channel \<Rightarrow> channel \<Rightarrow> bool" for sa sb i where
  Timer: "channel_step sa sb i c (sender_does sa (Stream_timer i) c)"
| Late: "channel_step sa sb i c (sender_does sa (Late_stream_timer i) c)"
| Arrive: "w \<in> set (ch_fwd c) \<Longrightarrow> channel_step sa sb i c (receiver_does sb (Datagram_in w) c)"
| Return: "w \<in> set (ch_bwd c) \<Longrightarrow> channel_step sa sb i c (sender_does sa (Datagram_in w) c)"
| Lose: "set fwd \<subseteq> set (ch_fwd c) \<Longrightarrow> set bwd \<subseteq> set (ch_bwd c) \<Longrightarrow>
    channel_step sa sb i c (c\<lparr>ch_fwd := fwd, ch_bwd := bwd\<rparr>)"
| Sender_other: "foreign i ev \<Longrightarrow> channel_step sa sb i c (sender_does sa ev c)"
| Receiver_other: "foreign i ev \<Longrightarrow> channel_step sa sb i c (receiver_does sb ev c)"
| Sender_draws: "channel_step sa sb i c (c\<lparr>ch_snd := (ch_snd c)\<lparr>pc_rnd := n\<rparr>\<rparr>)"
| Receiver_draws: "channel_step sa sb i c (c\<lparr>ch_rcv := (ch_rcv c)\<lparr>pc_rnd := n\<rparr>\<rparr>)"

inductive channel_run :: "setting \<Rightarrow> setting \<Rightarrow> u32 \<Rightarrow> channel \<Rightarrow> channel \<Rightarrow> bool" for sa sb i c where
  Start: "channel_run sa sb i c c"
| Step: "channel_run sa sb i c d \<Longrightarrow> channel_step sa sb i d e \<Longrightarrow> channel_run sa sb i c e"

section \<open>The stream's view of the network\<close>

text \<open>The wire carries the sealed datagrams of all streams; those of the stream \<open>i\<close> are \<open>ds\<close>.\<close>

definition in_flight :: "crypto \<Rightarrow> bytes \<Rightarrow> u32 \<Rightarrow> datagram list \<Rightarrow> bytes list \<Rightarrow> bool" where
  "in_flight c k i ds ws \<longleftrightarrow> (\<exists>es. list_all2 (sealed c k) es ws \<and> (\<forall>d \<in> set es. carried d)
     \<and> filter (\<lambda>d. dg_id d = i) es = ds)"

lemma in_flight_Nil: "in_flight c k i [] []"
  by (simp add: in_flight_def)

lemma in_flight_append:
  assumes "in_flight c k i ds ws" and "list_all2 (sealed c k) es vs" and "\<forall>d \<in> set es. carried d"
  shows "in_flight c k i (ds @ filter (\<lambda>d. dg_id d = i) es) (ws @ vs)"
proof -
  obtain fs where fs: "list_all2 (sealed c k) fs ws" "\<forall>d \<in> set fs. carried d" "filter (\<lambda>d. dg_id d = i) fs = ds"
    using assms(1) by (auto simp: in_flight_def)
  then have "list_all2 (sealed c k) (fs @ es) (ws @ vs)" using assms(2) by (simp add: list_all2_appendI)
  then show ?thesis
    unfolding in_flight_def using fs assms(3) by (intro exI [of _ "fs @ es"]) auto
qed

lemma in_flight_member:
  assumes "in_flight c k i ds ws" and "w \<in> set ws"
  shows "\<exists>d. sealed c k d w \<and> carried d \<and> (dg_id d = i \<longrightarrow> d \<in> set ds)"
proof -
  obtain es where es: "list_all2 (sealed c k) es ws" "\<forall>d \<in> set es. carried d" "filter (\<lambda>d. dg_id d = i) es = ds"
    using assms(1) by (auto simp: in_flight_def)
  obtain n where n: "n < length ws" "ws ! n = w" using assms(2) by (auto simp: in_set_conv_nth)
  then have "sealed c k (es ! n) w" "es ! n \<in> set es"
    using es(1) by (auto simp: list_all2_conv_all_nth)
  then show ?thesis using es(2,3) by auto
qed

lemma in_flight_subset:
  "in_flight c k i ds ws \<Longrightarrow> set vs \<subseteq> set ws \<Longrightarrow> \<exists>es. in_flight c k i es vs \<and> set es \<subseteq> set ds"
proof (induction vs)
  case Nil
  show ?case using in_flight_Nil by (intro exI [of _ "[]"]) simp
next
  case (Cons v vs)
  then obtain es where es: "in_flight c k i es vs" "set es \<subseteq> set ds" by auto
  obtain d where d: "sealed c k d v" "carried d" "dg_id d = i \<longrightarrow> d \<in> set ds"
    using in_flight_member [OF Cons.prems(1), of v] Cons.prems(2) by auto
  obtain fs where "list_all2 (sealed c k) fs vs" "\<forall>d \<in> set fs. carried d" "filter (\<lambda>d. dg_id d = i) fs = es"
    using es(1) by (auto simp: in_flight_def)
  then have "in_flight c k i (filter (\<lambda>d. dg_id d = i) (d # fs)) (v # vs)"
    unfolding in_flight_def using d by (intro exI [of _ "d # fs"]) simp
  moreover have "set (filter (\<lambda>d. dg_id d = i) (d # fs)) \<subseteq> set ds"
    using es(2) d(3) \<open>filter _ fs = es\<close> by auto
  ultimately show ?case by blast
qed

text \<open>When nothing but the stream's datagrams is in flight, the oldest is the stream's oldest.\<close>

lemma in_flight_first:
  assumes "in_flight c k i ds (w # ws)" and "length ds = length (w # ws)"
  shows "\<exists>d ds'. ds = d # ds' \<and> sealed c k d w \<and> carried d \<and> dg_id d = i
    \<and> in_flight c k i ds' ws \<and> length ds' = length ws"
proof -
  obtain e es where e: "list_all2 (sealed c k) (e # es) (w # ws)" "\<forall>d \<in> set (e # es). carried d"
      "filter (\<lambda>d. dg_id d = i) (e # es) = ds"
    using assms(1) by (auto simp: in_flight_def list_all2_Cons2)
  have "length es = length ws" using e(1) by (auto dest: list_all2_lengthD)
  moreover have "length (filter (\<lambda>d. dg_id d = i) es) \<le> length es" by simp
  ultimately have "dg_id e = i" using e(3) assms(2) by (auto split: if_splits)
  then show ?thesis using e assms(2) by (auto simp: in_flight_def)
qed

section \<open>Simulation\<close>

text \<open>What both ends bring along: settings that hold, and the same cipher.\<close>

definition ends_ok :: "setting \<Rightarrow> setting \<Rightarrow> bool" where
  "ends_ok sa sb \<longleftrightarrow> setting_ok sa \<and> setting_ok sb \<and> same_cipher (se_crypto sa) (se_crypto sb)"

text \<open>
  The sender is at the address \<open>a\<close>, the receiver at \<open>b\<close>; both hold the key \<open>k\<close>. With the flag
  \<open>alone\<close> nothing but the stream's datagrams is in flight.
\<close>

definition tracks :: "setting \<Rightarrow> setting \<Rightarrow> address \<Rightarrow> address \<Rightarrow> bytes \<Rightarrow> u32 \<Rightarrow> bool \<Rightarrow> channel \<Rightarrow> link \<Rightarrow> bool" where
  "tracks sa sb a b k i alone c l \<longleftrightarrow> in_session sa b k (ch_snd c) \<and> in_session sb a k (ch_rcv c)
     \<and> map_of (p_streams (pc_peer (ch_snd c))) i = Some (lk_snd l)
     \<and> stream_at i (ch_rcv c) = lk_rcv l
     \<and> in_flight (se_crypto sa) k i (lk_fwd l) (ch_fwd c)
     \<and> in_flight (se_crypto sb) k i (lk_bwd l) (ch_bwd c)
     \<and> heard a i (ch_told c) = lk_got l
     \<and> (alone \<longrightarrow> length (ch_fwd c) = length (lk_fwd l) \<and> length (ch_bwd c) = length (lk_bwd l))"

lemma always_acts: "always (peer_do se ev) P (x\<lparr>pc_io := []\<rparr>) \<Longrightarrow> P (acts se ev x)"
  by (auto simp: acts_def wp_def split: prod.splits sum.splits)

lemma in_session_io [simp]: "in_session se a k (x\<lparr>pc_io := out\<rparr>) = in_session se a k x"
  by (simp add: in_session_def)

lemma stream_at_io [simp]: "stream_at i (x\<lparr>pc_io := out\<rparr>) = stream_at i x"
  by (simp add: stream_at_def)

lemma tracks_draws:
  assumes "tracks sa sb a b k i alone c l"
  shows "tracks sa sb a b k i alone (c\<lparr>ch_snd := (ch_snd c)\<lparr>pc_rnd := n\<rparr>\<rparr>) l"
    "tracks sa sb a b k i alone (c\<lparr>ch_rcv := (ch_rcv c)\<lparr>pc_rnd := n\<rparr>\<rparr>) l"
  using assms by (simp_all add: tracks_def in_session_def stream_at_def)

lemma own_carried: "effects_own a j es \<Longrightarrow> \<forall>d \<in> set (sent es). carried d"
  by (simp add: effects_own_def)

lemma own_filter: "effects_own a j es \<Longrightarrow> filter (\<lambda>d. dg_id d = i) (sent es) = (if j = i then sent es else [])"
  by (auto simp: effects_own_def filter_empty_conv)

text \<open>A peer has performed what \<open>es\<close> asks for: the same step at the link.\<close>

lemma tracks_sender:
  assumes "tracks sa sb a b k i alone c l" and x: "performs sa b k ((ch_snd c)\<lparr>pc_io := []\<rparr>) m es x"
    and "m i = Some s" and "effects_own b j es" and "alone \<longrightarrow> j = i"
  shows "tracks sa sb a b k i alone (c\<lparr>ch_snd := x, ch_fwd := ch_fwd c @ to_network (pc_io x)\<rparr>)
    (l\<lparr>lk_snd := s, lk_fwd := lk_fwd l @ (if j = i then sent es else [])\<rparr>)"
  using assms in_flight_append [OF _ _ own_carried [OF assms(4)]] own_filter [OF assms(4)]
  by (auto simp: tracks_def performs_def dest: list_all2_lengthD)

lemma tracks_receiver:
  assumes "tracks sa sb a b k i alone c l" and y: "performs sb a k ((ch_rcv c)\<lparr>pc_io := []\<rparr>) m es y"
    and "(case m i of None \<Rightarrow> stream_new i | Some s \<Rightarrow> s) = s" and "effects_own a j es" and "alone \<longrightarrow> j = i"
  shows "tracks sa sb a b k i alone
      (c\<lparr>ch_rcv := y, ch_bwd := ch_bwd c @ to_network (pc_io y), ch_told := ch_told c @ to_user (pc_io y)\<rparr>)
    (l\<lparr>lk_rcv := s, lk_bwd := lk_bwd l @ (if j = i then sent es else []),
       lk_got := lk_got l @ (if j = i then delivered es else [])\<rparr>)"
  using assms in_flight_append [OF _ _ own_carried [OF assms(4)]] own_filter [OF assms(4)]
    heard_own [OF assms(4), of i]
  by (auto simp: tracks_def performs_def stream_at_def dest: list_all2_lengthD)

text \<open>An operation of the stream itself at the sender.\<close>

lemma tracks_operation:
  assumes "ends_ok sa sb" and l: "tracks sa sb a b k i alone c l"
    and ev: "peer_do sa ev = seq (pget (peer_get_stream i)) (\<lambda>v. whenever (v \<noteq> None) (on_stream sa i f))"
    and own: "stream_own i (lk_snd l) \<Longrightarrow> stream_own i (fst (f (lk_snd l))) \<and> effects_own b i (snd (f (lk_snd l)))"
  shows "tracks sa sb a b k i alone (sender_does sa ev c)
    (case f (lk_snd l) of (s, es) \<Rightarrow> l\<lparr>lk_snd := s, lk_fwd := lk_fwd l @ sent es\<rparr>)"
proof -
  let ?x = "(ch_snd c)\<lparr>pc_io := []\<rparr>"
  have c: "cfb_ok (se_crypto sa)" using assms(1) by (simp add: ends_ok_def setting_ok_def)
  have x: "in_session sa b k ?x" and found: "map_of (p_streams (pc_peer ?x)) i = Some (lk_snd l)"
    using l by (simp_all add: tracks_def)
  have kept: "stream_own i (fst (f (lk_snd l))) \<and> effects_own b i (snd (f (lk_snd l)))"
    by (rule own) (use x found in \<open>simp add: in_session_def\<close>)
  have "always (peer_do sa ev) (performs sa b k ?x
      ((map_of (p_streams (pc_peer ?x)))(i \<mapsto> fst (f (lk_snd l)))) (snd (f (lk_snd l)))) ?x"
    using session_stream [where f = f, OF c x found kept] found
    by (simp add: ev peer_get_stream_def wps)
  from tracks_sender [OF l always_acts [OF this], of "fst (f (lk_snd l))" i] kept show ?thesis
    by (simp add: sender_does_def case_prod_beta)
qed

lemma tracks_timer:
  "ends_ok sa sb \<Longrightarrow> tracks sa sb a b k i alone c l \<Longrightarrow>
   tracks sa sb a b k i alone (sender_does sa (Stream_timer i) c) (timeout l)"
  unfolding timeout_def
  by (rule tracks_operation)
    (simp_all add: own_timer stream_timer_event_def peer_stream_timer_fires_def)

lemma tracks_late_timer:
  "ends_ok sa sb \<Longrightarrow> tracks sa sb a b k i alone c l \<Longrightarrow>
   tracks sa sb a b k i alone (sender_does sa (Late_stream_timer i) c) (late_timeout l)"
  unfolding late_timeout_def
  by (rule tracks_operation) (simp_all add: own_late_timer late_stream_timer_event_def)

lemma tracks_send:
  "ends_ok sa sb \<Longrightarrow> tracks sa sb a b k i alone c l \<Longrightarrow>
   tracks sa sb a b k i alone (sender_does sa (User_send i data) c) (submit data l)"
  unfolding submit_def
  by (rule tracks_operation) (simp_all add: own_send send_on_stream_def)

text \<open>The address only labels what is delivered.\<close>

lemma feed_address:
  "fst (stream_feed a d s) = fst (stream_feed b d s)"
  "sent (snd (stream_feed a d s)) = sent (snd (stream_feed b d s))"
proof -
  have drain: "fst (drain a i q off) = fst (drain b i q off)
      \<and> fst (snd (drain a i q off)) = fst (snd (drain b i q off))" for i q off
    by (induction a i q off rule: drain.induct) (auto split: prod.splits)
  have silent: "sent (snd (snd (drain a i q off))) = []" for a i q off
    using sent_puts [of a i q off] by (metis prod.collapse)
  have "fst (drain_received a s) = fst (drain_received b s)
      \<and> sent (snd (drain_received a s)) = sent (snd (drain_received b s))" for s
    using drain [of "st_id s" "st_recv_queue s" "st_recv_offset s"] silent
    by (auto simp: drain_received_def Let_def case_prod_beta send_ack_def split: list.splits)
  then show "fst (stream_feed a d s) = fst (stream_feed b d s)"
    "sent (snd (stream_feed a d s)) = sent (snd (stream_feed b d s))"
    by (simp_all add: stream_feed_def case_prod_beta)
qed

text \<open>A datagram arrives at the receiver: one of the stream's, or one of another stream.\<close>

lemma tracks_arrive:
  assumes ok: "ends_ok sa sb" and l: "tracks sa sb a b k i alone c l"
    and w: "sealed (se_crypto sa) k d w" "carried d" and "alone \<longrightarrow> dg_id d = i"
  shows "tracks sa sb a b k i alone (receiver_does sb (Datagram_in w) c) (if dg_id d = i then arrives a d l else l)"
proof -
  let ?y = "(ch_rcv c)\<lparr>pc_io := []\<rparr>" and ?y' = "acts sb (Datagram_in w) (ch_rcv c)"
  let ?r = "stream_feed a d (stream_at (dg_id d) ?y)"
  have y: "in_session sb a k ?y" and at: "stream_at i (ch_rcv c) = lk_rcv l"
    using l by (simp_all add: tracks_def)
  have "always (peer_do sb (Datagram_in w)) (fed sb a k d ?y) ?y"
    using ok session_datagram [OF _ _ _ y w] by (simp add: ends_ok_def setting_ok_def)
  from always_acts [OF this] obtain es where
      es: "performs sb a k ?y ((map_of (p_streams (pc_peer ?y)))(dg_id d \<mapsto> fst ?r)) es ?y'"
        "effects_own a (dg_id d) es" "sent es = sent (snd ?r)" "delivered es = delivered (snd ?r)"
    by (auto simp: fed_def)
  have "tracks sa sb a b k i alone (receiver_does sb (Datagram_in w) c)
      (l\<lparr>lk_rcv := (if dg_id d = i then fst ?r else lk_rcv l),
         lk_bwd := lk_bwd l @ (if dg_id d = i then sent es else []),
         lk_got := lk_got l @ (if dg_id d = i then delivered es else [])\<rparr>)"
    unfolding receiver_does_def
    by (rule tracks_receiver [OF l es(1) _ es(2)]) (use at assms(5) in \<open>auto simp: stream_at_def\<close>)
  then show ?thesis using at es(3,4) by (auto simp: arrives_def case_prod_beta)
qed

lemma same_cipher_sym: "same_cipher c c' \<Longrightarrow> same_cipher c' c"
  by (simp add: same_cipher_def)

lemma tracks_return:
  assumes ok: "ends_ok sa sb" and l: "tracks sa sb a b k i alone c l"
    and w: "sealed (se_crypto sb) k d w" "carried d" and "alone \<longrightarrow> dg_id d = i"
  shows "tracks sa sb a b k i alone (sender_does sa (Datagram_in w) c) (if dg_id d = i then returns a d l else l)"
proof -
  let ?x = "(ch_snd c)\<lparr>pc_io := []\<rparr>" and ?x' = "acts sa (Datagram_in w) (ch_snd c)"
  let ?r = "stream_feed b d (stream_at (dg_id d) ?x)"
  have x: "in_session sa b k ?x" and at: "map_of (p_streams (pc_peer (ch_snd c))) i = Some (lk_snd l)"
    using l by (simp_all add: tracks_def)
  have "always (peer_do sa (Datagram_in w)) (fed sa b k d ?x) ?x"
    using ok session_datagram [OF _ _ _ x w] by (simp add: ends_ok_def setting_ok_def same_cipher_sym)
  from always_acts [OF this] obtain es where
      es: "performs sa b k ?x ((map_of (p_streams (pc_peer ?x)))(dg_id d \<mapsto> fst ?r)) es ?x'"
        "effects_own b (dg_id d) es" "sent es = sent (snd ?r)"
    by (auto simp: fed_def)
  have "tracks sa sb a b k i alone (sender_does sa (Datagram_in w) c)
      (l\<lparr>lk_snd := (if dg_id d = i then fst ?r else lk_snd l),
         lk_fwd := lk_fwd l @ (if dg_id d = i then sent es else [])\<rparr>)"
    unfolding sender_does_def
    by (rule tracks_sender [OF l es(1) _ es(2)]) (use at assms(5) in simp_all)
  then show ?thesis
    using at es(3) feed_address [of a d "lk_snd l" b]
    by (auto simp: returns_def case_prod_beta stream_at_def)
qed

lemma tracks_sender_other:
  assumes ok: "ends_ok sa sb" and l: "tracks sa sb a b k i False c l" and ev: "foreign i ev"
  shows "tracks sa sb a b k i False (sender_does sa ev c) l"
proof -
  let ?x = "(ch_snd c)\<lparr>pc_io := []\<rparr>"
  have "always (peer_do sa ev) (apart sa b k i ?x) ?x"
    by (rule session_foreign [OF _ _ ev]) (use ok l in \<open>simp_all add: ends_ok_def setting_ok_def tracks_def\<close>)
  from always_acts [OF this] obtain j m es where
      es: "j \<noteq> i" "performs sa b k ?x m es (acts sa ev (ch_snd c))"
        "m i = map_of (p_streams (pc_peer ?x)) i" "effects_own b j es"
    by (auto simp: apart_def)
  have "m i = Some (lk_snd l)" using es(3) l by (simp add: tracks_def)
  from tracks_sender [OF l es(2) this es(4)] es(1) show ?thesis by (simp add: sender_does_def)
qed

lemma tracks_receiver_other:
  assumes ok: "ends_ok sa sb" and l: "tracks sa sb a b k i False c l" and ev: "foreign i ev"
  shows "tracks sa sb a b k i False (receiver_does sb ev c) l"
proof -
  let ?y = "(ch_rcv c)\<lparr>pc_io := []\<rparr>"
  have "always (peer_do sb ev) (apart sb a k i ?y) ?y"
    by (rule session_foreign [OF _ _ ev]) (use ok l in \<open>simp_all add: ends_ok_def setting_ok_def tracks_def\<close>)
  from always_acts [OF this] obtain j m es where
      es: "j \<noteq> i" "performs sb a k ?y m es (acts sb ev (ch_rcv c))"
        "m i = map_of (p_streams (pc_peer ?y)) i" "effects_own a j es"
    by (auto simp: apart_def)
  have "(case m i of None \<Rightarrow> stream_new i | Some s \<Rightarrow> s) = lk_rcv l"
    using es(3) l by (simp add: tracks_def stream_at_def)
  from tracks_receiver [OF l es(2) this es(4)] es(1) show ?thesis by (simp add: receiver_does_def)
qed

lemma tracks_step:
  assumes ok: "ends_ok sa sb" and l: "tracks sa sb a b k i False c l" and "channel_step sa sb i c c'"
  shows "\<exists>l'. (l' = l \<or> link_step a l l') \<and> tracks sa sb a b k i False c' l'"
  using assms(3)
proof (cases rule: channel_step.cases)
  case Timer
  then show ?thesis using tracks_timer [OF ok l] link_step.Timeout by blast
next
  case Late
  then show ?thesis using tracks_late_timer [OF ok l] link_step.Late_timeout by blast
next
  case (Arrive w)
  have "in_flight (se_crypto sa) k i (lk_fwd l) (ch_fwd c)" using l by (simp add: tracks_def)
  from in_flight_member [OF this Arrive(2)] obtain d where
      d: "sealed (se_crypto sa) k d w" "carried d" "dg_id d = i \<longrightarrow> d \<in> set (lk_fwd l)"
    by blast
  show ?thesis
    using tracks_arrive [OF ok l d(1,2)] d(3) link_step.Arrive [of d l a] unfolding Arrive(1)
    by (cases "dg_id d = i") auto
next
  case (Return w)
  have "in_flight (se_crypto sb) k i (lk_bwd l) (ch_bwd c)" using l by (simp add: tracks_def)
  from in_flight_member [OF this Return(2)] obtain d where
      d: "sealed (se_crypto sb) k d w" "carried d" "dg_id d = i \<longrightarrow> d \<in> set (lk_bwd l)"
    by blast
  show ?thesis
    using tracks_return [OF ok l d(1,2)] d(3) link_step.Return [of d l a] unfolding Return(1)
    by (cases "dg_id d = i") auto
next
  case (Lose fwd bwd)
  obtain ds es where "in_flight (se_crypto sa) k i ds fwd" "set ds \<subseteq> set (lk_fwd l)"
      "in_flight (se_crypto sb) k i es bwd" "set es \<subseteq> set (lk_bwd l)"
    using l Lose(2,3) in_flight_subset unfolding tracks_def by metis
  then have "link_step a l (l\<lparr>lk_fwd := ds, lk_bwd := es\<rparr>)
      \<and> tracks sa sb a b k i False c' (l\<lparr>lk_fwd := ds, lk_bwd := es\<rparr>)"
    using l link_step.Lose unfolding Lose(1) by (simp add: tracks_def)
  then show ?thesis by blast
next
  case (Sender_other ev)
  then show ?thesis using tracks_sender_other [OF ok l] by blast
next
  case (Receiver_other ev)
  then show ?thesis using tracks_receiver_other [OF ok l] by blast
next
  case (Sender_draws n)
  then show ?thesis using tracks_draws(1) [OF l] by blast
next
  case (Receiver_draws n)
  then show ?thesis using tracks_draws(2) [OF l] by blast
qed

lemma tracks_run:
  assumes "ends_ok sa sb" and "tracks sa sb a b k i False c (submit data (link_new i))" and "channel_run sa sb i c d"
  shows "\<exists>l. link_run a (submit data (link_new i)) l \<and> tracks sa sb a b k i False d l"
  using assms(3)
proof (induction rule: channel_run.induct)
  case Start
  then show ?case using assms(2) link_run.Start by blast
next
  case (Step d e)
  then show ?case using tracks_step [OF assms(1)] link_run.Step by blast
qed

section \<open>From the handshake on\<close>

lemma connected_in_session: "connected se n a k x \<Longrightarrow> in_session se a (fold_key (drop 16 k) 16 (take 16 k)) x"
  by (simp add: connected_def keyed_def in_session_def)

lemma connected_streams: "connected se n a k x \<Longrightarrow> p_streams (pc_peer x) = []"
  by (simp add: connected_def)

lemma tracks_open:
  assumes x: "connected sa n b k x" and y: "connected sb m a k y"
  shows "tracks sa sb a b (fold_key (drop 16 k) 16 (take 16 k)) i alone (open_channel sa i x y) (link_new i)"
proof -
  let ?k = "fold_key (drop 16 k) 16 (take 16 k)"
  let ?start = "\<lparr>ch_snd = x, ch_rcv = y, ch_fwd = [], ch_bwd = [], ch_told = []\<rparr>"
  let ?x = "x\<lparr>pc_peer := (pc_peer x)\<lparr>p_streams := [(i, stream_new i)]\<rparr>, pc_io := []\<rparr>"
  have "sender_does sa (User_add_stream i) ?start = ?start\<lparr>ch_snd := ?x\<rparr>"
    using connected_streams [OF x]
    by (simp add: sender_does_def acts_def peer_add_stream_def pget_def pset_def act)
  moreover have "in_session sa b ?k ?x"
    by (rule session_streams(2) [OF connected_in_session [OF x]]) (simp_all add: stream_own_new)
  ultimately show ?thesis
    using connected_in_session [OF y] connected_streams [OF y]
    by (simp add: open_channel_def tracks_def link_new_def in_flight_Nil stream_at_def)
qed

lemma tracks_dispatch:
  "ends_ok sa sb \<Longrightarrow> tracks sa sb a b k i alone c l \<Longrightarrow>
   tracks sa sb a b k i alone (dispatch sa i data c) (submit data l)"
  by (simp add: dispatch_def tracks_send)

text \<open>Every run of the channel is one of the link.\<close>

lemma channel_link:
  assumes "ends_ok sa sb" and "connected sa n b k x" and "connected sb m a k y"
    and "channel_run sa sb i (dispatch sa i data (open_channel sa i x y)) c"
  shows "\<exists>l. link_run a (submit data (link_new i)) l
    \<and> peer_get_stream i (pc_peer (ch_snd c)) = Some (lk_snd l) \<and> heard a i (ch_told c) = lk_got l"
  using tracks_run [OF assms(1) tracks_dispatch [OF assms(1) tracks_open [OF assms(2,3)]] assms(4)]
  unfolding tracks_def peer_get_stream_def by blast

section \<open>Completion without loss\<close>

text \<open>One exchange: the oldest bytes in flight arrive, and the answer returns.\<close>

definition pass :: "setting \<Rightarrow> setting \<Rightarrow> channel \<Rightarrow> channel" where
  "pass sa sb c = (case ch_fwd c of
     [] \<Rightarrow> c
   | w # fwd \<Rightarrow> (case receiver_does sb (Datagram_in w) (c\<lparr>ch_fwd := fwd\<rparr>) of c1 \<Rightarrow>
       (case ch_bwd c1 of
          [] \<Rightarrow> c1
        | v # bwd \<Rightarrow> sender_does sa (Datagram_in v) (c1\<lparr>ch_bwd := bwd\<rparr>))))"

definition deliver :: "setting \<Rightarrow> setting \<Rightarrow> u32 \<Rightarrow> bytes \<Rightarrow> channel \<Rightarrow> channel" where
  "deliver sa sb i data c = (pass sa sb ^^ ((length data + 999) div 1000)) (dispatch sa i data c)"

lemma tracks_forward:
  assumes ok: "ends_ok sa sb" and l: "tracks sa sb a b k i True c l" and w: "ch_fwd c = w # fwd"
  shows "\<exists>d ds. lk_fwd l = d # ds
    \<and> tracks sa sb a b k i True (receiver_does sb (Datagram_in w) (c\<lparr>ch_fwd := fwd\<rparr>)) (arrives a d (l\<lparr>lk_fwd := ds\<rparr>))"
proof -
  have "in_flight (se_crypto sa) k i (lk_fwd l) (w # fwd)" "length (lk_fwd l) = length (w # fwd)"
    using l w by (simp_all add: tracks_def)
  from in_flight_first [OF this] obtain d ds where d: "lk_fwd l = d # ds" "sealed (se_crypto sa) k d w"
      "carried d" "dg_id d = i" "in_flight (se_crypto sa) k i ds fwd" "length ds = length fwd"
    by blast
  then have "tracks sa sb a b k i True (c\<lparr>ch_fwd := fwd\<rparr>) (l\<lparr>lk_fwd := ds\<rparr>)"
    using l by (simp add: tracks_def)
  from tracks_arrive [OF ok this d(2,3)] d(1,4) show ?thesis by simp
qed

lemma tracks_backward:
  assumes ok: "ends_ok sa sb" and l: "tracks sa sb a b k i True c l" and w: "ch_bwd c = w # bwd"
  shows "\<exists>d ds. lk_bwd l = d # ds
    \<and> tracks sa sb a b k i True (sender_does sa (Datagram_in w) (c\<lparr>ch_bwd := bwd\<rparr>)) (returns a d (l\<lparr>lk_bwd := ds\<rparr>))"
proof -
  have "in_flight (se_crypto sb) k i (lk_bwd l) (w # bwd)" "length (lk_bwd l) = length (w # bwd)"
    using l w by (simp_all add: tracks_def)
  from in_flight_first [OF this] obtain d ds where d: "lk_bwd l = d # ds" "sealed (se_crypto sb) k d w"
      "carried d" "dg_id d = i" "in_flight (se_crypto sb) k i ds bwd" "length ds = length bwd"
    by blast
  then have "tracks sa sb a b k i True (c\<lparr>ch_bwd := bwd\<rparr>) (l\<lparr>lk_bwd := ds\<rparr>)"
    using l by (simp add: tracks_def)
  from tracks_return [OF ok this d(2,3)] d(1,4) show ?thesis by simp
qed

lemma tracks_pass:
  assumes ok: "ends_ok sa sb" and l: "tracks sa sb a b k i True c l"
  shows "tracks sa sb a b k i True (pass sa sb c) (exchange a l)"
proof (cases "ch_fwd c")
  case Nil
  then have "lk_fwd l = []" using l by (simp add: tracks_def)
  then show ?thesis using Nil l by (simp add: pass_def exchange_def)
next
  case (Cons w fwd)
  let ?c = "receiver_does sb (Datagram_in w) (c\<lparr>ch_fwd := fwd\<rparr>)"
  from tracks_forward [OF ok l Cons] obtain d ds where d: "lk_fwd l = d # ds"
      and l1: "tracks sa sb a b k i True ?c (arrives a d (l\<lparr>lk_fwd := ds\<rparr>))"
    by blast
  show ?thesis
  proof (cases "ch_bwd ?c")
    case Nil
    then have "lk_bwd (arrives a d (l\<lparr>lk_fwd := ds\<rparr>)) = []" using l1 by (simp add: tracks_def)
    then show ?thesis using Nil Cons d l1 by (simp add: pass_def exchange_def)
  next
    case (Cons v bwd)
    from tracks_backward [OF ok l1 Cons] Cons \<open>ch_fwd c = w # fwd\<close> d show ?thesis
      by (auto simp: pass_def exchange_def)
  qed
qed

lemma tracks_deliver:
  assumes ok: "ends_ok sa sb" and "tracks sa sb a b k i True c l"
  shows "tracks sa sb a b k i True (deliver sa sb i data c) (transfer a data l)"
proof -
  have "tracks sa sb a b k i True ((pass sa sb ^^ n) c') ((exchange a ^^ n) l')"
    if "tracks sa sb a b k i True c' l'" for n c' l'
    by (induction n) (use that tracks_pass [OF ok] in simp_all)
  then show ?thesis unfolding deliver_def transfer_def by (simp add: tracks_dispatch assms)
qed

lemma tracks_delivers:
  "ends_ok sa sb \<Longrightarrow> tracks sa sb a b k i True c l \<Longrightarrow>
   tracks sa sb a b k i True (fold (deliver sa sb i) msgs c) (fold (transfer a) msgs l)"
  by (induction msgs arbitrary: c l) (simp_all add: tracks_deliver)

lemma delivers_all:
  assumes "ends_ok sa sb" and "connected sa n b k x" and "connected sb m a k y"
    and "length (concat msgs) < 2 ^ 32"
  shows "heard a i (ch_told (fold (deliver sa sb i) msgs (open_channel sa i x y))) = concat msgs"
proof -
  have "sending i 0 [] (link_new i)" by (simp add: sending_def link_new_def)
  then have "lk_got (fold (transfer a) msgs (link_new i)) = concat msgs"
    using sending_transfers [of i 0 "link_new i" msgs a] assms(4) by (simp add: link_new_def)
  then show ?thesis
    using tracks_delivers [OF assms(1) tracks_open [OF assms(2,3)]] by (simp add: tracks_def)
qed

section \<open>End to end\<close>

text \<open>
  C3: As one stream sees it, two connected peers and the network between them are the link of two
  bare streams: whatever is encrypted, lost, duplicated or reordered, whichever of its timers
  fire, in time or late, and whatever both users do on other streams, every run is matched by a
  run of the link in which the sender's stream and the data delivered are the same.
\<close>

theorem secure_link_refines:
  assumes "ends_ok sa sb" and "connected sa n b k x" and "connected sb m a k y"
    and "channel_run sa sb i (dispatch sa i data (open_channel sa i x y)) c"
  shows "\<exists>l. link_run a (submit data (link_new i)) l
    \<and> peer_get_stream i (pc_peer (ch_snd c)) = Some (lk_snd l) \<and> heard a i (ch_told c) = lk_got l"
  by (rule channel_link [OF assms])

lemma sample_connected:
  "\<exists>x y k. (exchange_round sample_a sample_b ^^ 6) (sample_x, sample_y) = (x, y)
    \<and> connected sample_a [3] (mk_address [] 2) k x \<and> connected sample_b [1] (mk_address [] 1) k y"
proof -
  have id: "conf_id (se_conf sample_a) = [1]" "conf_id (se_conf sample_b) = [3]"
    by (simp_all add: sample_a_def sample_b_def sample_setting_def sample_conf_def configuration_new_def)
  show ?thesis
    using handshake_connected [OF sample_pair] unfolding id sample_x_def sample_y_def by blast
qed

lemma sample_ends: "ends_ok sample_a sample_b"
  using sample_pair(1,2) by (simp add: ends_ok_def same_cipher_def sample_a_def sample_b_def sample_setting_def)

lemma secure_link_refines_witness:
  "\<exists>x y c l. (exchange_round sample_a sample_b ^^ 6) (sample_x, sample_y) = (x, y)
    \<and> channel_run sample_a sample_b 5 (dispatch sample_a 5 [1, 2, 3] (open_channel sample_a 5 x y)) c
    \<and> link_run (mk_address [] 1) (submit [1, 2, 3] (link_new 5)) l
    \<and> peer_get_stream 5 (pc_peer (ch_snd c)) = Some (lk_snd l)"
proof -
  obtain x y k where xy: "(exchange_round sample_a sample_b ^^ 6) (sample_x, sample_y) = (x, y)"
      "connected sample_a [3] (mk_address [] 2) k x" "connected sample_b [1] (mk_address [] 1) k y"
    using sample_connected by blast
  let ?c = "dispatch sample_a 5 [1, 2, 3] (open_channel sample_a 5 x y)"
  have "channel_run sample_a sample_b 5 ?c (sender_does sample_a (Stream_timer 5) ?c)"
    by (rule channel_run.Step [OF channel_run.Start channel_step.Timer])
  with secure_link_refines [OF sample_ends xy(2,3) this] xy(1) show ?thesis by blast
qed

text \<open>
  C2: From the first hello to the delivered data: two new peers that trust each other's keys
  complete the handshake in six exchanges; of what one of them then sends on a stream, the other
  reports exactly a prefix, whatever the network does to the encrypted datagrams and whatever
  both users do on other streams; once the sender's stream has nothing left the other has
  everything; and over a network that loses nothing any sequence of messages, each sent when the
  one before has been acknowledged, arrives complete and in order.
\<close>

theorem end_to_end:
  assumes "ends_ok sa sb" and "mutual_trust sa sb" and "agreement_ok sa sb"
    and "peer_new sa b n = (Inr p, n', out)" and "peer_new sb a m = (Inr q, m', out')"
  shows "\<exists>x y. (exchange_round sa sb ^^ 6) (\<lparr>pc_peer = p, pc_rnd = n', pc_io = out\<rparr>,
      \<lparr>pc_peer = q, pc_rnd = m', pc_io = out'\<rparr>) = (x, y)
    \<and> (\<forall>i data c. length data < 2 ^ 32 \<and> channel_run sa sb i (dispatch sa i data (open_channel sa i x y)) c \<longrightarrow>
        (\<exists>j. heard a i (ch_told c) = take j data)
        \<and> (\<forall>s. peer_get_stream i (pc_peer (ch_snd c)) = Some s \<and> st_send_queue s = [] \<longrightarrow>
             heard a i (ch_told c) = data))
    \<and> (\<forall>i msgs. length (concat msgs) < 2 ^ 32 \<longrightarrow>
        heard a i (ch_told (fold (deliver sa sb i) msgs (open_channel sa i x y))) = concat msgs)"
proof -
  have ok: "setting_ok sa" "setting_ok sb" using assms(1) by (simp_all add: ends_ok_def)
  obtain x y k where xy: "(exchange_round sa sb ^^ 6) (\<lparr>pc_peer = p, pc_rnd = n', pc_io = out\<rparr>,
      \<lparr>pc_peer = q, pc_rnd = m', pc_io = out'\<rparr>) = (x, y)"
    and con: "connected sa (conf_id (se_conf sb)) b k x" "connected sb (conf_id (se_conf sa)) a k y"
    using handshake_connected [OF ok assms(2-5)] by blast
  have "(\<exists>j. heard a i (ch_told c) = take j data)
      \<and> (\<forall>s. peer_get_stream i (pc_peer (ch_snd c)) = Some s \<and> st_send_queue s = [] \<longrightarrow>
           heard a i (ch_told c) = data)"
    if "length data < 2 ^ 32" "channel_run sa sb i (dispatch sa i data (open_channel sa i x y)) c" for i data c
    using channel_link [OF assms(1) con that(2)] link_run_delivers [OF that(1)] by fastforce
  then show ?thesis using xy delivers_all [OF assms(1) con] by blast
qed

lemma end_to_end_witness:
  "\<exists>x y. (exchange_round sample_a sample_b ^^ 6) (sample_x, sample_y) = (x, y)
    \<and> heard (mk_address [] 1) 5 (ch_told (fold (deliver sample_a sample_b 5) [[1, 2], [3]] (open_channel sample_a 5 x y))) = [1, 2, 3]"
proof -
  have "length (concat [[1, 2], [3 :: byte]]) < 2 ^ 32" "concat [[1, 2], [3]] = [1, 2, 3 :: byte]" by simp_all
  then show ?thesis
    using end_to_end [OF sample_ends sample_pair(3-6)] unfolding sample_x_def sample_y_def by metis
qed

end
