(* ===== verification/Peer_Identity.thy ===== *)
theory Peer_Identity
  imports Session
begin

text \<open>
  What a peer hands over, and who it takes the other side for. Whatever it sends, reports or asks to be
  deleted concerns its own address (\<open>speaks\<close>). The key of a session is agreed with the public key that
  is configured for the name reported to the user, whatever arrives and in whatever order; but
  the handshake asks for no proof that the other side holds the private key.
\<close>

section \<open>A peer speaks for itself\<close>

text \<open>What the peer at \<open>a\<close> may hand over: datagrams to \<open>a\<close>, data received from \<open>a\<close>, its own removal.\<close>

fun io_of :: "address \<Rightarrow> io \<Rightarrow> bool" where
  "io_of a (Udp_send w b) = (b = a)"
| "io_of a (Output (Recv_data b j p)) = (b = a)"
| "io_of a (Output m) = True"
| "io_of a (Delete_peer b) = (b = a)"

definition speaks :: "pctx \<Rightarrow> pctx \<Rightarrow> bool" where
  "speaks x x' \<longleftrightarrow> p_addr (pc_peer x') = p_addr (pc_peer x)
     \<and> (\<exists>out. pc_io x' = pc_io x @ out \<and> (\<forall>e \<in> set out. io_of (p_addr (pc_peer x)) e))"

lemma speaks_refl: "reflp speaks"
  by (simp add: reflp_def speaks_def)

lemma speaks_trans: "transp speaks"
proof (rule transpI)
  fix x y z
  assume xy: "speaks x y" and yz: "speaks y z"
  obtain us where us: "pc_io y = pc_io x @ us" "\<forall>e \<in> set us. io_of (p_addr (pc_peer x)) e"
    using xy by (auto simp: speaks_def)
  obtain vs where vs: "pc_io z = pc_io y @ vs" "\<forall>e \<in> set vs. io_of (p_addr (pc_peer x)) e"
    using xy yz by (auto simp: speaks_def)
  have "pc_io z = pc_io x @ us @ vs" "\<forall>e \<in> set (us @ vs). io_of (p_addr (pc_peer x)) e"
    using us vs by auto
  then show "speaks x z" using xy yz unfolding speaks_def by auto
qed

lemma speaks_primitives:
  "moves speaks (pget f)"
  "moves speaks draw"
  "moves speaks (deref v)"
  "moves speaks (emit (Output (New_peer n a)))"
  "moves speaks (emit (Output (New_stream a j)))"
  "moves speaks (emit (Output (Error_message t)))"
  "moves speaks (or_state st)"
  "moves speaks (set_handler h)"
  "moves speaks cancel_timer"
  "moves speaks (on_dh m)"
  "moves speaks (on_encrypt_layer l)"
  "(\<And>p. p_addr (g p) = p_addr p) \<Longrightarrow> moves speaks (pset g)"
  "moves speaks (do_send se w)"
  "moves speaks (seq (pget p_addr) (\<lambda>a. emit (Delete_peer a)))"
  by (auto simp: moves_def speaks_def pget_def draw_def deref_def emit_def or_state_def do_send_def
      set_handler_def cancel_timer_def on_dh_def on_encrypt_layer_def pset_def act
      split: option.splits prod.splits)

lemmas speaks_rules = speaks_primitives moves_refl [OF speaks_refl] moves_trans [OF speaks_trans]

lemma speaks_sends:
  "moves speaks (send_raw_datagram se d)"
  "moves speaks (send_raw_datagram_with_retransmit se d)"
  "moves speaks (send_ack_raw se)"
  "moves speaks (peer_send_datagram se d)"
  by (auto simp: send_raw_datagram_def send_raw_datagram_with_retransmit_def send_ack_raw_def
      peer_send_datagram_def intro!: speaks_rules)

lemma speaks_effects:
  "\<forall>m \<in> set (puts es). io_of (p_addr (pc_peer x)) (Output m) \<Longrightarrow> speaks x (snd (for_each (run_effect se) es x))"
proof (induction es arbitrary: x)
  case Nil
  then show ?case by (simp add: act reflpD [OF speaks_refl])
next
  case (Cons e es)
  have one: "speaks x (snd (run_effect se e x))"
  proof (cases e)
    case (Send_datagram d)
    then show ?thesis using speaks_sends(4) by (simp add: run_effect_def moves_def)
  next
    case (Put m)
    then show ?thesis using Cons.prems by (simp add: run_effect_def emit_def act speaks_def)
  qed
  then have "\<forall>m \<in> set (puts es). io_of (p_addr (pc_peer (snd (run_effect se e x)))) (Output m)"
    using Cons.prems by (cases e) (simp_all add: speaks_def)
  then have "speaks (snd (run_effect se e x)) (snd (for_each (run_effect se) es (snd (run_effect se e x))))"
    by (rule Cons.IH)
  then show ?case
    using one transpD [OF speaks_trans] by (auto simp: act split: prod.splits sum.splits)
qed

lemma speaks_stream:
  assumes "\<And>s. \<forall>m \<in> set (puts (snd (f s))). io_of (p_addr (pc_peer x)) (Output m)"
  shows "speaks x (snd (on_stream se i f x))"
proof -
  have "speaks x (snd (andthen (pset (\<lambda>p. p\<lparr>p_streams := map_assign i (fst (f s)) (p_streams p)\<rparr>))
      (for_each (run_effect se) (snd (f s))) x))" for s
    using assms [of s] speaks_effects [of "snd (f s)"
        "x\<lparr>pc_peer := (pc_peer x)\<lparr>p_streams := map_assign i (fst (f s)) (p_streams (pc_peer x))\<rparr>\<rparr>" se]
    by (simp add: pset_def act speaks_def)
  then show ?thesis
    using reflpD [OF speaks_refl]
    by (auto simp: on_stream_def pget_def deref_def act case_prod_beta split: option.splits)
qed

lemma speaks_feed_stream: "moves speaks (feed_stream se d)"
proof -
  have "moves speaks (seq (pget p_addr) (\<lambda>a. on_stream se (dg_id d) (stream_feed a d)))"
    unfolding moves_def
    using speaks_stream [of "stream_feed (p_addr (pc_peer x)) d" x se "dg_id d" for x] feed_puts
    by (fastforce simp: pget_def act)
  then show ?thesis unfolding feed_stream_def by (auto intro!: speaks_rules)
qed

lemma speaks_handlers:
  "moves speaks (hello_handler se d)"
  "moves speaks (public_key_exchange_handler se d)"
  "moves speaks (echo_handler se d)"
  "moves speaks (established_handler se d)"
  unfolding hello_handler_def received_hello_handler_def received_hello_ack_handler_def
    hello_complete_handler_def send_public_key_def public_key_exchange_handler_def
    received_public_key_handler_def received_public_key_ack_handler_def
    public_key_exchange_complete_handler_def peer_generate_shared_key_def send_echo_def
    echo_handler_def received_echo_handler_def received_echo_back_handler_def
    established_handler_def peer_reset_def send_hello_def
  by (auto intro!: speaks_rules speaks_sends speaks_feed_stream)

lemma speaks_do: "moves speaks (peer_do se ev)"
proof -
  have stream: "moves speaks (on_stream se i f)" if "\<And>s. puts (snd (f s)) = []" for i f
    unfolding moves_def by (intro allI speaks_stream) (simp add: that)
  show ?thesis
  proof (cases ev)
    case (Datagram_in msg)
    then show ?thesis
      by (auto simp: peer_feed_def run_handler_def intro!: speaks_rules speaks_handlers split: handler.split)
  next
    case (User_del_stream i)
    then show ?thesis by (auto simp: peer_del_stream_def Let_def intro!: speaks_rules)
  qed (auto simp: peer_timer_fires_def retransmit_raw_datagram_def stream_timer_event_def
      peer_stream_timer_fires_def peer_late_timer_def late_stream_timer_event_def
      peer_add_stream_def send_on_stream_def silent_puts
      intro!: speaks_rules speaks_sends stream split: option.split)
qed

text \<open>Constructing a peer sends only to its address.\<close>

lemma speaks_new:
  assumes "peer_new se a n = (r, n', out)"
  shows "\<forall>e \<in> set out. io_of a e"
proof -
  have "moves speaks (peer_construct se)"
    unfolding peer_construct_def send_hello_def by (auto intro!: speaks_rules speaks_sends)
  then have "speaks x (snd (peer_construct se x))" for x by (simp add: moves_def)
  from this [of "\<lparr>pc_peer = peer_blank a dh_blank, pc_rnd = n, pc_io = []\<rparr>"] show ?thesis
    using assms
    by (auto simp: peer_new_def dh_new_def speaks_def peer_blank_def split: sum.splits prod.splits if_splits)
qed

section \<open>What leaves the identity alone\<close>

definition no_new_peer :: "io list \<Rightarrow> bool" where
  "no_new_peer out \<longleftrightarrow> (\<forall>i a. Output (New_peer i a) \<notin> set out)"

text \<open>No peer is reported; name, keys, state and handler stay, streams and timers may change.\<close>

definition silent :: "pctx \<Rightarrow> pctx \<Rightarrow> bool" where
  "silent x x' \<longleftrightarrow> (\<exists>out. pc_io x' = pc_io x @ out \<and> no_new_peer out)"

definition unmoved :: "pctx \<Rightarrow> pctx \<Rightarrow> bool" where
  "unmoved x x' \<longleftrightarrow> (case (pc_peer x, pc_peer x') of (p, p') \<Rightarrow>
     p_id p' = p_id p \<and> p_peer_spub p' = p_peer_spub p \<and> p_dh p' = p_dh p \<and> p_state p' = p_state p
     \<and> p_handler p' = p_handler p \<and> map_option el_key (p_encrypt p') = map_option el_key (p_encrypt p))"

lemma silent_refl: "reflp silent"
  by (simp add: reflp_def silent_def no_new_peer_def)

lemma silent_trans: "transp silent"
  unfolding transp_def silent_def no_new_peer_def by (metis UnE append_assoc set_append)

lemma unmoved_refl: "reflp unmoved"
  by (simp add: reflp_def unmoved_def)

lemma unmoved_trans: "transp unmoved"
  by (simp add: transp_def unmoved_def)

lemma silent_primitives:
  "moves silent (pget f)" "moves silent draw" "moves silent (deref v)"
  "moves silent (emit (Udp_send b a))" "moves silent (emit (Delete_peer a))"
  "moves silent (emit (Output (New_stream a j)))" "moves silent (emit (Output (Error_message t)))"
  "moves silent (emit (Output (Recv_data a j t)))"
  "moves silent (or_state st)" "moves silent (set_handler h)" "moves silent cancel_timer"
  "moves silent (on_dh m)" "moves silent (on_encrypt_layer l)" "moves silent (pset g)"
  by (auto simp: moves_def silent_def no_new_peer_def pget_def draw_def deref_def emit_def or_state_def
      set_handler_def cancel_timer_def on_dh_def on_encrypt_layer_def pset_def act
      split: option.splits prod.splits)

lemma unmoved_primitives:
  "moves unmoved (pget f)" "moves unmoved draw" "moves unmoved (deref v)" "moves unmoved (emit e)"
  "moves unmoved cancel_timer"
  "(\<And>el. el_key (snd (l el)) = el_key el) \<Longrightarrow> moves unmoved (on_encrypt_layer l)"
  "(\<And>p. p_id (g p) = p_id p \<and> p_peer_spub (g p) = p_peer_spub p \<and> p_dh (g p) = p_dh p
     \<and> p_state (g p) = p_state p \<and> p_handler (g p) = p_handler p \<and> p_encrypt (g p) = p_encrypt p) \<Longrightarrow> moves unmoved (pset g)"
  by (auto simp: moves_def unmoved_def pget_def draw_def deref_def emit_def cancel_timer_def
      on_encrypt_layer_def pset_def act split: option.splits prod.splits)
    (metis snd_conv)+

lemmas silent_rules = silent_primitives moves_refl [OF silent_refl] moves_trans [OF silent_trans]
lemmas unmoved_rules = unmoved_primitives moves_refl [OF unmoved_refl] moves_trans [OF unmoved_trans]

lemma payload_keeps_key:
  "el_key (snd (encrypt_payload c n d el)) = el_key el"
  "el_key (snd (decrypt_payload c d el)) = el_key el"
  by (auto simp: encrypt_payload_def decrypt_payload_def el_encrypt_def el_decrypt_def on_encryptor_def
      el_key_def aes_decrypt_def act Let_def split: prod.splits)

lemma silent_sends:
  "moves silent (send_raw_datagram se d)" "moves silent (send_raw_datagram_with_retransmit se d)"
  "moves silent (send_ack_raw se)" "moves silent (peer_send_datagram se d)"
  by (auto simp: send_raw_datagram_def send_raw_datagram_with_retransmit_def send_ack_raw_def
      peer_send_datagram_def do_send_def intro!: silent_rules)

lemma unmoved_sends:
  "moves unmoved (send_raw_datagram se d)" "moves unmoved (send_raw_datagram_with_retransmit se d)"
  "moves unmoved (send_ack_raw se)" "moves unmoved (peer_send_datagram se d)"
  by (auto simp: send_raw_datagram_def send_raw_datagram_with_retransmit_def send_ack_raw_def
      peer_send_datagram_def do_send_def payload_keeps_key intro!: unmoved_rules)

lemma unmoved_stream: "moves unmoved (on_stream se i f)"
  unfolding on_stream_def
  by (auto simp: case_prod_beta run_effect_def
      intro!: unmoved_rules unmoved_sends moves_for_each [OF unmoved_refl unmoved_trans] split: effect.split)

lemma silent_effects:
  "\<forall>m \<in> set (puts es). \<exists>a i p. m = Recv_data a i p \<Longrightarrow> moves silent (for_each (run_effect se) es)"
proof (induction es)
  case Nil
  then show ?case by (auto intro!: silent_rules)
next
  case (Cons e es)
  have "moves silent (run_effect se e)"
    using Cons.prems by (cases e) (auto simp: run_effect_def intro!: silent_rules silent_sends)
  moreover have "moves silent (for_each (run_effect se) es)"
    using Cons by (cases e) simp_all
  ultimately show ?case by (auto intro!: silent_rules)
qed

lemma silent_stream:
  assumes "\<And>s m. m \<in> set (puts (snd (f s))) \<Longrightarrow> \<exists>a i p. m = Recv_data a i p"
  shows "moves silent (on_stream se i f)"
  unfolding on_stream_def
  using assms by (auto simp: case_prod_beta intro!: silent_rules silent_effects)

lemma feeds_stream: "moves silent (feed_stream se d)" "moves unmoved (feed_stream se d)"
proof -
  have "moves silent (on_stream se j (stream_feed a d))" for j a
    using feed_puts by (intro silent_stream) blast
  then show "moves silent (feed_stream se d)"
    unfolding feed_stream_def by (auto intro!: silent_rules)
  show "moves unmoved (feed_stream se d)"
    unfolding feed_stream_def by (auto intro!: unmoved_rules unmoved_stream)
qed

text \<open>All events but datagrams leave the identity alone and report no peer.\<close>

lemma silent_event: "\<forall>w. ev \<noteq> Datagram_in w \<Longrightarrow> moves silent (peer_do se ev)"
proof -
  have stream: "moves silent (on_stream se i f)" if "\<And>s. puts (snd (f s)) = []" for i f
    using that by (intro silent_stream) simp
  assume "\<forall>w. ev \<noteq> Datagram_in w"
  then show "moves silent (peer_do se ev)"
    by (cases ev)
      (auto simp: peer_timer_fires_def retransmit_raw_datagram_def stream_timer_event_def peer_stream_timer_fires_def
        peer_late_timer_def late_stream_timer_event_def peer_add_stream_def peer_del_stream_def send_on_stream_def
        silent_puts Let_def intro!: silent_rules silent_sends stream split: option.split)
qed

lemma unmoved_event: "\<forall>w. ev \<noteq> Datagram_in w \<Longrightarrow> moves unmoved (peer_do se ev)"
  by (cases ev)
    (auto simp: peer_timer_fires_def retransmit_raw_datagram_def stream_timer_event_def peer_stream_timer_fires_def
      peer_late_timer_def late_stream_timer_event_def peer_add_stream_def peer_del_stream_def send_on_stream_def
      Let_def intro!: unmoved_rules unmoved_sends unmoved_stream split: option.split)

lemma silent_handlers:
  "moves silent (hello_handler se d)" "moves silent (public_key_exchange_handler se d)"
  "moves silent (established_handler se d)"
  unfolding hello_handler_def received_hello_handler_def received_hello_ack_handler_def
    hello_complete_handler_def send_public_key_def public_key_exchange_handler_def
    received_public_key_handler_def received_public_key_ack_handler_def
    public_key_exchange_complete_handler_def peer_generate_shared_key_def send_echo_def
    received_echo_handler_def received_echo_back_handler_def
    established_handler_def peer_reset_def send_hello_def
  by (auto intro!: silent_rules silent_sends feeds_stream)

section \<open>The name and the key\<close>

text \<open>The key is the folded secret of the own keys with the public key configured for the name and
  whatever ephemeral key the other side sent.\<close>

definition agreed :: "setting \<Rightarrow> bytes \<Rightarrow> bytes \<Rightarrow> bool" where
  "agreed se i key \<longleftrightarrow> (\<exists>n e k. dh2_agree (se_crypto se) (static_priv se) (epriv se n) (trusted_spub se i) e = Some k
     \<and> 16 \<le> length k \<and> key = fold_key (drop 16 k) 16 (take 16 k))"

definition named :: "setting \<Rightarrow> peer \<Rightarrow> bool" where
  "named se p \<longleftrightarrow> (bit (p_state p) 2 \<longrightarrow> p_peer_spub p = trusted_spub se (p_id p))
     \<and> dh_spriv (p_dh p) = Some (static_priv se)
     \<and> (\<forall>e. dh_epriv (p_dh p) = Some e \<longrightarrow> (\<exists>n. e = epriv se n))
     \<and> (bit (p_state p) 5 \<longrightarrow> dh_peer_spub (p_dh p) = Some (p_peer_spub p))
     \<and> (p_handler p = Hello_handler \<longrightarrow> p_encrypt p = None \<and> \<not> bit (p_state p) 5)
     \<and> (\<forall>el. p_encrypt p = Some el \<longrightarrow> agreed se (p_id p) (el_key el))"

lemma unmoved_named: "unmoved x x' \<Longrightarrow> named se (pc_peer x) \<Longrightarrow> named se (pc_peer x')"
  unfolding unmoved_def named_def
  by (cases "p_encrypt (pc_peer x)"; cases "p_encrypt (pc_peer x')") (auto simp: case_prod_beta)

definition keeps_name :: "setting \<Rightarrow> 'a peer_action \<Rightarrow> pctx \<Rightarrow> bool" where
  "keeps_name se m x \<longleftrightarrow> wp m (\<lambda>_ x'. named se (pc_peer x')) (\<lambda>_ x'. named se (pc_peer x')) x"

lemma keeps_unmoved: "moves unmoved m \<Longrightarrow> named se (pc_peer x) \<Longrightarrow> keeps_name se m x"
  using unmoved_named by (auto simp: keeps_name_def wp_def moves_def split: prod.splits sum.splits) (metis snd_conv)+

lemma name_received_hello:
  assumes "peer_ok se (pc_peer x)" "named se (pc_peer x)" "p_handler (pc_peer x) = Hello_handler"
  shows "keeps_name se (received_hello_handler se d) x"
  using assms
  by (auto simp: keeps_name_def received_hello_handler_def wps wp_send_ack peer_ok_def named_def bit_or_iff trusted_spub_def)

lemma name_hello_complete:
  assumes "setting_ok se" "peer_ok se (pc_peer x)" "named se (pc_peer x)"
  shows "keeps_name se (hello_complete_handler se) x"
  using assms
  by (auto simp: keeps_name_def hello_complete_handler_def send_public_key_def wps wp_send_retransmit
      generate_ephemeral_key_pairs_def ephemeral_pub_key_def block_of_def peer_ok_def named_def bit_or_iff
      setting_ok_def epriv_def)

lemma keeps_name_then:
  assumes "tame se m x" and "keeps_name se m x"
    and "\<And>x'. peer_ok se (pc_peer x') \<Longrightarrow> named se (pc_peer x') \<Longrightarrow> keeps_name se n x'"
  shows "keeps_name se (andthen m n) x"
  using assms unfolding keeps_name_def tame_def wps
  by (fastforce simp: wp_def split: prod.splits sum.splits)

lemma name_hello_handler:
  assumes "setting_ok se" "peer_ok se (pc_peer x)" "named se (pc_peer x)" "p_handler (pc_peer x) = Hello_handler"
  shows "keeps_name se (hello_handler se d) x"
proof -
  have "keeps_name se received_hello_ack_handler x"
    using assms(3) by (simp add: keeps_name_def received_hello_ack_handler_def wps named_def bit_or_iff)
  then have "keeps_name se (if dg_type d = Hello then received_hello_handler se d else received_hello_ack_handler) x"
    using name_received_hello [OF assms(2-4)] by simp
  moreover have "tame se (if dg_type d = Hello then received_hello_handler se d else received_hello_ack_handler) x"
    using assms(2) by (simp add: received_hello_tame received_hello_ack_tame)
  moreover have "keeps_name se (seq (pget (has_bits hello_complete)) (\<lambda>b. whenever b (hello_complete_handler se))) x'"
    if "peer_ok se (pc_peer x')" "named se (pc_peer x')" for x'
    using name_hello_complete [OF assms(1) that] that by (auto simp: keeps_name_def wps)
  ultimately show ?thesis
    unfolding hello_handler_def using assms(3) by (auto intro!: keeps_name_then) (simp add: keeps_name_def wps)
qed

lemma name_exchange_complete:
  assumes "setting_ok se" "peer_ok se (pc_peer x)" "named se (pc_peer x)"
    and "has_bits public_key_exchanged (pc_peer x)" "has_bits hello_complete (pc_peer x)"
  shows "keeps_name se (public_key_exchange_complete_handler se) x"
proof -
  let ?p = "pc_peer x"
  have bits: "bit (p_state ?p) 2" "bit (p_state ?p) 3" "bit (p_state ?p) 5" using assms(4,5) by simp_all
  obtain n pepub where keys: "dh_spriv (p_dh ?p) = Some (static_priv se)"
      "dh_epriv (p_dh ?p) = Some (epriv se n)" "dh_peer_spub (p_dh ?p) = Some (trusted_spub se (p_id ?p))"
      "dh_peer_epub (p_dh ?p) = Some pepub"
    using assms(2,3) bits by (auto simp: peer_ok_def keys_ok_def named_def)
  show ?thesis
  proof (cases "dh2_agree (se_crypto se) (static_priv se) (epriv se n) (trusted_spub se (p_id ?p)) pepub")
    case None
    then show ?thesis
      using assms(3) keys
      by (simp add: keeps_name_def public_key_exchange_complete_handler_def peer_generate_shared_key_def wps)
        (simp add: wp_def generate_shared_key_def named_def)
  next
    case (Some k)
    have gen: "wp (generate_shared_key (se_crypto se)) Q E (p_dh ?p) = Q () ((p_dh ?p)\<lparr>dh_shared := Some k\<rparr>)" for Q E
      using keys Some by (simp add: wp_def generate_shared_key_def)
    have new: "agreed se (p_id ?p) (el_key el)" if "el_new (se_crypto se) (pc_rnd x) AES_128 (Some k) = Inr el" for el
    proof -
      have "16 \<le> length k" using that by (auto simp: el_new_def aes_new_def aes_set_key_def key_length_def act Let_def split: if_splits)
      then show ?thesis using el_new_long [of k "se_crypto se" "pc_rnd x"] that Some by (auto simp: agreed_def)
    qed
    have "small (create_echo (str ''1234567890''))" by simp
    then show ?thesis
      using assms(2,3) keys new
      by (auto simp: keeps_name_def public_key_exchange_complete_handler_def peer_generate_shared_key_def
          send_echo_def wps wp_send_retransmit shared_key_def block_of_def peer_ok_def named_def gen
          bit_or_iff split: sum.splits)
  qed
qed

lemma name_exchange_handler:
  assumes "setting_ok se" "peer_ok se (pc_peer x)" "named se (pc_peer x)"
    and "p_handler (pc_peer x) = Public_key_exchange_handler"
  shows "keeps_name se (public_key_exchange_handler se d) x"
proof -
  let ?first = "if dg_type d = Public_key then received_public_key_handler se d
    else if dg_type d = Ack then received_public_key_ack_handler
    else if dg_type d = Hello then send_ack_raw se else ret ()"
  let ?P = "\<lambda>x'. peer_ok se (pc_peer x') \<and> named se (pc_peer x') \<and> p_handler (pc_peer x') = Public_key_exchange_handler"
  have "wp ?first (\<lambda>_. ?P) (\<lambda>_ x'. named se (pc_peer x')) x"
    using assms(2-4)
    by (auto simp: received_public_key_handler_def received_public_key_ack_handler_def wps wp_send_ack
        peer_ok_defs named_def bit_or_iff set_peer_pub_key_pairs_def)
  then show ?thesis
    unfolding keeps_name_def public_key_exchange_handler_def wp_andthen
  proof (rule wp_mono)
    fix x' :: pctx
    assume P: "?P x'"
    then have "has_bits hello_complete (pc_peer x')" by (auto simp: peer_ok_def handler_ok_def)
    then show "wp (seq (pget (has_bits public_key_exchanged)) (\<lambda>b. whenever b (public_key_exchange_complete_handler se)))
        (\<lambda>_ x'. named se (pc_peer x')) (\<lambda>_ x'. named se (pc_peer x')) x'"
      using P name_exchange_complete [OF assms(1), of x'] by (simp add: keeps_name_def wps)
  qed
qed

text \<open>The peer is reported only here, when the echo has come back.\<close>

definition reports_name :: "setting \<Rightarrow> pctx \<Rightarrow> pctx \<Rightarrow> bool" where
  "reports_name se x x' \<longleftrightarrow> (\<exists>out. pc_io x' = pc_io x @ out \<and> (\<forall>i b. Output (New_peer i b) \<in> set out \<longrightarrow>
     b = p_addr (pc_peer x') \<and> i = p_id (pc_peer x') \<and> (\<exists>el. p_encrypt (pc_peer x') = Some el)))"

lemma silent_reports: "silent x x' \<Longrightarrow> reports_name se x x'"
  by (auto simp: silent_def reports_name_def no_new_peer_def)

lemma echo_reports:
  assumes "peer_ok se (pc_peer x)" "named se (pc_peer x)" "p_handler (pc_peer x) = Echo_handler" "small d"
  shows "wp (echo_handler se d) (\<lambda>_ x'. named se (pc_peer x') \<and> reports_name se x x')
    (\<lambda>_ x'. named se (pc_peer x') \<and> reports_name se x x') x"
proof -
  have "bit (p_state (pc_peer x)) 6" using assms(1,3) by (auto simp: peer_ok_def handler_ok_def)
  then obtain el where "p_encrypt (pc_peer x) = Some el" using assms(1) by (auto simp: peer_ok_def keys_ok_def)
  then show ?thesis
    using assms
    by (auto simp: echo_handler_def received_echo_handler_def received_echo_back_handler_def wps
        wp_send_raw wp_send_ack peer_ok_def named_def reports_name_def bit_and_iff bit_not_iff
        split: option.splits)
qed

lemma name_established_handler:
  assumes "setting_ok se" "peer_ok se (pc_peer x)" "named se (pc_peer x)"
    and "p_handler (pc_peer x) = Established_handler" "small d"
  shows "keeps_name se (established_handler se d) x"
proof (cases "dg_type d = Hello")
  case True
  have "has_bits established (pc_peer x)" using assms(2,4) by (auto simp: peer_ok_def handler_ok_def)
  then show ?thesis
    using assms True
    by (auto simp: keeps_name_def established_handler_def peer_reset_def send_hello_def
        received_hello_handler_def wps wp_send_retransmit wp_send_ack setting_ok_def peer_ok_def named_def
        bit_or_iff set_static_key_pairs_def static_priv_def trusted_spub_def)
next
  case False
  have "moves unmoved (received_echo_handler se d)"
    unfolding received_echo_handler_def by (auto intro!: unmoved_sends)
  moreover have "keeps_name se (received_echo_back_handler d) x"
    using assms(3) by (auto simp: keeps_name_def received_echo_back_handler_def wps named_def bit_and_iff bit_not_iff
        split: option.splits)
  moreover have "moves unmoved (seq (on_encrypt_layer (decrypt_payload (se_crypto se) d)) (\<lambda>d'. feed_stream se d'))"
    using feeds_stream(2) by (auto simp: payload_keeps_key intro!: unmoved_rules)
  moreover have "moves unmoved (seq (pget p_addr) (\<lambda>a. emit (Delete_peer a)))"
    by (auto intro!: unmoved_rules)
  ultimately have rest: "keeps_name se (received_echo_handler se d) x"
      "keeps_name se (received_echo_back_handler d) x"
      "keeps_name se (seq (on_encrypt_layer (decrypt_payload (se_crypto se) d)) (\<lambda>d'. feed_stream se d')) x"
      "keeps_name se (seq (pget p_addr) (\<lambda>a. emit (Delete_peer a))) x"
    using keeps_unmoved assms(3) by blast+
  then show ?thesis
    using False assms(3) unfolding established_handler_def keeps_name_def by (auto simp: wps)
qed

section \<open>Over the life of a peer\<close>

lemma event_reports:
  assumes ok: "setting_ok se" "peer_ok se (pc_peer x)" and n: "named se (pc_peer x)" and "event_fits ev"
    and run: "peer_do se ev x = (r, x')"
  shows "named se (pc_peer x') \<and> reports_name se x x'"
proof (cases "\<forall>w. ev \<noteq> Datagram_in w")
  case True
  then have "silent x x'" "unmoved x x'"
    using silent_event [of ev se] unmoved_event [of ev se] run by (auto simp: moves_def dest: spec [of _ x])
  then show ?thesis using unmoved_named [OF _ n] silent_reports by blast
next
  case False
  then obtain w where w: "ev = Datagram_in w" by blast
  show ?thesis
  proof (cases "datagram_of_bytes w")
    case (Inl e)
    then have "x' = x" using run w by (simp add: peer_feed_def act)
    then show ?thesis using n reflpD [OF silent_refl] silent_reports by blast
  next
    case (Inr d)
    have small: "small d" using small_datagram [OF Inr] assms(4) w by simp
    have handled: "run_handler se d x = (r, x')" using run w Inr by (simp add: peer_feed_def act)
    have quiet: "?thesis" if "moves silent m" "keeps_name se m x" "m x = (r, x')" for m :: "unit peer_action"
      using that silent_reports [of x x' se]
      by (auto simp: moves_def keeps_name_def wp_def split: sum.splits dest: spec [of _ x])
    show ?thesis
    proof (cases "p_handler (pc_peer x)")
      case Hello_handler
      then show ?thesis
        using quiet [OF silent_handlers(1) name_hello_handler [OF ok n]] handled by (simp add: run_handler_def pget_def act)
    next
      case Public_key_exchange_handler
      then show ?thesis
        using quiet [OF silent_handlers(2) name_exchange_handler [OF ok n]] handled by (simp add: run_handler_def pget_def act)
    next
      case Echo_handler
      then show ?thesis
        using echo_reports [OF ok(2) n Echo_handler small] handled
        by (auto simp: run_handler_def pget_def act wp_def split: sum.splits)
    next
      case Established_handler
      then show ?thesis
        using quiet [OF silent_handlers(3) name_established_handler [OF ok n _ small]] handled
        by (simp add: run_handler_def pget_def act)
    qed
  qed
qed

lemma named_new: "setting_ok se \<Longrightarrow> peer_new se a n = (Inr p, n', out) \<Longrightarrow> named se p \<and> p_addr p = a"
proof -
  assume ok: "setting_ok se" and new: "peer_new se a n = (Inr p, n', out)"
  have "peer_ok se p" "p_addr p = a" using peer_new_cases [OF ok, of a n] new by simp_all
  then have "se_valid_ip se (ip_addr a)" by (simp add: peer_ok_def reachable_def)
  moreover have "group_valid (se_crypto se)" "subgroup_order_ok (se_crypto se)"
    using new by (auto simp: peer_new_def dh_new_def split: if_splits)
  ultimately have "p = greeted se a" using peer_new_eval [OF ok] new by simp
  then show "named se p \<and> p_addr p = a"
    by (simp add: greeted_def peer_blank_def named_def set_static_key_pairs_def static_priv_def dh_blank_def
        sent_hello_def)
qed

lemma peer_life_named:
  assumes "setting_ok se" and "peer_life se a x"
  shows "named se (pc_peer x) \<and> p_addr (pc_peer x) = a"
  using assms(2)
proof (induction rule: peer_life.induct)
  case (Constructed n p n' out)
  then show ?case using named_new [OF assms(1)] by simp
next
  case (Event x ev r x')
  have "p_addr (pc_peer x') = p_addr (pc_peer x)"
    using speaks_do [of se ev] Event.hyps(3) by (auto simp: moves_def speaks_def dest: spec [of _ x])
  then show ?case
    using event_reports [OF assms(1) peer_life_ok [OF assms(1) Event.hyps(1)] _ Event.hyps(2,3)] Event.IH by simp
qed

section \<open>The name the user knows\<close>

text \<open>The last name the user was told.\<close>

fun announced :: "bytes option \<Rightarrow> io list \<Rightarrow> bytes option" where
  "announced v [] = v"
| "announced v (Output (New_peer i a) # es) = announced (Some i) es"
| "announced v (_ # es) = announced v es"

lemma announced_append [simp]: "announced v (xs @ ys) = announced (announced v xs) ys"
  by (induction v xs rule: announced.induct) simp_all

lemma announced_silent: "silent x x' \<Longrightarrow> announced v (pc_io x') = announced v (pc_io x)"
proof -
  have "no_new_peer out \<Longrightarrow> announced u out = u" for u out
    by (induction u out rule: announced.induct) (auto simp: no_new_peer_def)
  then show "silent x x' \<Longrightarrow> announced v (pc_io x') = announced v (pc_io x)" by (auto simp: silent_def)
qed

definition titled :: "pctx \<Rightarrow> bool" where
  "titled x \<longleftrightarrow> (p_handler (pc_peer x) = Established_handler \<longrightarrow> announced None (pc_io x) = Some (p_id (pc_peer x)))"

definition unfinished :: "pctx \<Rightarrow> pctx \<Rightarrow> bool" where
  "unfinished x x' \<longleftrightarrow> (p_handler (pc_peer x) \<noteq> Established_handler \<longrightarrow> p_handler (pc_peer x') \<noteq> Established_handler)"

lemma unfinished_refl: "reflp unfinished"
  by (simp add: reflp_def unfinished_def)

lemma unfinished_trans: "transp unfinished"
  by (simp add: transp_def unfinished_def)

lemma unfinished_primitives:
  "moves unfinished (pget f)" "moves unfinished draw" "moves unfinished (deref v)" "moves unfinished (emit e)"
  "moves unfinished (or_state st)" "moves unfinished cancel_timer" "moves unfinished (on_dh m)"
  "h \<noteq> Established_handler \<Longrightarrow> moves unfinished (set_handler h)"
  "(\<And>p. p_handler (g p) = p_handler p) \<Longrightarrow> moves unfinished (pset g)"
  by (auto simp: moves_def unfinished_def pget_def draw_def deref_def emit_def or_state_def set_handler_def
      cancel_timer_def on_dh_def pset_def act split: option.splits prod.splits)

lemmas unfinished_rules = unfinished_primitives moves_refl [OF unfinished_refl] moves_trans [OF unfinished_trans]

lemma unfinished_handlers:
  "moves unfinished (hello_handler se d)" "moves unfinished (public_key_exchange_handler se d)"
proof -
  have "moves unfinished (send_raw_datagram se d)" "moves unfinished (send_raw_datagram_with_retransmit se d)"
      "moves unfinished (send_ack_raw se)" for d
    by (auto simp: send_raw_datagram_def send_raw_datagram_with_retransmit_def send_ack_raw_def
        do_send_def intro!: unfinished_rules)
  then show "moves unfinished (hello_handler se d)" "moves unfinished (public_key_exchange_handler se d)"
    unfolding hello_handler_def received_hello_handler_def received_hello_ack_handler_def
      hello_complete_handler_def send_public_key_def public_key_exchange_handler_def
      received_public_key_handler_def received_public_key_ack_handler_def
      public_key_exchange_complete_handler_def peer_generate_shared_key_def send_echo_def
    by (auto intro!: unfinished_rules)
qed

lemma titled_echo:
  assumes "peer_ok se (pc_peer x)" "p_handler (pc_peer x) = Echo_handler" "small d"
  shows "wp (echo_handler se d) (\<lambda>_. titled) (\<lambda>_. titled) x"
  using assms
  by (auto simp: echo_handler_def received_echo_handler_def received_echo_back_handler_def wps
      wp_send_raw wp_send_ack peer_ok_def titled_def split: option.splits)

lemma titled_established:
  assumes "setting_ok se" "peer_ok se (pc_peer x)" "p_handler (pc_peer x) = Established_handler" "small d" "titled x"
  shows "wp (established_handler se d) (\<lambda>_. titled) (\<lambda>_. titled) x"
proof (cases "dg_type d = Hello")
  case True
  have "has_bits established (pc_peer x)" using assms(2,3) by (auto simp: peer_ok_def handler_ok_def)
  then show ?thesis
    using assms True
    by (auto simp: established_handler_def peer_reset_def send_hello_def received_hello_handler_def wps
        wp_send_retransmit wp_send_ack setting_ok_def peer_ok_def titled_def)
next
  case False
  have same: "wp m (\<lambda>_. titled) (\<lambda>_. titled) x" if "moves silent m" "moves unmoved m" for m :: "unit peer_action"
    using that announced_silent [of x "snd (m x)" None] assms(5)
    by (auto simp: wp_def moves_def unmoved_def titled_def case_prod_beta split: prod.splits sum.splits dest: spec [of _ x])
  have "wp (received_echo_back_handler d) (\<lambda>_. titled) (\<lambda>_. titled) x"
    using assms(5) by (auto simp: received_echo_back_handler_def wps titled_def split: option.splits)
  moreover have "wp (received_echo_handler se d) (\<lambda>_. titled) (\<lambda>_. titled) x"
    unfolding received_echo_handler_def using silent_sends(1) unmoved_sends(1) by (rule same)
  moreover have "wp (seq (pget p_addr) (\<lambda>a. emit (Delete_peer a))) (\<lambda>_. titled) (\<lambda>_. titled) x"
    by (rule same) (auto intro!: silent_rules unmoved_rules)
  moreover have "wp (seq (on_encrypt_layer (decrypt_payload (se_crypto se) d)) (\<lambda>d'. feed_stream se d')) (\<lambda>_. titled) (\<lambda>_. titled) x"
    by (rule same) (auto intro!: silent_rules unmoved_rules feeds_stream simp: payload_keeps_key)
  ultimately show ?thesis
    using False assms(5) unfolding established_handler_def by (auto simp: wps)
qed

lemma event_titled:
  assumes ok: "setting_ok se" "peer_ok se (pc_peer x)" and t: "titled x" and "event_fits ev"
    and run: "peer_do se ev x = (r, x')"
  shows "titled x'"
proof (cases "\<forall>w. ev \<noteq> Datagram_in w")
  case True
  then have "silent x x'" "unmoved x x'"
    using silent_event [of ev se] unmoved_event [of ev se] run by (auto simp: moves_def dest: spec [of _ x])
  then show ?thesis using t announced_silent [of x x' None] by (simp add: titled_def unmoved_def case_prod_beta)
next
  case False
  then obtain w where w: "ev = Datagram_in w" by blast
  show ?thesis
  proof (cases "datagram_of_bytes w")
    case (Inl e)
    then show ?thesis using run w t by (simp add: peer_feed_def act)
  next
    case (Inr d)
    have small: "small d" using small_datagram [OF Inr] assms(4) w by simp
    have handled: "run_handler se d x = (r, x')" using run w Inr by (simp add: peer_feed_def act)
    have early: "titled x'" if "moves unfinished m" "m x = (r, x')" "p_handler (pc_peer x) \<noteq> Established_handler"
      for m :: "unit peer_action"
    proof -
      have "unfinished x x'" using that(1,2) unfolding moves_def by (metis snd_conv)
      then show "titled x'" using that(3) by (simp add: unfinished_def titled_def)
    qed
    have late: "titled x'" if "wp m (\<lambda>_. titled) (\<lambda>_. titled) x" "m x = (r, x')" for m :: "unit peer_action"
      using that by (auto simp: wp_def split: sum.splits)
    show ?thesis
    proof (cases "p_handler (pc_peer x)")
      case Hello_handler
      then show ?thesis using early [OF unfinished_handlers(1)] handled by (simp add: run_handler_def pget_def act)
    next
      case Public_key_exchange_handler
      then show ?thesis using early [OF unfinished_handlers(2)] handled by (simp add: run_handler_def pget_def act)
    next
      case Echo_handler
      then show ?thesis
        using late [OF titled_echo [OF ok(2) _ small]] handled by (simp add: run_handler_def pget_def act)
    next
      case Established_handler
      then show ?thesis
        using late [OF titled_established [OF ok _ small t]] handled by (simp add: run_handler_def pget_def act)
    qed
  qed
qed

lemma peer_life_titled:
  assumes "setting_ok se" and "peer_life se a x"
  shows "titled x"
  using assms(2)
proof (induction rule: peer_life.induct)
  case (Constructed n p n' out)
  then show ?case using peer_new_cases [OF assms(1), of a n] by (simp add: titled_def)
next
  case (Event x ev r x')
  then show ?case using event_titled [OF assms(1) peer_life_ok [OF assms(1)]] by blast
qed

section \<open>Properties\<close>

text \<open>
  C4: The name and the key belong together: over every sequence of events, whatever arrives, an
  established peer encrypts under the key that was agreed with the public key configured for the
  name its user was told last; and a peer is never reported under another address, nor before
  it holds a key agreed with the public key of that name.
\<close>

theorem reported_name_has_key:
  assumes "setting_ok se" and "peer_life se a x"
  shows "(p_handler (pc_peer x) = Established_handler \<longrightarrow> (\<exists>i el. announced None (pc_io x) = Some i
      \<and> p_encrypt (pc_peer x) = Some el \<and> agreed se i (el_key el)))
    \<and> (\<forall>ev r x'. event_fits ev \<and> peer_do se ev x = (r, x') \<longrightarrow> (\<exists>out. pc_io x' = pc_io x @ out
      \<and> (\<forall>i b. Output (New_peer i b) \<in> set out \<longrightarrow>
          b = a \<and> (\<exists>el. p_encrypt (pc_peer x') = Some el \<and> agreed se i (el_key el)))))"
proof (intro conjI allI impI)
  note ok = peer_life_ok [OF assms] and named = peer_life_named [OF assms]
  assume est: "p_handler (pc_peer x) = Established_handler"
  then have "bit (p_state (pc_peer x)) 6" using ok by (auto simp: peer_ok_def handler_ok_def)
  then obtain el where "p_encrypt (pc_peer x) = Some el" using ok by (auto simp: peer_ok_def keys_ok_def)
  then show "\<exists>i el. announced None (pc_io x) = Some i \<and> p_encrypt (pc_peer x) = Some el \<and> agreed se i (el_key el)"
    using named peer_life_titled [OF assms] est by (auto simp: titled_def named_def)
next
  fix ev r x'
  assume ev: "event_fits ev \<and> peer_do se ev x = (r, x')"
  note named = peer_life_named [OF assms]
  have "named se (pc_peer x') \<and> reports_name se x x'"
    using event_reports [OF assms(1) peer_life_ok [OF assms]] named ev by blast
  moreover have "p_addr (pc_peer x') = a"
    using peer_life_named [OF assms(1) peer_life.Event [OF assms(2)]] ev by blast
  ultimately show "\<exists>out. pc_io x' = pc_io x @ out \<and> (\<forall>i b. Output (New_peer i b) \<in> set out \<longrightarrow>
      b = a \<and> (\<exists>el. p_encrypt (pc_peer x') = Some el \<and> agreed se i (el_key el)))"
    unfolding reports_name_def named_def by metis
qed

lemma reported_name_has_key_witness:
  "\<exists>x. peer_life sample_a (mk_address [] 2) x
    \<and> (\<exists>out. pc_io (snd (peer_do sample_a (Datagram_in (datagram_wire (create_hello [3]))) x)) = pc_io x @ out
        \<and> (\<forall>i b. Output (New_peer i b) \<in> set out \<longrightarrow> b = mk_address [] 2))"
proof -
  let ?ev = "Datagram_in (datagram_wire (create_hello [3]))"
  have life: "peer_life sample_a (mk_address [] 2) sample_x"
    unfolding sample_x_def by (rule peer_life.Constructed [OF sample_pair(5)])
  have "event_fits ?ev" by (simp add: length_datagram_wire)
  moreover obtain r x' where "peer_do sample_a ?ev sample_x = (r, x')" by fastforce
  ultimately show ?thesis
    using life reported_name_has_key [OF sample_pair(1) life] by (metis snd_conv)
qed

text \<open>
  C11: Nobody has to hold a key to be reported: whoever sends a new peer five datagrams, a hello
  with any configured name, any ephemeral key the agreement accepts, two acknowledgements and the echo, which
  travels in the clear and never changes, is reported to the user under that name.
\<close>

theorem anyone_is_reported:
  assumes "setting_ok se" and "peer_new se a n = (Inr p, n', out)" and "small (create_hello i)" "small (create_public_key e)"
    and "dh2_agree (se_crypto se) (static_priv se) (epriv se n) (trusted_spub se i) e = Some k" and "16 \<le> length k"
  shows "let x = fold (\<lambda>d. receive_all se [datagram_wire d])
      [create_hello i, create_ack 0 0, create_public_key e, create_ack 0 0, create_echo_back (create_echo (str ''1234567890''))]
      \<lparr>pc_peer = p, pc_rnd = n', pc_io = out\<rparr>
    in p_handler (pc_peer x) = Established_handler \<and> pc_io x = [Output (New_peer i a)]"
proof -
  let ?echo = "create_echo_back (create_echo (str ''1234567890''))"
  have named: "named_type (dg_type (create_hello i))" "named_type (dg_type (create_ack 0 0))"
      "named_type (dg_type (create_public_key e))" "named_type (dg_type ?echo)" by simp_all
  have small: "small (create_ack 0 0)" "small ?echo" by simp_all
  note s0 = peer_new_Inr [OF assms(1,2)]
  note s1 = hears_receive [OF round_1 [OF s0, of i] named(1) assms(3)]
  note s2 = hears_receive [OF round_2 [OF assms(1) s1] named(2) small(1)]
  note s3 = hears_receive [OF round_3 [OF s2, of e] named(3) assms(4)]
  note s4 = hears_receive [OF round_4 [OF s3 dh_fields assms(5,6)] named(2) small(1)]
  from hears_receive [OF round_6 [OF s4] named(4) small(2)] show ?thesis
    by (simp add: connected_def Let_def)
qed

lemma anyone_is_reported_witness:
  "let x = fold (\<lambda>d. receive_all sample_a [datagram_wire d])
      [create_hello [3], create_ack 0 0, create_public_key (replicate 16 9), create_ack 0 0,
       create_echo_back (create_echo (str ''1234567890''))] sample_x
    in p_handler (pc_peer x) = Established_handler \<and> pc_io x = [Output (New_peer [3] (mk_address [] 2))]"
proof -
  obtain k where "dh2_agree (se_crypto sample_a) (static_priv sample_a) (epriv sample_a 0) (trusted_spub sample_a [3])
      (replicate 16 9) = Some k" "16 \<le> length k"
    by (simp add: sample_a_def sample_setting_def sample_crypto_def epriv_def)
  moreover have "small (create_hello [3])" "small (create_public_key (replicate 16 9))" by simp_all
  ultimately show ?thesis
    unfolding sample_x_def by (intro anyone_is_reported [OF sample_pair(1,5)])
qed

end
