(* ===== verification/Udp_Layer.thy ===== *)
theory Udp_Layer
  imports Peer_Lifetime Ring
begin

text \<open>
  \<^verbatim>\<open>client/sml/udp_layer.h\<close> and \<^verbatim>\<open>udp_layer.cpp\<close>: one local port, the table of its peers
  and the filters in front of them, and the control messages of \<^verbatim>\<open>message.cpp\<close> that act on it.
  What the layer shares with the rest of the service (the state its filters change) is the
  type parameter of the record.
\<close>

section \<open>State\<close>

text \<open>Crypto++ and asio, as far as the layer uses them.\<close>

record platform =
  pl_crypto :: crypto
  pl_valid_ip :: "bytes \<Rightarrow> bool"   \<comment> \<open>\<open>address::from_string\<close> accepts the text\<close>

text \<open>A filter looks at a datagram, may change the service's state, and decides on its peer.\<close>

type_synonym 'x filter_type = "bytes \<Rightarrow> address \<Rightarrow> ('x, bool) action"

record 'x udp_layer =
  u_conf :: configuration
  u_filters :: "address \<rightharpoonup> 'x filter_type"   \<comment> \<open>\<open>filter_map_\<close>\<close>
  u_peers :: "address \<rightharpoonup> peer"               \<comment> \<open>\<open>peer_map_\<close>\<close>
  u_default :: "'x filter_type"                \<comment> \<open>\<open>default_filter_\<close>\<close>
  u_receiving :: bool                          \<comment> \<open>a receive operation is pending\<close>
  u_sent :: "(bytes \<times> address) list"           \<comment> \<open>datagrams handed to the socket\<close>
  u_output :: "message ring"                   \<comment> \<open>\<open>output_ring\<close>\<close>
  u_rnd :: nat
  u_service :: 'x

definition buffer_size :: nat where
  "buffer_size = 1500"

definition setting_of :: "platform \<Rightarrow> 'x udp_layer \<Rightarrow> setting" where
  "setting_of pl u = \<lparr>se_crypto = pl_crypto pl, se_conf = u_conf u, se_valid_ip = pl_valid_ip pl\<rparr>"

type_synonym ('x, 'a) udp_action = "('x udp_layer, 'a) action"

section \<open>Operations\<close>

definition start_receive :: "('x, unit) udp_action" where
  "start_receive = modify (\<lambda>u. u\<lparr>u_receiving := True\<rparr>)"

definition udp_new :: "configuration \<Rightarrow> 'x \<Rightarrow> 'x udp_layer" where
  "udp_new conf s = \<lparr>u_conf = conf, u_filters = (\<lambda>_. None), u_peers = (\<lambda>_. None),
     u_default = (\<lambda>msg a. ret True), u_receiving = True, u_sent = [], u_output = ring_new, u_rnd = 0,
     u_service = s\<rparr>"

definition send_to :: "platform \<Rightarrow> bytes \<Rightarrow> address \<Rightarrow> ('x, unit) udp_action" where
  "send_to pl msg a =
     (if pl_valid_ip pl (ip_addr a) then modify (\<lambda>u. u\<lparr>u_sent := u_sent u @ [(msg, a)]\<rparr>)
      else throw Std_runtime_error)"

definition register_filter :: "'x filter_type \<Rightarrow> address \<Rightarrow> ('x, unit) udp_action" where
  "register_filter f a = modify (\<lambda>u. u\<lparr>u_filters := umap_assign a f (u_filters u)\<rparr>)"

definition register_default_filter :: "'x filter_type \<Rightarrow> ('x, unit) udp_action" where
  "register_default_filter f = modify (\<lambda>u. u\<lparr>u_default := f\<rparr>)"

definition report :: "message \<Rightarrow> ('x, unit) udp_action" where
  "report m = modify (\<lambda>u. u\<lparr>u_output := ring_put m (u_output u)\<rparr>)"

definition udp_del_peer :: "address \<Rightarrow> ('x, unit) udp_action" where
  "udp_del_peer a = seq (gets u_peers) (\<lambda>m.
     let count = (if m a = None then 0 else 1 :: nat) in
     andthen (modify (\<lambda>u. u\<lparr>u_peers := umap_erase a (u_peers u)\<rparr>))
       (if count < 1 then report (Error_message (str ''no such peer'' @ [10]))
        else if count > 1 then throw Unknown_error
        else ret ()))"

text \<open>The outputs of a peer, in order.\<close>

definition run_io :: "io \<Rightarrow> ('x, unit) udp_action" where
  "run_io e = (case e of
     Udp_send b a \<Rightarrow> modify (\<lambda>u. u\<lparr>u_sent := u_sent u @ [(b, a)]\<rparr>)
   | Output m \<Rightarrow> report m
   | Delete_peer a \<Rightarrow> udp_del_peer a)"

text \<open>
  Construct a peer, which sends its hello, and insert it: an entry that is already there stays,
  and the new peer is destroyed.
\<close>

definition udp_add_peer :: "platform \<Rightarrow> address \<Rightarrow> ('x, unit) udp_action" where
  "udp_add_peer pl a = (\<lambda>u.
     case peer_new (setting_of pl u) a (u_rnd u) of
       (Inl e, n, out) \<Rightarrow>
         andthen (for_each run_io out) (throw e) (u\<lparr>u_rnd := n\<rparr>)
     | (Inr p, n, out) \<Rightarrow>
         andthen (for_each run_io out)
           (modify (\<lambda>u. u\<lparr>u_peers := umap_insert a p (u_peers u)\<rparr>)) (u\<lparr>u_rnd := n\<rparr>))"

definition udp_get_peer :: "address \<Rightarrow> 'x udp_layer \<Rightarrow> peer option" where
  "udp_get_peer a u = u_peers u a"

text \<open>Run a member function of the peer at an address in place; the peer survives until it returns.\<close>

definition on_peer :: "platform \<Rightarrow> address \<Rightarrow> (setting \<Rightarrow> 'a peer_action) \<Rightarrow> ('x, 'a) udp_action" where
  "on_peer pl a f = (\<lambda>u.
     case u_peers u a of
       None \<Rightarrow> (Inl Null_deref, u)
     | Some p \<Rightarrow>
         (case f (setting_of pl u) \<lparr>pc_peer = p, pc_rnd = u_rnd u, pc_io = []\<rparr> of
            (r, x) \<Rightarrow>
              seq (for_each run_io (pc_io x)) (\<lambda>_. lift r)
                (u\<lparr>u_peers := umap_assign a (pc_peer x) (u_peers u), u_rnd := pc_rnd x\<rparr>)))"

definition on_service :: "('x, 'a) action \<Rightarrow> ('x, 'a) udp_action" where
  "on_service m = (\<lambda>u. case m (u_service u) of (r, s) \<Rightarrow> (r, u\<lparr>u_service := s\<rparr>))"

definition feed_peer :: "platform \<Rightarrow> bytes \<Rightarrow> address \<Rightarrow> ('x, unit) udp_action" where
  "feed_peer pl msg a =
     seq (gets (udp_get_peer a)) (\<lambda>found.
     andthen (whenever (found = None) (udp_add_peer pl a))
       (on_peer pl a (\<lambda>se. peer_feed se msg)))"

datatype error_code = No_error | Message_size | Other_error

definition handle_receive :: "platform \<Rightarrow> error_code \<Rightarrow> bytes \<Rightarrow> address \<Rightarrow> ('x, unit) udp_action" where
  "handle_receive pl ec msg a =
     whenever (ec = No_error \<or> ec = Message_size)
       (seq (gets (\<lambda>u. case u_filters u a of Some f \<Rightarrow> f | None \<Rightarrow> u_default u)) (\<lambda>f.
        seq (on_service (f msg a)) (\<lambda>to_peer.
        andthen (whenever to_peer (feed_peer pl msg a))
          start_receive)))"

text \<open>
  A datagram reaches the socket: the pending receive completes with what fits into the buffer.
  With no receive pending nothing happens.
\<close>

definition datagram_arrives :: "platform \<Rightarrow> bytes \<Rightarrow> address \<Rightarrow> ('x, unit) udp_action" where
  "datagram_arrives pl msg a =
     seq (gets u_receiving) (\<lambda>pending.
     whenever pending
       (andthen (modify (\<lambda>u. u\<lparr>u_receiving := False\<rparr>))
         (handle_receive pl (if length msg > buffer_size then Message_size else No_error)
            (take buffer_size msg) a)))"

definition peer_timer :: "platform \<Rightarrow> address \<Rightarrow> ('x, unit) udp_action" where
  "peer_timer pl a = seq (gets (udp_get_peer a)) (\<lambda>p.
     whenever (p \<noteq> None) (on_peer pl a peer_timer_fires))"

definition stream_timer :: "platform \<Rightarrow> address \<Rightarrow> u32 \<Rightarrow> ('x, unit) udp_action" where
  "stream_timer pl a i = seq (gets (udp_get_peer a)) (\<lambda>p.
     whenever (p \<noteq> None) (on_peer pl a (\<lambda>se. stream_timer_event se i)))"

text \<open>Handlers that were waiting to run when their timer was cancelled or armed again.\<close>

definition late_peer_timer :: "platform \<Rightarrow> address \<Rightarrow> datagram \<Rightarrow> ('x, unit) udp_action" where
  "late_peer_timer pl a d = seq (gets (udp_get_peer a)) (\<lambda>p.
     whenever (p \<noteq> None) (on_peer pl a (\<lambda>se. peer_late_timer se d)))"

definition late_stream_timer :: "platform \<Rightarrow> address \<Rightarrow> u32 \<Rightarrow> ('x, unit) udp_action" where
  "late_stream_timer pl a i = seq (gets (udp_get_peer a)) (\<lambda>p.
     whenever (p \<noteq> None) (on_peer pl a (\<lambda>se. late_stream_timer_event se i)))"

section \<open>Control messages\<close>

definition add_trusted_run :: "bytes \<Rightarrow> bytes \<Rightarrow> ('x, unit) udp_action" where
  "add_trusted_run i k = modify (\<lambda>u. u\<lparr>u_conf := add_trusted_peer_public_key i k (u_conf u)\<rparr>)"

text \<open>\<^verbatim>\<open>operator()\<close> of the control messages; on any other message the pointer it is called through is null.\<close>

fun control_run :: "platform \<Rightarrow> message \<Rightarrow> ('x, unit) udp_action" where
  "control_run pl (Add_peer a) = udp_add_peer pl a"
| "control_run pl (Del_peer a) = udp_del_peer a"
| "control_run pl (Add_stream a i) = seq (gets (udp_get_peer a)) (\<lambda>p.
     whenever (p \<noteq> None) (on_peer pl a (\<lambda>se. seq (peer_add_stream i) (\<lambda>_. ret ()))))"
| "control_run pl (Del_stream a i) = seq (gets (udp_get_peer a)) (\<lambda>p.
     whenever (p \<noteq> None) (on_peer pl a (\<lambda>se. peer_del_stream i)))"
| "control_run pl (Send_data a i data) = seq (gets (udp_get_peer a)) (\<lambda>p.
     whenever (p \<noteq> None) (on_peer pl a (\<lambda>se. send_on_stream se i data)))"
| "control_run pl _ = throw Null_deref"

section \<open>The invariant of the layer\<close>

definition udp_ok :: "platform \<Rightarrow> 'x udp_layer \<Rightarrow> bool" where
  "udp_ok pl u \<longleftrightarrow> setting_ok (setting_of pl u)
     \<and> (\<forall>a p. u_peers u a = Some p \<longrightarrow> p_addr p = a \<and> peer_ok (setting_of pl u) p)"

lemma setting_of_update [simp]:
  "setting_of pl (u\<lparr>u_peers := m\<rparr>) = setting_of pl u"
  "setting_of pl (u\<lparr>u_filters := fs\<rparr>) = setting_of pl u"
  "setting_of pl (u\<lparr>u_default := f\<rparr>) = setting_of pl u"
  "setting_of pl (u\<lparr>u_receiving := b\<rparr>) = setting_of pl u"
  "setting_of pl (u\<lparr>u_sent := ss\<rparr>) = setting_of pl u"
  "setting_of pl (u\<lparr>u_output := r\<rparr>) = setting_of pl u"
  "setting_of pl (u\<lparr>u_rnd := n\<rparr>) = setting_of pl u"
  "setting_of pl (u\<lparr>u_service := s\<rparr>) = setting_of pl u"
  by (simp_all add: setting_of_def)

lemma setting_of_fields [simp]:
  "se_conf (setting_of pl u) = u_conf u" "se_crypto (setting_of pl u) = pl_crypto pl"
  "se_valid_ip (setting_of pl u) = pl_valid_ip pl"
  by (simp_all add: setting_of_def)

text \<open>A peer never changes its address.\<close>

definition fixed_addr :: "pctx \<Rightarrow> pctx \<Rightarrow> bool" where
  "fixed_addr x x' \<longleftrightarrow> p_addr (pc_peer x') = p_addr (pc_peer x)"

lemma fixed_addr_order: "reflp fixed_addr" "transp fixed_addr"
  by (auto simp: reflp_def transp_def fixed_addr_def)

lemma fixed_addr_primitives:
  "moves fixed_addr (pget f)"
  "moves fixed_addr draw"
  "moves fixed_addr (deref v)"
  "moves fixed_addr (emit e)"
  "moves fixed_addr (or_state st)"
  "moves fixed_addr (set_handler h)"
  "moves fixed_addr cancel_timer"
  "moves fixed_addr (on_dh m)"
  "moves fixed_addr (on_encrypt_layer l)"
  "(\<And>p. p_addr (g p) = p_addr p) \<Longrightarrow> moves fixed_addr (pset g)"
  by (auto simp: moves_def fixed_addr_def pget_def draw_def deref_def emit_def or_state_def
      set_handler_def cancel_timer_def on_dh_def on_encrypt_layer_def pset_def act
      split: option.splits prod.splits)

lemmas fixed_addr_rules = fixed_addr_primitives
  moves_refl [OF fixed_addr_order(1)] moves_trans [OF fixed_addr_order(2)]

lemma fixed_addr_for_each: "(\<And>x. moves fixed_addr (f x)) \<Longrightarrow> moves fixed_addr (for_each f xs)"
  by (induction xs) (auto intro!: fixed_addr_rules)

lemma fixed_addr_sends:
  "moves fixed_addr (send_raw_datagram se d)"
  "moves fixed_addr (send_raw_datagram_with_retransmit se d)"
  "moves fixed_addr (send_ack_raw se)"
  "moves fixed_addr (run_effect se e)"
  by (auto simp: send_raw_datagram_def send_raw_datagram_with_retransmit_def send_ack_raw_def
      do_send_def run_effect_def peer_send_datagram_def split: effect.splits intro!: fixed_addr_rules)

lemma fixed_addr_stream: "moves fixed_addr (on_stream se i f)"
proof -
  have "moves fixed_addr (andthen (pset (\<lambda>p. p\<lparr>p_streams := map_assign i s (p_streams p)\<rparr>))
      (for_each (run_effect se) es))" for s es
    by (auto intro!: fixed_addr_rules fixed_addr_for_each fixed_addr_sends)
  then show ?thesis
    unfolding on_stream_def by (auto intro!: fixed_addr_rules split: prod.splits)
qed

lemma fixed_addr_handlers:
  "moves fixed_addr (hello_handler se d)"
  "moves fixed_addr (public_key_exchange_handler se d)"
  "moves fixed_addr (echo_handler se d)"
  "moves fixed_addr (established_handler se d)"
  unfolding hello_handler_def received_hello_handler_def received_hello_ack_handler_def
    hello_complete_handler_def send_public_key_def public_key_exchange_handler_def
    received_public_key_handler_def received_public_key_ack_handler_def
    public_key_exchange_complete_handler_def peer_generate_shared_key_def send_echo_def
    echo_handler_def received_echo_handler_def received_echo_back_handler_def
    established_handler_def peer_reset_def send_hello_def feed_stream_def
  by (auto intro!: fixed_addr_rules fixed_addr_sends fixed_addr_stream)

lemma fixed_addr_do: "moves fixed_addr (peer_do se ev)"
proof (cases ev)
  case (Datagram_in msg)
  then show ?thesis
    by (auto simp: peer_feed_def run_handler_def intro!: fixed_addr_rules fixed_addr_handlers split: handler.split)
next
  case (User_del_stream i)
  then show ?thesis by (auto simp: peer_del_stream_def Let_def intro!: fixed_addr_rules)
qed (auto simp: peer_timer_fires_def retransmit_raw_datagram_def stream_timer_event_def
    peer_stream_timer_fires_def peer_late_timer_def late_stream_timer_event_def
    peer_add_stream_def send_on_stream_def
    intro!: fixed_addr_rules fixed_addr_sends fixed_addr_stream split: option.split)

end
