(* ===== verification/Udp_Facts.thy ===== *)
theory Udp_Facts
  imports Udp_Layer
begin

text \<open>
  Facts about the UDP layer: its invariant under every operation, the table contract of
  \<^verbatim>\<open>add_peer\<close>, \<^verbatim>\<open>del_peer\<close> and \<^verbatim>\<open>get_peer\<close>, and when the receive loop goes on.
\<close>

section \<open>Preservation of the invariant\<close>

text \<open>The operation keeps the invariant, and only exceptions in \<open>F\<close> leave it.\<close>

definition udp_tame :: "platform \<Rightarrow> (err \<Rightarrow> bool) \<Rightarrow> ('x, 'a) udp_action \<Rightarrow> 'x udp_layer \<Rightarrow> bool" where
  "udp_tame pl F m u \<longleftrightarrow> wp m (\<lambda>_. udp_ok pl) (\<lambda>e u'. udp_ok pl u' \<and> F e) u"

lemma udp_tame_then:
  assumes "udp_tame pl F m u" and "\<And>u'. udp_ok pl u' \<Longrightarrow> udp_tame pl F n u'"
  shows "udp_tame pl F (andthen m n) u"
  using assms(1) unfolding udp_tame_def wps
  by (rule wp_mono) (use assms(2) in \<open>auto simp: udp_tame_def\<close>)

lemma udp_tame_mono:
  "udp_tame pl F m u \<Longrightarrow> (\<And>e. F e \<Longrightarrow> G e) \<Longrightarrow> udp_tame pl G m u"
  unfolding udp_tame_def by (erule wp_mono) auto

lemma udp_ok_update [simp]:
  "udp_ok pl (u\<lparr>u_sent := ss\<rparr>) = udp_ok pl u"
  "udp_ok pl (u\<lparr>u_output := r\<rparr>) = udp_ok pl u"
  "udp_ok pl (u\<lparr>u_rnd := n\<rparr>) = udp_ok pl u"
  "udp_ok pl (u\<lparr>u_service := s\<rparr>) = udp_ok pl u"
  "udp_ok pl (u\<lparr>u_receiving := b\<rparr>) = udp_ok pl u"
  "udp_ok pl (u\<lparr>u_filters := fs\<rparr>) = udp_ok pl u"
  "udp_ok pl (u\<lparr>u_default := f\<rparr>) = udp_ok pl u"
  by (simp_all add: udp_ok_def)

lemma udp_ok_assign:
  "udp_ok pl u \<Longrightarrow> p_addr p = a \<Longrightarrow> peer_ok (setting_of pl u) p \<Longrightarrow>
   udp_ok pl (u\<lparr>u_peers := umap_assign a p (u_peers u)\<rparr>)"
  by (auto simp: udp_ok_def umap.find_assign)

lemma udp_ok_insert:
  "udp_ok pl u \<Longrightarrow> p_addr p = a \<Longrightarrow> peer_ok (setting_of pl u) p \<Longrightarrow>
   udp_ok pl (u\<lparr>u_peers := umap_insert a p (u_peers u)\<rparr>)"
  by (auto simp: udp_ok_def umap.find_insert split: if_splits)

lemma udp_ok_erase: "udp_ok pl u \<Longrightarrow> udp_ok pl (u\<lparr>u_peers := umap_erase a (u_peers u)\<rparr>)"
  by (auto simp: udp_ok_def umap.find_erase split: if_splits)

lemma wp_report [wps]: "wp (report m) Q E u \<longleftrightarrow> Q () (u\<lparr>u_output := ring_put m (u_output u)\<rparr>)"
  by (simp add: report_def wps)

lemma udp_del_peer_tame: "udp_ok pl u \<Longrightarrow> udp_tame pl F (udp_del_peer a) u"
  by (simp add: udp_tame_def udp_del_peer_def Let_def wps udp_ok_erase)

lemma run_io_tame: "udp_ok pl u \<Longrightarrow> udp_tame pl F (run_io e) u"
  by (cases e) (simp_all add: run_io_def udp_del_peer_tame, simp_all add: udp_tame_def wps)

lemma run_ios_tame: "udp_ok pl u \<Longrightarrow> udp_tame pl F (for_each run_io es) u"
  unfolding udp_tame_def
  by (rule wp_for_each [where P = "udp_ok pl"]) (use run_io_tame in \<open>auto simp: udp_tame_def\<close>)

lemma wp_on_service:
  "wp (on_service m) Q E u \<longleftrightarrow> wp m (\<lambda>r s. Q r (u\<lparr>u_service := s\<rparr>)) (\<lambda>e s. E e (u\<lparr>u_service := s\<rparr>)) (u_service u)"
  by (simp add: wp_def on_service_def split: prod.splits)

lemma udp_add_peer_tame:
  assumes "udp_ok pl u"
  shows "udp_tame pl benign (udp_add_peer pl a) u"
proof -
  have se: "setting_ok (setting_of pl u)" using assms by (simp add: udp_ok_def)
  obtain r n out where new: "peer_new (setting_of pl u) a (u_rnd u) = (r, n, out)"
    by (metis prod.exhaust)
  note facts = peer_new_cases [OF se, of a "u_rnd u", unfolded new, simplified]
  have io: "udp_tame pl benign (for_each run_io out) (u\<lparr>u_rnd := n\<rparr>)"
    using assms by (simp add: run_ios_tame)
  show ?thesis
  proof (cases r)
    case (Inl e)
    then have e: "benign e" using facts by (simp add: benign_def)
    have "udp_tame pl benign (andthen (for_each run_io out) (throw e)) (u\<lparr>u_rnd := n\<rparr>)"
      by (rule udp_tame_then [OF io]) (simp add: udp_tame_def wps e)
    then show ?thesis by (simp add: udp_tame_def wp_def udp_add_peer_def new Inl)
  next
    case (Inr p)
    let ?ins = "modify (\<lambda>u. u\<lparr>u_peers := umap_insert a p (u_peers u)\<rparr>) :: ('a, unit) udp_action"
    let ?u = "u\<lparr>u_rnd := n, u_sent := u_sent u @ [(datagram_wire (create_hello (conf_id (u_conf u))), a)]\<rparr>"
    have "udp_ok pl (?u\<lparr>u_peers := umap_insert a p (u_peers ?u)\<rparr>)"
      by (rule udp_ok_insert) (use assms facts Inr in simp_all)
    then show ?thesis
      using facts Inr
      by (simp add: udp_tame_def wp_def udp_add_peer_def new run_io_def act)
  qed
qed

lemma on_peer_tame:
  assumes "udp_ok pl u" and "u_peers u a \<noteq> None" and "event_fits ev"
  shows "udp_tame pl benign (on_peer pl a (\<lambda>se. peer_do se ev)) u"
proof -
  obtain p where p: "u_peers u a = Some p" using assms(2) by blast
  let ?x = "\<lparr>pc_peer = p, pc_rnd = u_rnd u, pc_io = []\<rparr>"
  have ok: "setting_ok (setting_of pl u)" "p_addr p = a" "peer_ok (setting_of pl u) (pc_peer ?x)"
    using assms(1) p by (simp_all add: udp_ok_def)
  obtain r x where run: "peer_do (setting_of pl u) ev ?x = (r, x)" by fastforce
  have x: "peer_ok (setting_of pl u) (pc_peer x)" and r: "\<And>e. r = Inl e \<Longrightarrow> benign e"
    using peer_do_tame [OF ok(1,3) assms(3)] run by (auto simp: tame_def wp_def split: sum.splits)
  have addr: "p_addr (pc_peer x) = a"
    using fixed_addr_do [of "setting_of pl u" ev] run ok(2)
    by (auto simp: moves_def fixed_addr_def dest: spec [of _ ?x])
  let ?u = "u\<lparr>u_peers := umap_assign a (pc_peer x) (u_peers u), u_rnd := pc_rnd x\<rparr>"
  have "udp_ok pl ?u" using assms(1) addr x by (simp add: udp_ok_assign)
  then have "udp_tame pl benign (for_each run_io (pc_io x)) ?u" by (rule run_ios_tame)
  then have "udp_tame pl benign (seq (for_each run_io (pc_io x)) (\<lambda>_. lift r)) ?u"
    unfolding udp_tame_def wps by (rule wp_mono) (use r in \<open>auto simp: wps split: sum.splits\<close>)
  then show ?thesis by (simp add: udp_tame_def wp_def on_peer_def p run)
qed

text \<open>A peer that was added is found, whether it was there before or not.\<close>

lemma udp_add_peer_found:
  assumes "udp_ok pl u"
  shows "wp (udp_add_peer pl a) (\<lambda>_ u'. u_peers u' a \<noteq> None) (\<lambda>_ _. True) u"
proof -
  have se: "setting_ok (setting_of pl u)" using assms by (simp add: udp_ok_def)
  obtain r n out where new: "peer_new (setting_of pl u) a (u_rnd u) = (r, n, out)"
    by (metis prod.exhaust)
  note facts = peer_new_cases [OF se, of a "u_rnd u", unfolded new, simplified]
  show ?thesis
  proof (cases r)
    case (Inl e)
    then show ?thesis
      by (simp add: wp_def udp_add_peer_def new act split: prod.splits sum.splits)
  next
    case (Inr p)
    then show ?thesis
      using facts umap.insert_defined [OF TrueI, where k = a and v = p and m = "u_peers u"]
      by (auto simp: wp_def udp_add_peer_def new run_io_def act)
  qed
qed

lemma feed_peer_tame:
  assumes "udp_ok pl u" and "length msg \<le> 2 ^ 30 - 13"
  shows "udp_tame pl benign (feed_peer pl msg a) u"
proof -
  have feed: "udp_tame pl benign (on_peer pl a (\<lambda>se. peer_feed se msg)) u'"
    if "udp_ok pl u'" "u_peers u' a \<noteq> None" for u' :: "'a udp_layer"
    using on_peer_tame [OF that, of "Datagram_in msg"] assms(2) by simp
  show ?thesis
  proof (cases "u_peers u a")
    case None
    have "wp (udp_add_peer pl a) (\<lambda>_ u'. udp_ok pl u' \<and> u_peers u' a \<noteq> None)
        (\<lambda>e u'. udp_ok pl u' \<and> benign e) u"
      using udp_add_peer_tame [OF assms(1), of a] udp_add_peer_found [OF assms(1), of a]
      by (auto simp: udp_tame_def wp_def split: prod.splits sum.splits)
    then have "wp (udp_add_peer pl a) (\<lambda>_. wp (on_peer pl a (\<lambda>se. peer_feed se msg)) (\<lambda>_. udp_ok pl)
        (\<lambda>e u'. udp_ok pl u' \<and> benign e)) (\<lambda>e u'. udp_ok pl u' \<and> benign e) u"
      by (rule wp_mono) (use feed in \<open>auto simp: udp_tame_def\<close>)
    then show ?thesis using None by (simp add: udp_tame_def feed_peer_def udp_get_peer_def wps)
  next
    case (Some p)
    then show ?thesis
      using feed [OF assms(1)] by (simp add: udp_tame_def feed_peer_def udp_get_peer_def wps)
  qed
qed

text \<open>The filters may throw what they like, but only that is added to what leaves the layer.\<close>

definition filters_throw :: "(err \<Rightarrow> bool) \<Rightarrow> 'x udp_layer \<Rightarrow> bool" where
  "filters_throw F u \<longleftrightarrow> (\<forall>msg a s. wp (u_default u msg a) (\<lambda>_ _. True) (\<lambda>e _. F e) s
     \<and> (\<forall>a' f. u_filters u a' = Some f \<longrightarrow> wp (f msg a) (\<lambda>_ _. True) (\<lambda>e _. F e) s))"

lemma handle_receive_tame:
  fixes u :: "'x udp_layer"
  assumes "udp_ok pl u" and "length msg \<le> 2 ^ 30 - 13" and "filters_throw F u"
  shows "udp_tame pl (\<lambda>e. benign e \<or> F e) (handle_receive pl ec msg a) u"
proof -
  let ?f = "case u_filters u a of Some f \<Rightarrow> f | None \<Rightarrow> u_default u"
  let ?F = "\<lambda>e. benign e \<or> F e"
  have rest: "udp_tame pl ?F (andthen (whenever b (feed_peer pl msg a)) start_receive) u'"
    if "udp_ok pl u'" for b and u' :: "'x udp_layer"
  proof (rule udp_tame_then)
    show "udp_tame pl ?F (whenever b (feed_peer pl msg a)) u'"
      using udp_tame_mono [OF feed_peer_tame [OF that assms(2), of a], of ?F] that
      by (cases b) (simp_all add: udp_tame_def wps)
  qed (simp add: udp_tame_def start_receive_def wps)
  have "wp (?f msg a) (\<lambda>_ _. True) (\<lambda>e _. F e) (u_service u)"
    using assms(3) by (auto simp: filters_throw_def split: option.split)
  then have "wp (?f msg a) (\<lambda>b s. udp_tame pl ?F (andthen (whenever b (feed_peer pl msg a)) start_receive)
      (u\<lparr>u_service := s\<rparr>)) (\<lambda>e s. udp_ok pl (u\<lparr>u_service := s\<rparr>) \<and> ?F e) (u_service u)"
    by (rule wp_mono) (use rest assms(1) in auto)
  then show ?thesis
    using assms(1) by (simp add: udp_tame_def handle_receive_def wp_whenever wp_seq wp_gets wp_on_service)
qed

lemma datagram_arrives_tame:
  assumes "udp_ok pl u" and "filters_throw F u"
  shows "udp_tame pl (\<lambda>e. benign e \<or> F e) (datagram_arrives pl msg a) u"
proof -
  have "udp_tame pl (\<lambda>e. benign e \<or> F e) (handle_receive pl ec (take buffer_size msg) a)
      (u\<lparr>u_receiving := False\<rparr>)" for ec
    by (rule handle_receive_tame) (use assms in \<open>simp_all add: filters_throw_def buffer_size_def\<close>)
  then show ?thesis
    using assms(1)
    by (simp add: udp_tame_def datagram_arrives_def wp_seq wp_gets wp_whenever wp_andthen wp_modify)
qed

lemma control_run_tame:
  assumes "udp_ok pl u" and "is_control m"
  shows "udp_tame pl benign (control_run pl m) u"
proof -
  have ev: "udp_tame pl benign (seq (gets (udp_get_peer a)) (\<lambda>p. whenever (p \<noteq> None)
      (on_peer pl a (\<lambda>se. peer_do se ev)))) u" if "event_fits ev" for a ev
    using on_peer_tame [OF assms(1) _ that] assms(1)
    by (simp add: udp_tame_def wps udp_get_peer_def)
  show ?thesis
  proof (cases m)
    case (Add_stream a i)
    then show ?thesis using ev [of "User_add_stream i" a] by simp
  next
    case (Del_stream a i)
    then show ?thesis using ev [of "User_del_stream i" a] by simp
  next
    case (Send_data a i data)
    then show ?thesis using ev [of "User_send i data" a] by simp
  qed (use assms in \<open>simp_all add: udp_add_peer_tame udp_del_peer_tame\<close>)
qed

lemma timers_tame:
  assumes "udp_ok pl u"
  shows "udp_tame pl benign (peer_timer pl a) u" "udp_tame pl benign (stream_timer pl a i) u"
  using on_peer_tame [OF assms, of a Handshake_timer] on_peer_tame [OF assms, of a "Stream_timer i"] assms
  by (simp_all add: udp_tame_def peer_timer_def stream_timer_def wps udp_get_peer_def)

lemma late_timers_tame:
  assumes "udp_ok pl u"
  shows "small d \<Longrightarrow> udp_tame pl benign (late_peer_timer pl a d) u"
    and "udp_tame pl benign (late_stream_timer pl a i) u"
  using on_peer_tame [OF assms, of a "Late_timer d"] on_peer_tame [OF assms, of a "Late_stream_timer i"] assms
  by (simp_all add: udp_tame_def late_peer_timer_def late_stream_timer_def wps udp_get_peer_def)

section \<open>The receive loop\<close>

text \<open>
  A part of the layer's state that handling a datagram does not touch: anything unaffected by
  changes of the peers, the socket, the output ring, the random counter and the service's part.
\<close>

locale layer_frame =
  fixes view :: "'x udp_layer \<Rightarrow> 'v"
  assumes view_peers: "view (u\<lparr>u_peers := m\<rparr>) = view u"
    and view_sent: "view (u\<lparr>u_sent := ss\<rparr>) = view u"
    and view_output: "view (u\<lparr>u_output := r\<rparr>) = view u"
    and view_rnd: "view (u\<lparr>u_rnd := n\<rparr>) = view u"
    and view_service: "view (u\<lparr>u_service := s\<rparr>) = view u"
begin

definition same :: "'x udp_layer \<Rightarrow> 'x udp_layer \<Rightarrow> bool" where
  "same u u' \<longleftrightarrow> view u' = view u"

lemma same_order: "reflp same" "transp same"
  by (auto simp: reflp_def transp_def same_def)

lemma same_primitives:
  "moves same (gets g)"
  "(\<And>u. view (f u) = view u) \<Longrightarrow> moves same (modify f)"
  "moves same (on_service m)"
  by (auto simp: moves_def same_def on_service_def view_service act split: prod.splits)

lemmas same_rules = same_primitives moves_refl [OF same_order(1)] moves_trans [OF same_order(2)]

lemma same_del: "moves same (udp_del_peer a)"
  by (auto simp: udp_del_peer_def report_def Let_def view_peers view_output intro!: same_rules)

lemma same_io: "moves same (for_each run_io es)"
proof (induction es)
  case Nil
  then show ?case by (auto intro!: same_rules)
next
  case (Cons e es)
  then show ?case
    by (cases e) (auto simp: run_io_def report_def view_sent view_output intro!: same_rules same_del)
qed

lemma same_io_then:
  "moves same m \<Longrightarrow> view (snd (andthen (for_each run_io es) m u)) = view u"
  "view (snd (seq (for_each run_io es) (\<lambda>_. lift r) u)) = view u"
  using moves_andthen [OF same_order(2) same_io, of m es]
    moves_seq [OF same_order(2) same_io, of "\<lambda>_. lift r" es] moves_lift [OF same_order(1), of r]
  by (auto simp: moves_def same_def)

lemma same_add: "moves same (udp_add_peer pl a)"
  unfolding moves_def
  by (auto simp: same_def udp_add_peer_def same_io_then view_rnd view_peers same_rules
      split: prod.split sum.split)

lemma same_on_peer: "moves same (on_peer pl a f)"
  unfolding moves_def
  by (auto simp: same_def on_peer_def same_io_then view_rnd view_peers split: prod.split option.split)

lemma same_feed: "moves same (feed_peer pl msg a)"
  unfolding feed_peer_def by (auto intro!: same_rules same_add same_on_peer)

lemma same_control: "moves same (control_run pl m)"
  by (cases m) (auto intro!: same_rules same_add same_del same_on_peer)

lemma same_timers: "moves same (peer_timer pl a)" "moves same (stream_timer pl a i)"
  unfolding peer_timer_def stream_timer_def by (auto intro!: same_rules same_on_peer)

lemma same_late_timers: "moves same (late_peer_timer pl a d)" "moves same (late_stream_timer pl a i)"
  unfolding late_peer_timer_def late_stream_timer_def by (auto intro!: same_rules same_on_peer)

end

interpretation receiving: layer_frame u_receiving
  by unfold_locales simp_all

definition wiring :: "'x udp_layer \<Rightarrow> (address \<rightharpoonup> 'x filter_type) \<times> 'x filter_type \<times> configuration" where
  "wiring u = (u_filters u, u_default u, u_conf u)"

interpretation wiring: layer_frame wiring
  by unfold_locales (simp_all add: wiring_def)

lemma receive_continues:
  assumes "u_receiving u"
  shows "u_receiving (snd (datagram_arrives pl msg a u)) \<longleftrightarrow> (\<exists>x. fst (datagram_arrives pl msg a u) = Inr x)"
proof -
  let ?ec = "if length msg > buffer_size then Message_size else No_error"
  let ?f = "case u_filters u a of Some f \<Rightarrow> f | None \<Rightarrow> u_default u"
  let ?m = "seq (on_service (?f (take buffer_size msg) a))
    (\<lambda>b. whenever b (feed_peer pl (take buffer_size msg) a))"
  let ?u = "u\<lparr>u_receiving := False\<rparr>"
  have "moves receiving.same ?m"
    by (auto intro!: receiving.same_rules receiving.same_feed)
  then have off: "\<not> u_receiving (snd (?m ?u))"
    by (auto simp: moves_def receiving.same_def dest: spec [of _ ?u])
  have "datagram_arrives pl msg a u = andthen ?m start_receive ?u"
    using assms unfolding andthen_seq
    by (simp add: datagram_arrives_def handle_receive_def steps split: option.split)
  then show ?thesis
    using off by (auto simp: act start_receive_def split: prod.splits sum.splits)
qed

text \<open>
  The UDP layer goes on receiving after a datagram exactly when handling it did not throw:
  an exception of a filter or a peer leaves no receive operation pending.
\<close>

theorem receives_on_iff_no_exception:
  assumes "u_receiving u"
  shows "u_receiving (snd (datagram_arrives pl msg a u)) \<longleftrightarrow> (\<exists>x. fst (datagram_arrives pl msg a u) = Inr x)"
  by (rule receive_continues [OF assms])

text \<open>
  C18: One datagram shorter than a header, from any address that has no filter, stops the layer for
  good: handling it throws, and no later datagram is received.
\<close>

theorem short_datagram_stops_receiving:
  assumes "udp_ok pl u" and "u_receiving u" and "u_filters u a = None" and "u_default u = (\<lambda>_ _. ret True)"
    and "group_valid (pl_crypto pl)" and "subgroup_order_ok (pl_crypto pl)" and "pl_valid_ip pl (ip_addr a)"
    and "length msg < 13"
  shows "\<exists>u'. datagram_arrives pl msg a u = (Inl Io_error, u')
    \<and> (\<forall>msg' a'. datagram_arrives pl msg' a' u' = (Inr (), u'))"
proof -
  let ?u = "u\<lparr>u_receiving := False\<rparr>"
  have short: "datagram_of_bytes msg = Inl Io_error" using assms(8) by (simp add: datagram_of_bytes_eq)
  have feed: "fst (on_peer pl a (\<lambda>se. peer_feed se msg) v) = Inl Io_error" if "u_peers v a \<noteq> None"
    for v :: "'a udp_layer"
    using that short by (auto simp: on_peer_def peer_feed_def act)
  have new: "peer_new (setting_of pl u) a (u_rnd u) = (Inr (greeted (setting_of pl u) a), u_rnd u,
      [Udp_send (datagram_wire (create_hello (conf_id (u_conf u)))) a])"
    using peer_new_eval [of "setting_of pl u" a "u_rnd u"] assms(1,5-7) by (simp add: udp_ok_def)
  have "fst (feed_peer pl msg a ?u) = Inl Io_error"
  proof (cases "u_peers u a")
    case None
    let ?v = "?u\<lparr>u_sent := u_sent u @ [(datagram_wire (create_hello (conf_id (u_conf u))), a)],
      u_peers := umap_insert a (greeted (setting_of pl u) a) (u_peers u)\<rparr>"
    have "udp_add_peer pl a ?u = (Inr (), ?v)"
      by (simp add: udp_add_peer_def new run_io_def act)
    moreover have "u_peers ?v a \<noteq> None" using None by (simp add: umap.find_insert)
    ultimately show ?thesis using None feed [of ?v] by (simp add: feed_peer_def udp_get_peer_def act)
  next
    case (Some p)
    then show ?thesis using feed [of ?u] by (simp add: feed_peer_def udp_get_peer_def act)
  qed
  then have thrown: "fst (datagram_arrives pl msg a u) = Inl Io_error"
    using assms(2-4,8) by (auto simp: datagram_arrives_def handle_receive_def buffer_size_def
        on_service_def act split: prod.splits sum.splits)
  then have "\<not> u_receiving (snd (datagram_arrives pl msg a u))"
    using receive_continues [OF assms(2)] by fastforce
  then have ignored: "datagram_arrives pl msg' a' (snd (datagram_arrives pl msg a u)) =
      (Inr (), snd (datagram_arrives pl msg a u))" for msg' a'
    by (subst datagram_arrives_def) (simp add: steps whenever_def ret_def)
  show ?thesis
    using thrown by (intro exI [of _ "snd (datagram_arrives pl msg a u)"])
      (auto simp: prod_eq_iff ignored)
qed

section \<open>The table of peers\<close>

text \<open>
  \<^verbatim>\<open>add_peer\<close> on a new address makes the peer found, greeted and at rest; on an address that is
  already there the table stays as it is, yet a hello is sent, which makes the other side drop
  the session the table still holds.
\<close>

theorem add_peer_contract:
  assumes "udp_ok pl u" and "group_valid (pl_crypto pl)" and "subgroup_order_ok (pl_crypto pl)"
    and "pl_valid_ip pl (ip_addr a)"
  shows "\<exists>u'. udp_add_peer pl a u = (Inr (), u')
    \<and> (udp_get_peer a u = None \<longrightarrow> udp_get_peer a u' = Some (greeted (setting_of pl u) a))
    \<and> (udp_get_peer a u \<noteq> None \<longrightarrow> udp_get_peer a u' = udp_get_peer a u)
    \<and> (\<forall>b. b \<noteq> a \<longrightarrow> udp_get_peer b u' = udp_get_peer b u)
    \<and> u_sent u' = u_sent u @ [(datagram_wire (create_hello (conf_id (u_conf u))), a)]"
proof -
  have "peer_new (setting_of pl u) a (u_rnd u) = (Inr (greeted (setting_of pl u) a), u_rnd u,
      [Udp_send (datagram_wire (create_hello (conf_id (u_conf u)))) a])"
    using peer_new_eval [of "setting_of pl u" a "u_rnd u"] assms by (simp add: udp_ok_def)
  then show ?thesis
    by (auto simp: udp_add_peer_def run_io_def act udp_get_peer_def umap.find_insert)
qed

text \<open>
  \<^verbatim>\<open>del_peer\<close> leaves no peer at the address and every other one in place; when there was none
  it reports the error, and in no case does it throw.
\<close>

theorem del_peer_contract:
  "\<exists>u'. udp_del_peer a u = (Inr (), u') \<and> udp_get_peer a u' = None
    \<and> (\<forall>b. b \<noteq> a \<longrightarrow> udp_get_peer b u' = udp_get_peer b u)
    \<and> msg_lst (u_output u') = msg_lst (u_output u)
        @ (if udp_get_peer a u = None then [Error_message (str ''no such peer'' @ [10])] else [])"
  by (auto simp: udp_del_peer_def Let_def act report_def udp_get_peer_def umap.find_erase)

section \<open>Witnesses\<close>

definition sample_platform :: platform where
  "sample_platform = \<lparr>pl_crypto = sample_crypto, pl_valid_ip = (\<lambda>_. True)\<rparr>"

definition sample_layer :: "unit udp_layer" where
  "sample_layer = udp_new (sample_conf [1] [2] [3] [4]) ()"

lemma sample_layer_ok: "udp_ok sample_platform sample_layer"
  using sample_setting_ok [of "[1]" "[2]" "[3]" "[4]"]
  by (simp add: udp_ok_def sample_layer_def udp_new_def setting_of_def sample_platform_def sample_setting_def)

lemma sample_platform_fields [simp]:
  "group_valid (pl_crypto sample_platform)" "subgroup_order_ok (pl_crypto sample_platform)"
  "pl_valid_ip sample_platform ip"
  by (simp_all add: sample_platform_def sample_crypto_def)

lemma sample_layer_fields [simp]:
  "u_receiving sample_layer" "u_filters sample_layer a = None"
  "u_default sample_layer = (\<lambda>_ _. ret True)" "udp_get_peer a sample_layer = None"
  by (simp_all add: sample_layer_def udp_new_def udp_get_peer_def)

lemma receives_on_iff_no_exception_witness:
  "u_receiving (snd (datagram_arrives sample_platform [1, 2] (mk_address [] 1) sample_layer)) \<longleftrightarrow>
   (\<exists>x. fst (datagram_arrives sample_platform [1, 2] (mk_address [] 1) sample_layer) = Inr x)"
  by (rule receives_on_iff_no_exception) simp

lemma short_datagram_stops_receiving_witness:
  "\<exists>u'. datagram_arrives sample_platform [1, 2] (mk_address [] 1) sample_layer = (Inl Io_error, u')
    \<and> (\<forall>msg' a'. datagram_arrives sample_platform msg' a' u' = (Inr (), u'))"
  by (rule short_datagram_stops_receiving [OF sample_layer_ok]) simp_all

lemma add_peer_contract_witness:
  "\<exists>u' p. udp_add_peer sample_platform (mk_address [] 1) sample_layer = (Inr (), u')
    \<and> udp_get_peer (mk_address [] 1) u' = Some p"
  using add_peer_contract [OF sample_layer_ok, of "mk_address [] 1"] by auto

lemma del_peer_contract_witness:
  "\<exists>u'. udp_del_peer (mk_address [] 1) sample_layer = (Inr (), u')
    \<and> msg_lst (u_output u') = [Error_message (str ''no such peer'' @ [10])]"
  using del_peer_contract [of "mk_address [] 1" sample_layer]
  by (auto simp: sample_layer_def udp_new_def udp_get_peer_def ring_new_def)

end
