(* ===== verification/Service.thy ===== *)
theory Service
  imports Udp_Facts
begin

text \<open>
  \<^verbatim>\<open>client/sml/service.h\<close> and \<^verbatim>\<open>service.cpp\<close>: the protocol's external interface. The
  user posts control messages to the input ring and takes reports from the output ring; the
  directory server is asked for peers by a timer and its answers pass a filter of the UDP layer.
\<close>

section \<open>State and operations\<close>

record peer_lists =
  pl_peer_list :: "address list"       \<comment> \<open>\<open>peer_list_\<close>\<close>
  pl_new_peer_list :: "address list"   \<comment> \<open>\<open>new_peer_list_\<close>\<close>

record service =
  sv_udp :: "peer_lists udp_layer"
  sv_input :: "message ring"           \<comment> \<open>\<open>input_ring\<close>\<close>
  sv_timer :: bool
  sv_posted :: nat                     \<comment> \<open>runs of \<open>msg_handler\<close> posted to the io context\<close>

definition server_datagram_filter :: "peer_lists filter_type" where
  "server_datagram_filter msg a =
     seq (lift (address_of_string msg)) (\<lambda>p.
     andthen (modify (\<lambda>s. s\<lparr>pl_new_peer_list := pl_new_peer_list s @ [p]\<rparr>))
       (ret False))"

definition service_new :: "configuration \<Rightarrow> service" where
  "service_new conf =
     \<lparr>sv_udp = snd (register_filter server_datagram_filter (conf_server conf)
        (udp_new conf \<lparr>pl_peer_list = [], pl_new_peer_list = []\<rparr>)),
      sv_input = ring_new, sv_timer = True, sv_posted = 0\<rparr>"

definition query :: "service \<Rightarrow> message option \<times> service" where
  "query s = (case ring_get (u_output (sv_udp s)) of
     (m, r) \<Rightarrow> (m, s\<lparr>sv_udp := (sv_udp s)\<lparr>u_output := r\<rparr>\<rparr>))"

definition post :: "message \<Rightarrow> service \<Rightarrow> service" where
  "post m s = s\<lparr>sv_input := ring_put m (sv_input s), sv_posted := Suc (sv_posted s)\<rparr>"

definition peer_list :: "service \<Rightarrow> address list" where
  "peer_list s = pl_peer_list (u_service (sv_udp s))"

text \<open>The loop takes messages until the ring is empty; an exception ends it.\<close>

function msg_handler :: "platform \<Rightarrow> (service, unit) action" where
  "msg_handler pl s =
     (case ring_get (sv_input s) of
        (None, r) \<Rightarrow> (Inr (), s\<lparr>sv_input := r\<rparr>)
      | (Some m, r) \<Rightarrow>
          (case control_run pl m (sv_udp s) of
             (Inl e, u) \<Rightarrow> (Inl e, s\<lparr>sv_input := r, sv_udp := u\<rparr>)
           | (Inr _, u) \<Rightarrow> msg_handler pl (s\<lparr>sv_input := r, sv_udp := u\<rparr>)))"
  by pat_completeness auto
termination
  by (relation "measure (\<lambda>(pl, s). ring_size (sv_input s))") (auto simp: rq.get_decreases [OF sym])

declare msg_handler.simps [simp del]

definition on_udp :: "(peer_lists, 'a) udp_action \<Rightarrow> (service, 'a) action" where
  "on_udp m = (\<lambda>s. case m (sv_udp s) of (r, u) \<Rightarrow> (r, s\<lparr>sv_udp := u\<rparr>))"

text \<open>
  The timer of the directory: publish the addresses that arrived, arm the timer again, look up
  the own host and announce it to the server. The outcome of the resolver is an argument.
\<close>

definition publish :: "peer_lists \<Rightarrow> peer_lists" where
  "publish s = (if length (pl_new_peer_list s) \<noteq> 0
     then s\<lparr>pl_peer_list := pl_new_peer_list s, pl_new_peer_list := []\<rparr> else s)"

definition query_server :: "platform \<Rightarrow> err + bytes \<Rightarrow> bool \<Rightarrow> (service, unit) action" where
  "query_server pl host failed =
     whenever (\<not> failed)
       (andthen (on_udp (on_service (modify publish)))
       (andthen (modify (\<lambda>s. s\<lparr>sv_timer := True\<rparr>))
       (seq (lift host) (\<lambda>ip.
        seq (gets (\<lambda>s. u_conf (sv_udp s))) (\<lambda>conf.
        on_udp (send_to pl (ip @ [58] @ decimal (unat (conf_port conf))) (conf_server conf)))))))"

text \<open>The timer fires: it is no longer armed when its handler runs.\<close>

definition query_timer_fires :: "platform \<Rightarrow> err + bytes \<Rightarrow> (service, unit) action" where
  "query_timer_fires pl host = seq (gets sv_timer) (\<lambda>armed. whenever armed
     (andthen (modify (\<lambda>s. s\<lparr>sv_timer := False\<rparr>)) (query_server pl host False)))"

text \<open>The io context runs one posted \<^verbatim>\<open>msg_handler\<close>.\<close>

definition run_posted :: "platform \<Rightarrow> (service, unit) action" where
  "run_posted pl = seq (gets sv_posted) (\<lambda>n. whenever (n \<noteq> 0)
     (andthen (modify (\<lambda>s. s\<lparr>sv_posted := n - 1\<rparr>)) (msg_handler pl)))"

section \<open>The message loop\<close>

lemma msg_handler_sequence:
  "fst (msg_handler pl s) = fst (for_each (control_run pl) (msg_lst (sv_input s)) (sv_udp s))
   \<and> sv_udp (snd (msg_handler pl s)) = snd (for_each (control_run pl) (msg_lst (sv_input s)) (sv_udp s))
   \<and> (fst (msg_handler pl s) = Inr () \<longrightarrow> msg_lst (sv_input (snd (msg_handler pl s))) = [])"
proof (induction "msg_lst (sv_input s)" arbitrary: s)
  case Nil
  then show ?case by (subst (1 2 3 4) msg_handler.simps) (simp add: act)
next
  case (Cons m ms)
  obtain r where r: "ring_get (sv_input s) = (Some m, r)" "msg_lst r = ms"
    using rq.get_some [OF Cons.hyps(2) [symmetric]] by blast
  obtain x u where x: "control_run pl m (sv_udp s) = (x, u)" by fastforce
  let ?s = "s\<lparr>sv_input := r, sv_udp := u\<rparr>"
  show ?case
  proof (cases x)
    case (Inl e)
    then have "msg_handler pl s = (Inl e, ?s)" by (simp add: msg_handler.simps r x)
    then show ?thesis using Inl x by (simp flip: Cons.hyps(2) add: act)
  next
    case (Inr y)
    then have "msg_handler pl s = msg_handler pl ?s" by (subst msg_handler.simps) (simp add: r x)
    then show ?thesis using Cons.hyps(1) [of ?s] Inr x r(2) by (simp flip: Cons.hyps(2) add: act)
  qed
qed

text \<open>What a run of the loop takes off the ring is what it runs, the message that throws included.\<close>

lemma msg_handler_takes:
  "msg_handler pl s = (x, s') \<Longrightarrow> \<exists>k. for_each (control_run pl) (take k (msg_lst (sv_input s))) (sv_udp s) = (x, sv_udp s')
    \<and> msg_lst (sv_input s') = drop k (msg_lst (sv_input s)) \<and> sv_posted s' = sv_posted s
    \<and> k \<le> length (msg_lst (sv_input s)) \<and> (x = Inr () \<longrightarrow> msg_lst (sv_input s') = [])"
proof (induction "msg_lst (sv_input s)" arbitrary: s)
  case Nil
  then show ?case by (subst (asm) msg_handler.simps) (auto simp: act)
next
  case (Cons m ms)
  obtain r where r: "ring_get (sv_input s) = (Some m, r)" "msg_lst r = ms"
    using rq.get_some [OF Cons.hyps(2) [symmetric]] by blast
  obtain y u where y: "control_run pl m (sv_udp s) = (y, u)" by fastforce
  let ?s = "s\<lparr>sv_input := r, sv_udp := u\<rparr>"
  show ?case
  proof (cases y)
    case (Inl e)
    then have "msg_handler pl s = (Inl e, ?s)" by (simp add: msg_handler.simps r y)
    then show ?thesis using Cons.prems Inl y r(2)
      by (intro exI [of _ 1]) (auto simp: act simp flip: Cons.hyps(2))
  next
    case (Inr z)
    then have "msg_handler pl ?s = (x, s')" using Cons.prems by (subst (asm) msg_handler.simps) (simp add: r y)
    from Cons.hyps(1) [OF _ this] r(2) obtain k where
      "for_each (control_run pl) (take k ms) u = (x, sv_udp s')" "msg_lst (sv_input s') = drop k ms"
      "sv_posted s' = sv_posted s" "k \<le> length ms" "x = Inr () \<longrightarrow> msg_lst (sv_input s') = []" by auto
    then show ?thesis using Inr y by (intro exI [of _ "Suc k"]) (auto simp: act simp flip: Cons.hyps(2))
  qed
qed

text \<open>
  A message that is no control message, at the head of the input ring, makes \<^verbatim>\<open>msg_handler\<close>
  call through a null pointer.
\<close>

theorem non_control_message_null:
  assumes "\<not> is_control m" and "msg_lst (sv_input s) = m # ms"
  shows "fst (msg_handler pl s) = Inl Null_deref"
proof -
  obtain r where "ring_get (sv_input s) = (Some m, r)"
    using rq.get_some [OF assms(2)] by blast
  moreover have "control_run pl m u = (Inl Null_deref, u)" for u :: "peer_lists udp_layer"
    using assms(1) by (cases m) (simp_all add: act)
  ultimately show ?thesis by (subst msg_handler.simps) simp
qed

lemma non_control_message_null_witness:
  "fst (msg_handler sample_platform (post (Error_message [1]) (service_new (sample_conf [1] [2] [3] [4])))) = Inl Null_deref"
  by (rule non_control_message_null [of "Error_message [1]" _ "[]"])
    (simp_all add: post_def service_new_def ring_new_def)

section \<open>The directory\<close>

text \<open>An answer of the server is recorded and goes to no peer.\<close>

lemma server_answer:
  assumes "u_receiving u" and "u_filters u srv = Some server_datagram_filter"
    and "length (address_to_string p) \<le> 1500"
  shows "datagram_arrives pl (address_to_string p) srv u =
    (Inr (), u\<lparr>u_service := (u_service u)\<lparr>pl_new_peer_list := pl_new_peer_list (u_service u) @ [p]\<rparr>\<rparr>)"
proof -
  have parse: "address_of_string (address_to_string p) = Inr p" by (rule parse_printed_address)
  have "u\<lparr>u_receiving := True\<rparr> = u" using assms(1) by simp
  then show ?thesis
    using assms by (simp add: datagram_arrives_def handle_receive_def buffer_size_def on_service_def
        server_datagram_filter_def start_receive_def parse act)
qed

lemma server_answers:
  assumes "u_receiving u" and "u_filters u srv = Some server_datagram_filter"
    and "\<forall>p \<in> set ps. length (address_to_string p) \<le> 1500"
  shows "for_each (\<lambda>p. datagram_arrives pl (address_to_string p) srv) ps u =
    (Inr (), u\<lparr>u_service := (u_service u)\<lparr>pl_new_peer_list := pl_new_peer_list (u_service u) @ ps\<rparr>\<rparr>)"
  using assms
proof (induction ps arbitrary: u)
  case Nil
  then show ?case by (simp add: act)
next
  case (Cons p ps)
  let ?u = "u\<lparr>u_service := (u_service u)\<lparr>pl_new_peer_list := pl_new_peer_list (u_service u) @ [p]\<rparr>\<rparr>"
  have "datagram_arrives pl (address_to_string p) srv u = (Inr (), ?u)"
    using Cons.prems by (intro server_answer) simp_all
  then show ?case using Cons.IH [of ?u] Cons.prems by (simp add: act)
qed

text \<open>
  The directory round: the addresses the server answers between two queries become the peer
  list, in order and complete, none of them makes a peer of the server, and the query announces
  this host in the form the server parses; without answers the old list stays.
\<close>

lemma directory_round:
  assumes "u_receiving (sv_udp s)" and "u_filters (sv_udp s) srv = Some server_datagram_filter"
    and "conf_server (u_conf (sv_udp s)) = srv" and "pl_new_peer_list (u_service (sv_udp s)) = []"
    and "\<forall>p \<in> set ps. length (address_to_string p) \<le> 1500" and "pl_valid_ip pl (ip_addr srv)"
  shows "\<exists>u s'. for_each (\<lambda>p. datagram_arrives pl (address_to_string p) srv) ps (sv_udp s) = (Inr (), u)
    \<and> u_peers u = u_peers (sv_udp s)
    \<and> query_server pl (Inr ip) False (s\<lparr>sv_udp := u\<rparr>) = (Inr (), s')
    \<and> peer_list s' = (if ps = [] then peer_list s else ps)
    \<and> pl_new_peer_list (u_service (sv_udp s')) = [] \<and> sv_timer s'
    \<and> (\<exists>msg. u_sent (sv_udp s') = u_sent (sv_udp s) @ [(msg, srv)]
         \<and> address_of_string msg = Inr (mk_address ip (conf_port (u_conf (sv_udp s)))))"
proof -
  let ?u = "(sv_udp s)\<lparr>u_service := (u_service (sv_udp s))\<lparr>pl_new_peer_list := ps\<rparr>\<rparr>"
  let ?msg = "ip @ [58] @ decimal (unat (conf_port (u_conf (sv_udp s))))"
  have "for_each (\<lambda>p. datagram_arrives pl (address_to_string p) srv) ps (sv_udp s) = (Inr (), ?u)"
    using server_answers [OF assms(1,2,5)] assms(4) by simp
  moreover have "?msg = address_to_string (mk_address ip (conf_port (u_conf (sv_udp s))))"
    by (simp add: address_to_string_def mk_address_def)
  then have "address_of_string ?msg = Inr (mk_address ip (conf_port (u_conf (sv_udp s))))"
    using parse_printed_address by simp
  ultimately show ?thesis
    using assms(3,4,6)
    by (cases "ps = []")
      (simp_all add: query_server_def on_udp_def on_service_def publish_def send_to_def peer_list_def act)
qed

lemma directory_round_witness:
  "\<exists>u s'. for_each (\<lambda>p. datagram_arrives sample_platform (address_to_string p) (mk_address [] 0))
      [mk_address (str ''1.2.3.4'') 5] (sv_udp (service_new (sample_conf [1] [2] [3] [4]))) = (Inr (), u)
    \<and> query_server sample_platform (Inr (str ''9.9.9.9'')) False
        (service_new (sample_conf [1] [2] [3] [4])\<lparr>sv_udp := u\<rparr>) = (Inr (), s')
    \<and> peer_list s' = [mk_address (str ''1.2.3.4'') 5]"
proof -
  let ?s = "service_new (sample_conf [1] [2] [3] [4])"
  have "u_receiving (sv_udp ?s)" "u_filters (sv_udp ?s) (mk_address [] 0) = Some server_datagram_filter"
    "conf_server (u_conf (sv_udp ?s)) = mk_address [] 0" "pl_new_peer_list (u_service (sv_udp ?s)) = []"
    by (simp_all add: service_new_def register_filter_def udp_new_def act umap_assign_def sample_conf_def
        configuration_new_def)
  moreover have "\<forall>p \<in> set [mk_address (str ''1.2.3.4'') 5]. length (address_to_string p) \<le> 1500"
    by (simp add: address_to_string_def mk_address_def decimal.simps)
  ultimately show ?thesis
    using directory_round [of ?s "mk_address [] 0" "[mk_address (str ''1.2.3.4'') 5]" sample_platform
        "str ''9.9.9.9''"] by auto
qed

section \<open>The life of a service\<close>

datatype service_event =
    Post_message message
  | Query_output
  | Run_posted
  | Query_timer "err + bytes"
  | Arrives bytes address
  | Peer_timer_event address
  | Stream_timer_event address u32
  | Late_peer_timer_event address datagram
  | Late_stream_timer_event address u32

fun service_do :: "platform \<Rightarrow> service_event \<Rightarrow> (service, unit) action" where
  "service_do pl (Post_message m) = modify (post m)"
| "service_do pl Query_output = modify (\<lambda>s. snd (query s))"
| "service_do pl Run_posted = run_posted pl"
| "service_do pl (Query_timer host) = query_timer_fires pl host"
| "service_do pl (Arrives msg a) = on_udp (datagram_arrives pl msg a)"
| "service_do pl (Peer_timer_event a) = on_udp (peer_timer pl a)"
| "service_do pl (Stream_timer_event a i) = on_udp (stream_timer pl a i)"
| "service_do pl (Late_peer_timer_event a d) = on_udp (late_peer_timer pl a d)"
| "service_do pl (Late_stream_timer_event a i) = on_udp (late_stream_timer pl a i)"

text \<open>The user posts and the io context runs what was posted, in any order.\<close>

fun posts_and_runs :: "service_event list \<Rightarrow> bool" where
  "posts_and_runs [] = True"
| "posts_and_runs (Post_message m # es) = posts_and_runs es"
| "posts_and_runs (Run_posted # es) = posts_and_runs es"
| "posts_and_runs (e # es) = False"

fun posted :: "service_event list \<Rightarrow> message list" where
  "posted [] = []"
| "posted (Post_message m # es) = m # posted es"
| "posted (e # es) = posted es"

lemma run_posted_order:
  assumes "posts_and_runs es" and "for_each (service_do pl) es s = (x, s')"
    and "msg_lst (sv_input s) \<noteq> [] \<longrightarrow> sv_posted s \<noteq> 0"
  shows "\<exists>k rest. for_each (control_run pl) (take k (msg_lst (sv_input s) @ posted es)) (sv_udp s) = (x, sv_udp s')
    \<and> drop k (msg_lst (sv_input s) @ posted es) = msg_lst (sv_input s') @ rest \<and> (x = Inr () \<longrightarrow> rest = [] \<and> (msg_lst (sv_input s') \<noteq> [] \<longrightarrow> sv_posted s' \<noteq> 0))"
  using assms
proof (induction es arbitrary: s rule: posts_and_runs.induct)
  case 1
  then show ?case by (intro exI [of _ 0] exI [of _ "[]"]) (auto simp: act)
next
  case (2 m es)
  have "for_each (service_do pl) es (post m s) = (x, s')" using 2 by (simp add: act)
  from 2(1) [OF _ this] 2(2) show ?case by (simp add: post_def append_assoc del: take_append drop_append)
next
  case (3 es)
  let ?L = "msg_lst (sv_input s)"
  show ?case
  proof (cases "sv_posted s")
    case 0
    then have "for_each (service_do pl) es s = (x, s')" using 3(3) by (simp add: act run_posted_def)
    from 3(1) [OF _ this] 3(2,4) show ?thesis by (simp del: take_append drop_append)
  next
    case (Suc n)
    let ?s = "s\<lparr>sv_posted := n\<rparr>"
    obtain y t where y: "msg_handler pl ?s = (y, t)" by fastforce
    obtain k where k: "for_each (control_run pl) (take k ?L) (sv_udp s) = (y, sv_udp t)"
        "msg_lst (sv_input t) = drop k ?L" "k \<le> length ?L" "y = Inr () \<longrightarrow> msg_lst (sv_input t) = []"
      using msg_handler_takes [OF y] by auto
    show ?thesis
    proof (cases y)
      case (Inl e)
      then have "x = Inl e" "s' = t" using 3(3) y Suc by (simp_all add: act run_posted_def)
      then show ?thesis using k Inl by (intro exI [of _ k] exI [of _ "posted es"]) simp
    next
      case (Inr z)
      then have run: "for_each (service_do pl) es t = (x, s')" using 3(3) y Suc by (simp add: act run_posted_def)
      have t: "msg_lst (sv_input t) = []" "k = length ?L" using k Inr by auto
      from 3(1) [OF _ run] 3(2) t(1) obtain j rest where
        "for_each (control_run pl) (take j (posted es)) (sv_udp t) = (x, sv_udp s')"
        "drop j (posted es) = msg_lst (sv_input s') @ rest"
        "x = Inr () \<longrightarrow> rest = [] \<and> (msg_lst (sv_input s') \<noteq> [] \<longrightarrow> sv_posted s' \<noteq> 0)" by auto
      then show ?thesis using k(1) Inr t(2)
        by (intro exI [of _ "k + j"] exI [of _ rest]) (simp add: for_each_append act)
    qed
  qed
qed simp_all

text \<open>
  C19: Whatever way posting messages and running posted \<^verbatim>\<open>msg_handler\<close>s alternate, from an idle service on: what has
  been done to the layer is the run of the first messages posted, in the order they were posted and up to the
  first exception, and as long as nothing was thrown the ring holds exactly the others, in order; when no handler is
  left to run, all of them have been run.
\<close>

theorem msg_handler_runs_in_order:
  assumes "posts_and_runs es" and "for_each (service_do pl) es s = (x, s')"
    and "msg_lst (sv_input s) = []"
  shows "\<exists>k rest. for_each (control_run pl) (take k (posted es)) (sv_udp s) = (x, sv_udp s')
    \<and> drop k (posted es) = msg_lst (sv_input s') @ rest
    \<and> (x = Inr () \<longrightarrow> rest = [] \<and> (sv_posted s' = 0 \<longrightarrow> k \<ge> length (posted es)))"
proof -
  from run_posted_order [OF assms(1,2)] obtain k rest where
    "for_each (control_run pl) (take k (posted es)) (sv_udp s) = (x, sv_udp s')"
    "drop k (posted es) = msg_lst (sv_input s') @ rest"
    "x = Inr () \<longrightarrow> rest = [] \<and> (msg_lst (sv_input s') \<noteq> [] \<longrightarrow> sv_posted s' \<noteq> 0)"
    unfolding assms(3) by auto
  note k = this
  have "k \<ge> length (posted es)" if "x = Inr ()" "sv_posted s' = 0" using k(2,3) that by simp
  with k(3) have "x = Inr () \<longrightarrow> rest = [] \<and> (sv_posted s' = 0 \<longrightarrow> k \<ge> length (posted es))" by simp
  with k(1,2) show ?thesis by (intro exI conjI)
qed

lemma msg_handler_runs_in_order_witness:
  "\<exists>s'. for_each (service_do sample_platform)
      [Post_message (Del_peer (mk_address [] 1)), Post_message (Del_peer (mk_address [] 2)), Run_posted, Run_posted]
      (service_new (sample_conf [1] [2] [3] [4])) = (Inr (), s')
    \<and> for_each (control_run sample_platform) [Del_peer (mk_address [] 1), Del_peer (mk_address [] 2)]
      (sv_udp (service_new (sample_conf [1] [2] [3] [4]))) = (Inr (), sv_udp s') \<and> msg_lst (sv_input s') = []"
proof -
  let ?ms = "[Del_peer (mk_address [] 1), Del_peer (mk_address [] 2)]"
  let ?es = "[Post_message (Del_peer (mk_address [] 1)), Post_message (Del_peer (mk_address [] 2)), Run_posted, Run_posted]"
  let ?s = "service_new (sample_conf [1] [2] [3] [4])"
  obtain x s' where run: "for_each (service_do sample_platform) ?es ?s = (x, s')" by fastforce
  have new: "msg_lst (sv_input ?s) = []" "sv_posted ?s = 0" by (simp_all add: service_new_def ring_new_def)
  from msg_handler_runs_in_order [OF _ run new(1)] obtain k rest where
    k: "for_each (control_run sample_platform) (take k ?ms) (sv_udp ?s) = (x, sv_udp s')"
      "drop k ?ms = msg_lst (sv_input s') @ rest" "x = Inr () \<longrightarrow> rest = [] \<and> (sv_posted s' = 0 \<longrightarrow> k \<ge> length ?ms)"
    by (auto simp del: for_each.simps)
  have "fst (control_run sample_platform m u) = Inr ()" if "m \<in> set ?ms" for m and u :: "peer_lists udp_layer"
    using that by (auto simp: udp_del_peer_def Let_def act report_def)
  then have "fst (for_each (control_run sample_platform) (take n ?ms) u) = Inr ()" for n and u :: "peer_lists udp_layer"
    by (intro for_each_fine) (meson in_set_takeD)
  from this [of k "sv_udp ?s"] have x: "x = Inr ()" by (simp add: k(1))
  then have "sv_posted s' = 0"
    using run new by (auto simp: act run_posted_def post_def dest!: msg_handler_takes split: prod.splits sum.splits)
  then have "take k ?ms = ?ms" "msg_lst (sv_input s') = []" using k(2,3) x by simp_all
  then show ?thesis using run k(1) x by (simp del: for_each.simps)
qed

text \<open>The user posts control messages only, and the resolver fails with its own exception.\<close>

fun proper :: "service_event \<Rightarrow> bool" where
  "proper (Post_message m) = is_control m"
| "proper (Query_timer (Inl e)) = (e = Std_runtime_error)"
| "proper (Late_peer_timer_event a d) = small d"
| "proper _ = True"

inductive service_life :: "platform \<Rightarrow> configuration \<Rightarrow> service \<Rightarrow> bool" for pl conf where
  Begin: "service_life pl conf (service_new conf)"
| Happens: "service_life pl conf s \<Longrightarrow> proper ev \<Longrightarrow> service_do pl ev s = (r, s') \<Longrightarrow> service_life pl conf s'"

definition expected :: "err \<Rightarrow> bool" where
  "expected e \<longleftrightarrow> benign e \<or> e \<in> {Std_invalid_argument, Std_out_of_range}"

definition service_ok :: "platform \<Rightarrow> configuration \<Rightarrow> service \<Rightarrow> bool" where
  "service_ok pl conf s \<longleftrightarrow> udp_ok pl (sv_udp s) \<and> (\<forall>m \<in> set (msg_lst (sv_input s)). is_control m)
     \<and> wiring (sv_udp s) = wiring (sv_udp (service_new conf))"

definition service_tame :: "platform \<Rightarrow> configuration \<Rightarrow> (service, 'a) action \<Rightarrow> service \<Rightarrow> bool" where
  "service_tame pl conf m s \<longleftrightarrow>
     wp m (\<lambda>_. service_ok pl conf) (\<lambda>e s'. service_ok pl conf s' \<and> expected e) s"

lemma stoul_error: "stoul s = Inl e \<Longrightarrow> e \<in> {Std_invalid_argument, Std_out_of_range}"
  by (auto simp: stoul_def Let_def split: if_splits)

lemma server_filter_throws:
  "wp (server_datagram_filter msg a) (\<lambda>_ _. True) (\<lambda>e _. e \<in> {Std_invalid_argument, Std_out_of_range}) s"
  by (auto simp: server_datagram_filter_def address_of_string_def Let_def wps dest: stoul_error split: sum.splits)

lemma service_filters:
  "wiring u = wiring (sv_udp (service_new conf)) \<Longrightarrow>
   filters_throw (\<lambda>e. e \<in> {Std_invalid_argument, Std_out_of_range}) u"
  using server_filter_throws
  by (auto simp: wiring_def service_new_def register_filter_def udp_new_def filters_throw_def act
      umap_assign_def wps split: if_splits)

text \<open>An operation of the layer, run by the service.\<close>

lemma on_udp_tame:
  assumes "service_ok pl conf s" and "udp_tame pl expected m (sv_udp s)" and "moves wiring.same m"
  shows "service_tame pl conf (on_udp m) s"
proof -
  obtain r u where run: "m (sv_udp s) = (r, u)" by fastforce
  have "wiring u = wiring (sv_udp s)"
    using assms(3) run by (auto simp: moves_def wiring.same_def dest: spec [of _ "sv_udp s"])
  then show ?thesis
    using assms(1,2) run
    by (auto simp: service_tame_def service_ok_def udp_tame_def wp_def on_udp_def split: sum.splits)
qed

lemma wiring_receive: "moves wiring.same (datagram_arrives pl msg a)"
  unfolding datagram_arrives_def handle_receive_def start_receive_def
  by (auto simp: wiring_def intro!: wiring.same_rules wiring.same_feed)

lemma benign_expected: "udp_tame pl benign m u \<Longrightarrow> udp_tame pl expected m u"
  by (erule udp_tame_mono) (simp add: expected_def)

lemma msg_handler_tame: "service_ok pl conf s \<Longrightarrow> service_tame pl conf (msg_handler pl) s"
proof (induction "msg_lst (sv_input s)" arbitrary: s)
  case Nil
  then show ?case by (simp add: service_tame_def wp_def msg_handler.simps)
next
  case (Cons m ms)
  obtain r where r: "ring_get (sv_input s) = (Some m, r)" "msg_lst r = ms"
    using rq.get_some [OF Cons.hyps(2) [symmetric]] by blast
  let ?s = "s\<lparr>sv_input := r\<rparr>"
  have ok: "service_ok pl conf ?s" and ctl: "is_control m"
    using Cons.prems r(2) Cons.hyps(2) [symmetric] by (simp_all add: service_ok_def)
  have "udp_tame pl benign (control_run pl m) (sv_udp ?s)"
    by (rule control_run_tame) (use ok ctl in \<open>simp_all add: service_ok_def\<close>)
  then have one: "service_tame pl conf (on_udp (control_run pl m)) ?s"
    by (intro on_udp_tame [OF ok] benign_expected wiring.same_control)
  obtain x u where x: "control_run pl m (sv_udp s) = (x, u)" by fastforce
  show ?case
  proof (cases x)
    case (Inl e)
    then show ?thesis
      using one x r by (simp add: service_tame_def wp_def on_udp_def msg_handler.simps [of pl s])
  next
    case (Inr y)
    then have "service_ok pl conf (?s\<lparr>sv_udp := u\<rparr>)"
      using one x by (simp add: service_tame_def wp_def on_udp_def)
    then have "service_tame pl conf (msg_handler pl) (?s\<lparr>sv_udp := u\<rparr>)"
      using Cons.hyps(1) r(2) by simp
    then show ?thesis
      using Inr x r by (simp add: service_tame_def wp_def msg_handler.simps [of pl s])
  qed
qed

lemma query_server_tame:
  assumes "service_ok pl conf s" and "\<And>e. host = Inl e \<Longrightarrow> e = Std_runtime_error"
  shows "service_tame pl conf (query_server pl host failed) s"
  using assms
  by (cases host)
    (auto simp: service_tame_def query_server_def on_udp_def on_service_def send_to_def wp_def act
      service_ok_def wiring_def expected_def benign_def split: prod.splits)

lemma service_do_tame:
  assumes "service_ok pl conf s" and "proper ev"
  shows "service_tame pl conf (service_do pl ev) s"
proof (cases ev)
  case (Post_message m)
  then show ?thesis
    using assms by (auto simp: service_tame_def wps post_def service_ok_def)
next
  case Query_output
  then show ?thesis
    using assms by (auto simp: service_tame_def wps query_def service_ok_def wiring_def split: prod.splits)
next
  case Run_posted
  have "service_ok pl conf (s\<lparr>sv_posted := n\<rparr>)" for n using assms(1) by (simp add: service_ok_def)
  then show ?thesis
    using Run_posted assms(1) msg_handler_tame by (simp add: service_tame_def run_posted_def wps)
next
  case (Query_timer host)
  have "service_ok pl conf (s\<lparr>sv_timer := b\<rparr>)" for b using assms(1) by (simp add: service_ok_def)
  then show ?thesis
    using Query_timer assms query_server_tame [of pl conf "s\<lparr>sv_timer := False\<rparr>" host False]
    by (cases host) (auto simp: service_tame_def query_timer_fires_def wps)
next
  case (Arrives msg a)
  have u: "udp_ok pl (sv_udp s)" "wiring (sv_udp s) = wiring (sv_udp (service_new conf))"
    using assms(1) by (simp_all add: service_ok_def)
  have "udp_tame pl expected (datagram_arrives pl msg a) (sv_udp s)"
    using datagram_arrives_tame [OF u(1) service_filters [OF u(2)]]
    by (rule udp_tame_mono) (auto simp: expected_def)
  then show ?thesis using Arrives assms(1) by (simp add: on_udp_tame wiring_receive)
next
  case (Peer_timer_event a)
  have "udp_tame pl expected (peer_timer pl a) (sv_udp s)"
    using assms(1) by (intro benign_expected timers_tame) (simp add: service_ok_def)
  then show ?thesis using Peer_timer_event assms(1) by (simp add: on_udp_tame wiring.same_timers)
next
  case (Stream_timer_event a i)
  have "udp_tame pl expected (stream_timer pl a i) (sv_udp s)"
    using assms(1) by (intro benign_expected timers_tame) (simp add: service_ok_def)
  then show ?thesis using Stream_timer_event assms(1) by (simp add: on_udp_tame wiring.same_timers)
next
  case (Late_peer_timer_event a d)
  then have "udp_tame pl expected (late_peer_timer pl a d) (sv_udp s)"
    using assms by (intro benign_expected late_timers_tame) (simp_all add: service_ok_def)
  then show ?thesis using Late_peer_timer_event assms(1) by (simp add: on_udp_tame wiring.same_late_timers)
next
  case (Late_stream_timer_event a i)
  have "udp_tame pl expected (late_stream_timer pl a i) (sv_udp s)"
    using assms(1) by (intro benign_expected late_timers_tame) (simp add: service_ok_def)
  then show ?thesis using Late_stream_timer_event assms(1) by (simp add: on_udp_tame wiring.same_late_timers)
qed

lemma service_life_ok:
  assumes "setting_ok \<lparr>se_crypto = pl_crypto pl, se_conf = conf, se_valid_ip = pl_valid_ip pl\<rparr>"
    and "service_life pl conf s"
  shows "service_ok pl conf s"
  using assms(2)
proof (induction rule: service_life.induct)
  case Begin
  then show ?case
    using assms(1) by (simp add: service_ok_def udp_ok_def service_new_def register_filter_def udp_new_def
        act setting_of_def ring_new_def)
next
  case (Happens s ev r s')
  then show ?case
    using service_do_tame [of pl conf s ev] by (auto simp: service_tame_def wp_def split: sum.splits)
qed

text \<open>
  C5: Whatever the network, the timers and the user do, as long as the user posts control messages
  only: every peer in the table keeps its invariant and is filed under its own address, and the
  only exceptions that leave an event are those of a malformed datagram, a failed key agreement
  or lookup, and an answer of the directory that is no address.
\<close>

theorem service_life_safe:
  assumes "setting_ok \<lparr>se_crypto = pl_crypto pl, se_conf = conf, se_valid_ip = pl_valid_ip pl\<rparr>"
    and "service_life pl conf s" and "proper ev"
  shows "(\<forall>a p. udp_get_peer a (sv_udp s) = Some p \<longrightarrow> p_addr p = a \<and> peer_ok (setting_of pl (sv_udp s)) p)
    \<and> (\<forall>e s'. service_do pl ev s = (Inl e, s') \<longrightarrow>
         e \<in> {Io_error, Invalid_data_error, Std_runtime_error, Std_invalid_argument, Std_out_of_range})"
proof -
  have ok: "service_ok pl conf s" by (rule service_life_ok [OF assms(1,2)])
  have "expected e" if "service_do pl ev s = (Inl e, s')" for e s'
    using service_do_tame [OF ok assms(3)] that by (simp add: service_tame_def wp_def)
  then show ?thesis
    using ok by (fastforce simp: service_ok_def udp_ok_def udp_get_peer_def expected_def benign_def)
qed

lemma service_life_safe_witness:
  "\<exists>s. service_life sample_platform (sample_conf [1] [2] [3] [4]) s
    \<and> (\<exists>s' e. service_do sample_platform (Arrives [] (mk_address [] 0)) s = (Inl e, s')
        \<and> e \<in> {Io_error, Invalid_data_error, Std_runtime_error, Std_invalid_argument, Std_out_of_range})"
proof -
  let ?conf = "sample_conf [1] [2] [3] [4]"
  have ok: "setting_ok \<lparr>se_crypto = pl_crypto sample_platform, se_conf = ?conf,
      se_valid_ip = pl_valid_ip sample_platform\<rparr>"
    using sample_setting_ok [of "[1]" "[2]" "[3]" "[4]"]
    by (simp add: sample_platform_def sample_setting_def)
  have "address_of_string [] = Inl Std_invalid_argument"
    by (simp add: address_of_string_def rfind_def stoul_def)
  then have "\<exists>s'. service_do sample_platform (Arrives [] (mk_address [] 0)) (service_new ?conf) = (Inl Std_invalid_argument, s')"
    by (simp add: on_udp_def datagram_arrives_def handle_receive_def service_new_def register_filter_def
        udp_new_def sample_conf_def configuration_new_def umap_assign_def server_datagram_filter_def
        on_service_def act split: prod.splits)
  then show ?thesis
    using service_life.Begin service_life_safe [OF ok service_life.Begin, of "Arrives [] (mk_address [] 0)"] by force
qed

end
