(* ===== verification/Service_Link.thy ===== *)
theory Service_Link
  imports Secure_Link Peer_Identity Service
begin

text \<open>
  Two services and the network between them. Each service has its table of peers, its rings and
  its directory, serves whoever sends it datagrams and does what its user posts. A session
  between the two is not disturbed by any of that: as the two peers see it, this is the channel
  of \<open>Secure_Link\<close>.
\<close>

section \<open>The layer seen from one address\<close>

definition sent_to :: "address \<Rightarrow> (bytes \<times> address) list \<Rightarrow> bytes list" where
  "sent_to b ss = map fst (filter (\<lambda>e. snd e = b) ss)"

lemma sent_to_append [simp]: "sent_to b (ss @ ts) = sent_to b ss @ sent_to b ts"
  by (simp add: sent_to_def)

lemma sent_to_simps [simp]:
  "sent_to b [] = []" "sent_to b ((w, a) # ss) = (if a = b then w # sent_to b ss else sent_to b ss)"
  by (simp_all add: sent_to_def)

text \<open>The peer at \<open>b\<close>, what was sent to \<open>b\<close> and what was received from \<open>b\<close> are as before.\<close>

definition beside :: "address \<Rightarrow> 'x udp_layer \<Rightarrow> 'x udp_layer \<Rightarrow> bool" where
  "beside b u u' \<longleftrightarrow> u_peers u' b = u_peers u b \<and> sent_to b (u_sent u') = sent_to b (u_sent u)
     \<and> (\<forall>i. heard b i (msg_lst (u_output u')) = heard b i (msg_lst (u_output u)))"

lemma beside_refl: "reflp (beside b)"
  by (simp add: reflp_def beside_def)

lemma beside_trans: "transp (beside b)"
  by (simp add: transp_def beside_def)

lemmas beside_rules = moves_refl [OF beside_refl] moves_trans [OF beside_trans] moves_gets [OF beside_refl]

lemma heard_other: "io_of a (Output m) \<Longrightarrow> a \<noteq> b \<Longrightarrow> heard b i [m] = []"
  by (cases m) auto

lemma beside_del:
  assumes "a \<noteq> b"
  shows "moves (beside b) (udp_del_peer a)"
  using assms umap.find_erase [OF TrueI, where k = a and k' = b]
  by (auto simp: moves_def beside_def udp_del_peer_def report_def Let_def act)

lemma beside_io:
  assumes "a \<noteq> b" and "\<forall>e \<in> set es. io_of a e"
  shows "moves (beside b) (for_each run_io es)"
  using assms(2)
proof (induction es)
  case Nil
  then show ?case by (auto intro!: beside_rules)
next
  case (Cons e es)
  have "moves (beside b) (run_io e)"
  proof (cases e)
    case (Udp_send w c)
    then show ?thesis using Cons.prems assms(1) by (auto simp: moves_def run_io_def act beside_def)
  next
    case (Output m)
    then show ?thesis
      using Cons.prems heard_other [OF _ assms(1), of m]
      by (auto simp: moves_def run_io_def report_def act beside_def)
  next
    case (Delete_peer c)
    then show ?thesis using Cons.prems beside_del [OF assms(1)] by (simp add: run_io_def)
  qed
  then show ?case using Cons by (auto intro!: beside_rules)
qed

lemma beside_then:
  assumes "beside b u (snd (m u))" and "\<And>r u'. m u = (Inr r, u') \<Longrightarrow> beside b u' (snd (k r u'))"
  shows "beside b u (snd (seq m k u))"
proof (cases "m u")
  case (Pair r u')
  then show ?thesis
    using assms transpD [OF beside_trans, of b u u'] by (cases r) (simp_all add: act)
qed

lemma beside_update [simp]:
  "beside b u (u'\<lparr>u_rnd := n\<rparr>) = beside b u u'"
  "beside b u (u'\<lparr>u_service := s\<rparr>) = beside b u u'"
  "beside b u (u'\<lparr>u_receiving := r\<rparr>) = beside b u u'"
  "beside b (u\<lparr>u_rnd := n\<rparr>) u' = beside b u u'"
  "beside b (u\<lparr>u_receiving := r\<rparr>) u' = beside b u u'"
  "beside b (u\<lparr>u_service := s\<rparr>) u' = beside b u u'"
  by (simp_all add: beside_def)

lemma beside_add:
  assumes "a \<noteq> b"
  shows "beside b u (snd (udp_add_peer pl a u))"
proof -
  obtain r n out where new: "peer_new (setting_of pl u) a (u_rnd u) = (r, n, out)" by (metis prod.exhaust)
  have io: "moves (beside b) (for_each run_io out)"
    by (rule beside_io [OF assms speaks_new [OF new]])
  have "moves (beside b) (modify (\<lambda>u. u\<lparr>u_peers := umap_insert a p (u_peers u)\<rparr>))" for p
    using assms by (intro moves_modify) (simp add: beside_def umap.find_insert)
  then have "moves (beside b) (andthen (for_each run_io out) (modify (\<lambda>u. u\<lparr>u_peers := umap_insert a p (u_peers u)\<rparr>)))"
      "moves (beside b) (andthen (for_each run_io out) (throw e) :: ('a, unit) udp_action)" for p e
    using io by (auto intro!: beside_rules)
  then have "beside b (u\<lparr>u_rnd := n\<rparr>) (snd (andthen (for_each run_io out)
        (modify (\<lambda>u. u\<lparr>u_peers := umap_insert a p (u_peers u)\<rparr>)) (u\<lparr>u_rnd := n\<rparr>)))"
      "beside b (u\<lparr>u_rnd := n\<rparr>) (snd ((andthen (for_each run_io out) (throw e) :: ('a, unit) udp_action) (u\<lparr>u_rnd := n\<rparr>)))" for p e
    unfolding moves_def by blast+
  then show ?thesis by (auto simp: udp_add_peer_def new split: sum.splits)
qed

lemma beside_on_peer:
  assumes "udp_ok pl u" and "a \<noteq> b"
  shows "beside b u (snd (on_peer pl a (\<lambda>se. peer_do se ev) u))"
proof (cases "u_peers u a")
  case None
  then show ?thesis by (simp add: on_peer_def reflpD [OF beside_refl])
next
  case (Some p)
  let ?x = "\<lparr>pc_peer = p, pc_rnd = u_rnd u, pc_io = []\<rparr>"
  obtain r x where run: "peer_do (setting_of pl u) ev ?x = (r, x)" by fastforce
  have "speaks ?x x" using speaks_do [of "setting_of pl u" ev] run by (auto simp: moves_def dest: spec [of _ ?x])
  then have "\<forall>e \<in> set (pc_io x). io_of a e" using assms(1) Some by (simp add: speaks_def udp_ok_def)
  then have "moves (beside b) (seq (for_each run_io (pc_io x)) (\<lambda>_. lift r))"
    using beside_io [OF assms(2)] by (auto intro!: beside_rules)
  then have "beside b (u\<lparr>u_peers := umap_assign a (pc_peer x) (u_peers u), u_rnd := pc_rnd x\<rparr>)
      (snd (seq (for_each run_io (pc_io x)) (\<lambda>_. lift r) (u\<lparr>u_peers := umap_assign a (pc_peer x) (u_peers u), u_rnd := pc_rnd x\<rparr>)))"
    unfolding moves_def by blast
  moreover have "beside b u (u\<lparr>u_peers := umap_assign a (pc_peer x) (u_peers u), u_rnd := pc_rnd x\<rparr>)"
    using assms(2) by (simp add: beside_def umap.find_assign)
  ultimately show ?thesis
    using transpD [OF beside_trans] Some run by (auto simp: on_peer_def)
qed

lemma beside_found:
  assumes "udp_ok pl u" and "a \<noteq> b"
  shows "beside b u (snd (seq (gets (udp_get_peer a)) (\<lambda>p. whenever (p \<noteq> None) (on_peer pl a (\<lambda>se. peer_do se ev))) u))"
  using beside_on_peer [OF assms] by (simp add: act reflpD [OF beside_refl])

lemma beside_feed:
  assumes "udp_ok pl u" and "a \<noteq> b"
  shows "beside b u (snd (feed_peer pl msg a u))"
proof -
  have feed: "beside b v (snd (on_peer pl a (\<lambda>se. peer_feed se msg) v))" if "udp_ok pl v" for v :: "'a udp_layer"
    using beside_on_peer [OF that assms(2), of "Datagram_in msg"] by simp
  have "beside b u (snd (whenever (udp_get_peer a u = None) (udp_add_peer pl a) u))"
    by (simp add: act reflpD [OF beside_refl] beside_add [OF assms(2)])
  moreover have "udp_ok pl u'" if "whenever (udp_get_peer a u = None) (udp_add_peer pl a) u = (Inr r, u')" for r u'
    using that udp_add_peer_tame [OF assms(1), of a] assms(1)
    by (auto simp: udp_tame_def wp_def act split: if_splits)
  ultimately have "beside b u (snd (andthen (whenever (udp_get_peer a u = None) (udp_add_peer pl a))
      (on_peer pl a (\<lambda>se. peer_feed se msg)) u))"
    unfolding andthen_def using feed by (intro beside_then) auto
  then show ?thesis by (simp add: feed_peer_def steps)
qed

lemma beside_arrives:
  assumes "udp_ok pl u" and "a \<noteq> b"
  shows "beside b u (snd (datagram_arrives pl msg a u))"
proof -
  let ?w = "take buffer_size msg"
  have rest: "beside b v (snd (andthen (whenever t (feed_peer pl ?w a)) start_receive v))"
    if "udp_ok pl v" for v :: "'a udp_layer" and t
    unfolding andthen_def
  proof (rule beside_then)
    show "beside b v (snd (whenever t (feed_peer pl ?w a) v))"
      using beside_feed [OF that assms(2)] by (simp add: act reflpD [OF beside_refl])
  qed (simp add: start_receive_def act reflpD [OF beside_refl])
  have "beside b v (snd (seq (on_service (f ?w a)) (\<lambda>t. andthen (whenever t (feed_peer pl ?w a)) start_receive) v))"
    if "udp_ok pl v" for v :: "'a udp_layer" and f
    using that
    by (intro beside_then rest) (auto simp: on_service_def reflpD [OF beside_refl] split: prod.splits)
  then have "beside b u (snd (seq (on_service (f ?w a)) (\<lambda>t. andthen (whenever t (feed_peer pl ?w a)) start_receive)
      (u\<lparr>u_receiving := False\<rparr>)))" for f
    using assms(1) by (metis beside_update(5) udp_ok_update(5))
  then show ?thesis
    by (simp add: datagram_arrives_def handle_receive_def act reflpD [OF beside_refl] steps(1,3)
        del: seq_apply)
qed

section \<open>The session's peer in its service\<close>

text \<open>The layer holds the peer at \<open>b\<close> in the state \<open>x\<close>; the counter of random draws is the layer's.\<close>

definition hosted :: "address \<Rightarrow> 'x udp_layer \<Rightarrow> pctx \<Rightarrow> bool" where
  "hosted b u x \<longleftrightarrow> u_peers u b = Some (pc_peer x) \<and> u_rnd u = pc_rnd x"

text \<open>What the layer sent to \<open>b\<close>, and what it reports as received from \<open>b\<close>, grew by \<open>ws\<close> and \<open>ms\<close>.\<close>

definition gains :: "address \<Rightarrow> 'x udp_layer \<Rightarrow> bytes list \<Rightarrow> message list \<Rightarrow> 'x udp_layer \<Rightarrow> bool" where
  "gains b u ws ms u' \<longleftrightarrow> sent_to b (u_sent u') = sent_to b (u_sent u) @ ws
     \<and> (\<forall>i. heard b i (msg_lst (u_output u')) = heard b i (msg_lst (u_output u)) @ heard b i ms)"

lemma gains_trans: "gains b u ws ms v \<Longrightarrow> gains b v ws' ms' w \<Longrightarrow> gains b u (ws @ ws') (ms @ ms') w"
  by (simp add: gains_def)

lemma run_io_plain:
  "\<forall>e \<in> set es. plain_io b e \<Longrightarrow> for_each run_io es u =
     (Inr (), u\<lparr>u_sent := u_sent u @ map (\<lambda>w. (w, b)) (to_network es),
        u_output := fold ring_put (to_user es) (u_output u)\<rparr>)"
proof (induction es arbitrary: u)
  case Nil
  then show ?case by (simp add: act)
next
  case (Cons e es)
  then show ?case by (cases e) (simp_all add: run_io_def report_def act)
qed

lemma sent_to_own [simp]: "sent_to b (map (\<lambda>w. (w, b)) ws) = ws"
  by (induction ws) simp_all

lemma msg_lst_fold [simp]: "msg_lst (fold ring_put ms r) = msg_lst r @ ms"
  by (induction ms arbitrary: r) simp_all

lemma on_peer_acts:
  assumes "hosted b u x" and run: "always (peer_do (setting_of pl u) ev) P (x\<lparr>pc_io := []\<rparr>)"
    and plain: "\<And>y. P y \<Longrightarrow> \<forall>e \<in> set (pc_io y). plain_io b e"
  shows "\<exists>u'. on_peer pl b (\<lambda>se. peer_do se ev) u = (Inr (), u')
    \<and> hosted b u' (acts (setting_of pl u) ev x) \<and> setting_of pl u' = setting_of pl u
    \<and> u_receiving u' = u_receiving u
    \<and> gains b u (to_network (pc_io (acts (setting_of pl u) ev x))) (to_user (pc_io (acts (setting_of pl u) ev x))) u'"
proof -
  let ?y = "acts (setting_of pl u) ev x"
  have start: "\<lparr>pc_peer = pc_peer x, pc_rnd = pc_rnd x, pc_io = []\<rparr> = x\<lparr>pc_io := []\<rparr>"
    by (cases x) simp
  have y: "peer_do (setting_of pl u) ev (x\<lparr>pc_io := []\<rparr>) = (Inr (), ?y)"
    using run by (auto simp: wp_def acts_def split: prod.splits sum.splits)
  have "\<forall>e \<in> set (pc_io ?y). plain_io b e"
    using always_acts [OF run] by (rule plain)
  note io = run_io_plain [OF this]
  show ?thesis
    using assms(1) by (simp add: on_peer_def hosted_def start y act io gains_def umap.find_assign)
qed

text \<open>What the rest of its service makes of a peer in session: other streams are used, blocks are drawn.\<close>

inductive busy :: "setting \<Rightarrow> u32 \<Rightarrow> pctx \<Rightarrow> bytes list \<Rightarrow> message list \<Rightarrow> pctx \<Rightarrow> bool" for se i x where
  Idle: "busy se i x [] [] x"
| Draw: "busy se i x ws ms y \<Longrightarrow> busy se i x ws ms (y\<lparr>pc_rnd := n\<rparr>)"
| Act: "busy se i x ws ms y \<Longrightarrow> foreign i ev \<Longrightarrow>
    busy se i x (ws @ to_network (pc_io (acts se ev y))) (ms @ to_user (pc_io (acts se ev y))) (acts se ev y)"

lemma busy_trans: "busy se i y ws' ms' z \<Longrightarrow> busy se i x ws ms y \<Longrightarrow> busy se i x (ws @ ws') (ms @ ms') z"
proof (induction rule: busy.induct)
  case Idle
  then show ?case by simp
next
  case (Draw ws' ms' y n)
  then show ?case using busy.Draw by blast
next
  case (Act ws' ms' y ev)
  then show ?case using busy.Act [OF Act.IH Act.hyps(2)] by simp
qed

lemma apart_session:
  assumes "apart se b k i x y"
  shows "in_session se b k y" "pc_io x = [] \<Longrightarrow> \<forall>e \<in> set (pc_io y). plain_io b e"
  using assms by (auto simp: apart_def performs_def)

lemma foreign_session:
  assumes "cfb_ok (se_crypto se)" and "in_session se b k x" and "foreign i ev"
  shows "always (peer_do se ev) (apart se b k i (x\<lparr>pc_io := []\<rparr>)) (x\<lparr>pc_io := []\<rparr>)"
    "in_session se b k (acts se ev x)"
proof -
  show run: "always (peer_do se ev) (apart se b k i (x\<lparr>pc_io := []\<rparr>)) (x\<lparr>pc_io := []\<rparr>)"
    using session_foreign [OF assms(1) _ assms(3)] assms(2) by simp
  show "in_session se b k (acts se ev x)"
    by (rule apart_session(1) [OF always_acts [OF run]])
qed

lemma busy_session:
  assumes "cfb_ok (se_crypto se)" and "in_session se b k x"
  shows "busy se i x ws ms y \<Longrightarrow> in_session se b k y"
proof (induction rule: busy.induct)
  case (Draw ws ms y n)
  then show ?case by (simp add: in_session_def)
qed (simp_all add: assms foreign_session(2))

text \<open>A step of the layer that concerns the session's peer only in this way.\<close>

definition keeps :: "platform \<Rightarrow> address \<Rightarrow> bytes \<Rightarrow> u32 \<Rightarrow> 'x udp_layer \<Rightarrow> 'x udp_layer \<Rightarrow> bool" where
  "keeps pl b k i u u' \<longleftrightarrow> (\<forall>x. hosted b u x \<and> in_session (setting_of pl u) b k x \<longrightarrow>
     (\<exists>y ws ms. busy (setting_of pl u) i x ws ms y \<and> hosted b u' y \<and> gains b u ws ms u'))"

lemma keeps_trans:
  assumes "keeps pl b k i u v" and "keeps pl b k i v w" and "setting_of pl v = setting_of pl u"
    and "cfb_ok (pl_crypto pl)"
  shows "keeps pl b k i u w"
  unfolding keeps_def
proof (intro allI impI)
  fix x
  assume x: "hosted b u x \<and> in_session (setting_of pl u) b k x"
  then obtain y ws ms where y: "busy (setting_of pl u) i x ws ms y" "hosted b v y" "gains b u ws ms v"
    using assms(1) unfolding keeps_def by blast
  have "in_session (setting_of pl v) b k y"
    using busy_session [OF _ _ y(1)] x assms(3,4) by simp
  then obtain z ws' ms' where "busy (setting_of pl v) i y ws' ms' z" "hosted b w z" "gains b v ws' ms' w"
    using assms(2) y(2) unfolding keeps_def by blast
  then show "\<exists>z ws ms. busy (setting_of pl u) i x ws ms z \<and> hosted b w z \<and> gains b u ws ms w"
    using busy_trans y gains_trans assms(3) by metis
qed

lemma beside_keeps:
  assumes "beside b u u'"
  shows "keeps pl b k i u u'"
  unfolding keeps_def
proof (intro allI impI)
  fix x
  assume "hosted b u x \<and> in_session (setting_of pl u) b k x"
  then have "hosted b u' (x\<lparr>pc_rnd := u_rnd u'\<rparr>)" using assms by (simp add: hosted_def beside_def)
  moreover have "busy (setting_of pl u) i x [] [] (x\<lparr>pc_rnd := u_rnd u'\<rparr>)"
    by (intro busy.Draw busy.Idle)
  moreover have "gains b u [] [] u'" using assms by (simp add: gains_def beside_def)
  ultimately show "\<exists>y ws ms. busy (setting_of pl u) i x ws ms y \<and> hosted b u' y \<and> gains b u ws ms u'"
    by blast
qed

lemma keeps_foreign:
  assumes "cfb_ok (pl_crypto pl)" and "foreign i ev"
  shows "keeps pl b k i u (snd (seq (gets (udp_get_peer b)) (\<lambda>p. whenever (p \<noteq> None)
    (on_peer pl b (\<lambda>se. peer_do se ev))) u))"
  unfolding keeps_def
proof (intro allI impI)
  fix x
  assume x: "hosted b u x \<and> in_session (setting_of pl u) b k x"
  let ?se = "setting_of pl u"
  let ?y = "acts ?se ev x"
  have run: "always (peer_do ?se ev) (apart ?se b k i (x\<lparr>pc_io := []\<rparr>)) (x\<lparr>pc_io := []\<rparr>)"
    by (rule foreign_session(1)) (use assms x in simp_all)
  obtain u' where u': "on_peer pl b (\<lambda>se. peer_do se ev) u = (Inr (), u')" "hosted b u' ?y"
      "gains b u (to_network (pc_io ?y)) (to_user (pc_io ?y)) u'"
    using on_peer_acts [OF conjunct1 [OF x] run] apart_session(2) by fastforce
  have "busy ?se i x ([] @ to_network (pc_io ?y)) ([] @ to_user (pc_io ?y)) ?y"
    by (intro busy.Act busy.Idle assms(2))
  moreover have "snd (seq (gets (udp_get_peer b)) (\<lambda>p. whenever (p \<noteq> None)
      (on_peer pl b (\<lambda>se. peer_do se ev))) u) = u'"
    using x u'(1) by (simp add: act udp_get_peer_def hosted_def)
  ultimately show "\<exists>y ws ms. busy ?se i x ws ms y \<and> hosted b (snd (seq (gets (udp_get_peer b))
      (\<lambda>p. whenever (p \<noteq> None) (on_peer pl b (\<lambda>se. peer_do se ev))) u)) y
    \<and> gains b u ws ms (snd (seq (gets (udp_get_peer b)) (\<lambda>p. whenever (p \<noteq> None)
      (on_peer pl b (\<lambda>se. peer_do se ev))) u))"
    using u'(2,3) by auto
qed

text \<open>The same for an event of any peer of the layer.\<close>

lemma keeps_found:
  assumes "cfb_ok (pl_crypto pl)" and "udp_ok pl u" and "a = b \<longrightarrow> foreign i ev"
  shows "keeps pl b k i u (snd (seq (gets (udp_get_peer a)) (\<lambda>p. whenever (p \<noteq> None)
    (on_peer pl a (\<lambda>se. peer_do se ev))) u))"
  using keeps_foreign [OF assms(1), of i ev b k u] beside_keeps [OF beside_found [OF assms(2)], of a b] assms(3)
  by (cases "a = b") simp_all

section \<open>Events that leave the session alone\<close>

text \<open>A control message that neither adds or removes the peer at \<open>b\<close> nor uses its stream \<open>i\<close>.\<close>

fun leaves :: "address \<Rightarrow> u32 \<Rightarrow> message \<Rightarrow> bool" where
  "leaves b i (Add_peer a) = (a \<noteq> b)"
| "leaves b i (Del_peer a) = (a \<noteq> b)"
| "leaves b i (Add_stream a j) = (a = b \<longrightarrow> j \<noteq> i)"
| "leaves b i (Del_stream a j) = (a = b \<longrightarrow> j \<noteq> i)"
| "leaves b i (Send_data a j data) = (a = b \<longrightarrow> j \<noteq> i)"
| "leaves b i _ = False"

text \<open>
  Everything else that can happen to a service: what its user posts, its timers, the queries of
  the directory, and any bytes from any other address.
\<close>

fun harmless :: "address \<Rightarrow> u32 \<Rightarrow> service_event \<Rightarrow> bool" where
  "harmless b i (Post_message m) = leaves b i m"
| "harmless b i Query_output = False"
| "harmless b i Run_posted = True"
| "harmless b i (Query_timer host) = proper (Query_timer host)"
| "harmless b i (Arrives msg a) = (a \<noteq> b)"
| "harmless b i (Peer_timer_event a) = True"
| "harmless b i (Stream_timer_event a j) = (a = b \<longrightarrow> j \<noteq> i)"
| "harmless b i (Late_peer_timer_event a d) = (a \<noteq> b \<and> small d)"
| "harmless b i (Late_stream_timer_event a j) = (a = b \<longrightarrow> j \<noteq> i)"

lemma leaves_control: "leaves b i m \<Longrightarrow> is_control m"
  by (cases m) simp_all

lemma harmless_proper: "harmless b i ev \<Longrightarrow> proper ev"
  by (cases ev) (auto simp: leaves_control)

lemma keeps_control:
  assumes "cfb_ok (pl_crypto pl)" and "udp_ok pl u" and "leaves b i m"
  shows "keeps pl b k i u (snd (control_run pl m u))"
proof (cases m)
  case (Add_peer a)
  then show ?thesis using assms(3) by (simp add: beside_keeps [OF beside_add])
next
  case (Del_peer a)
  then have "moves (beside b) (udp_del_peer a)" using assms(3) by (intro beside_del) simp
  then have "beside b u (snd (udp_del_peer a u))" unfolding moves_def by blast
  then show ?thesis using Del_peer by (simp add: beside_keeps)
next
  case (Add_stream a j)
  then show ?thesis using keeps_found [OF assms(1,2), of a b i "User_add_stream j" k] assms(3) by simp
next
  case (Del_stream a j)
  then show ?thesis using keeps_found [OF assms(1,2), of a b i "User_del_stream j" k] assms(3) by simp
next
  case (Send_data a j data)
  then show ?thesis using keeps_found [OF assms(1,2), of a b i "User_send j data" k] assms(3) by simp
qed (use assms(3) in simp_all)

lemma service_setting:
  "service_ok pl conf s \<Longrightarrow>
    setting_of pl (sv_udp s) = \<lparr>se_crypto = pl_crypto pl, se_conf = conf, se_valid_ip = pl_valid_ip pl\<rparr>"
  by (simp add: service_ok_def wiring_def service_new_def register_filter_def udp_new_def act setting_of_def)

lemma service_cfb: "service_ok pl conf s \<Longrightarrow> cfb_ok (pl_crypto pl)"
  by (simp add: service_ok_def udp_ok_def setting_ok_def)

text \<open>The service's invariant, with an input ring that leaves the session alone.\<close>

definition settled :: "platform \<Rightarrow> configuration \<Rightarrow> address \<Rightarrow> u32 \<Rightarrow> service \<Rightarrow> bool" where
  "settled pl conf b i s \<longleftrightarrow> service_ok pl conf s \<and> (\<forall>m \<in> set (msg_lst (sv_input s)). leaves b i m)"

text \<open>Running the posted messages: one after the other, up to an exception.\<close>

lemma keeps_msg_handler:
  "settled pl conf b i s \<Longrightarrow> keeps pl b k i (sv_udp s) (sv_udp (snd (msg_handler pl s)))
    \<and> (\<forall>m \<in> set (msg_lst (sv_input (snd (msg_handler pl s)))). leaves b i m)"
proof (induction "msg_lst (sv_input s)" arbitrary: s)
  case Nil
  then show ?case
    by (simp add: msg_handler.simps [of pl s] beside_keeps reflpD [OF beside_refl])
next
  case (Cons m ms)
  obtain r where r: "ring_get (sv_input s) = (Some m, r)" "msg_lst r = ms"
    using rq.get_some [OF Cons.hyps(2) [symmetric]] by blast
  obtain x u where x: "control_run pl m (sv_udp s) = (x, u)" by fastforce
  have ok: "service_ok pl conf s" "udp_ok pl (sv_udp s)" "cfb_ok (pl_crypto pl)" and m: "leaves b i m"
    and ms: "\<forall>m \<in> set ms. leaves b i m"
    using Cons.prems Cons.hyps(2) [symmetric] service_cfb [of pl conf s]
    by (simp_all add: settled_def service_ok_def)
  have one: "keeps pl b k i (sv_udp s) u" using keeps_control [OF ok(3,2) m, of k] by (simp add: x)
  show ?case
  proof (cases x)
    case (Inl e)
    then have "msg_handler pl s = (Inl e, s\<lparr>sv_input := r, sv_udp := u\<rparr>)"
      by (simp add: msg_handler.simps [of pl s] r x)
    then show ?thesis using one r(2) ms by simp
  next
    case (Inr y)
    let ?s = "s\<lparr>sv_input := r, sv_udp := u\<rparr>"
    have run: "msg_handler pl s = msg_handler pl ?s" using Inr by (simp add: msg_handler.simps [of pl s] r x)
    have "service_ok pl conf (s\<lparr>sv_input := r\<rparr>)" using ok(1) ms r(2) leaves_control by (auto simp: service_ok_def)
    moreover have "udp_tame pl expected (control_run pl m) (sv_udp (s\<lparr>sv_input := r\<rparr>))"
      using benign_expected [OF control_run_tame [OF ok(2) leaves_control [OF m]]] by simp
    ultimately have "service_tame pl conf (on_udp (control_run pl m)) (s\<lparr>sv_input := r\<rparr>)"
      by (rule on_udp_tame) (rule wiring.same_control)
    then have ok': "service_ok pl conf ?s" using Inr x by (simp add: service_tame_def wp_def on_udp_def)
    then have "settled pl conf b i ?s" using ms r(2) by (simp add: settled_def)
    then have rest: "keeps pl b k i u (sv_udp (snd (msg_handler pl ?s)))
        \<and> (\<forall>m \<in> set (msg_lst (sv_input (snd (msg_handler pl ?s)))). leaves b i m)"
      using Cons.hyps(1) [of ?s] r(2) by simp
    have "setting_of pl u = setting_of pl (sv_udp s)"
      using service_setting [OF ok'] service_setting [OF ok(1)] by simp
    then show ?thesis unfolding run using keeps_trans [OF one _ _ ok(3)] rest by blast
  qed
qed

lemma beside_query:
  assumes "conf_server conf \<noteq> b" and "service_ok pl conf s"
  shows "beside b (sv_udp s) (sv_udp (snd (query_server pl host failed s)))
    \<and> sv_input (snd (query_server pl host failed s)) = sv_input s"
proof -
  have "conf_server (u_conf (sv_udp s)) = conf_server conf"
    using service_setting [OF assms(2)] by (simp add: setting_of_def)
  then show ?thesis
    using assms(1)
    by (cases host; cases failed)
      (auto simp: query_server_def on_udp_def on_service_def send_to_def act beside_def reflpD [OF beside_refl])
qed

text \<open>Every such event keeps the session, and the service goes on as before.\<close>

lemma settled_event:
  assumes s: "settled pl conf b i s" and ev: "harmless b i ev" and srv: "conf_server conf \<noteq> b"
  shows "keeps pl b k i (sv_udp s) (sv_udp (snd (service_do pl ev s)))"
    and "settled pl conf b i (snd (service_do pl ev s))"
proof -
  have ok: "service_ok pl conf s" and input: "\<forall>m \<in> set (msg_lst (sv_input s)). leaves b i m"
    using s by (simp_all add: settled_def)
  have u: "udp_ok pl (sv_udp s)" using ok by (simp add: service_ok_def)
  note c = service_cfb [OF ok]
  note same = beside_keeps [OF reflpD [OF beside_refl]]
  have ok': "service_ok pl conf (snd (service_do pl ev s))"
    using service_do_tame [OF ok harmless_proper [OF ev]]
    by (auto simp: service_tame_def wp_def split: prod.splits sum.splits)
  have "keeps pl b k i (sv_udp s) (sv_udp (snd (service_do pl ev s)))
      \<and> (\<forall>m \<in> set (msg_lst (sv_input (snd (service_do pl ev s)))). leaves b i m)"
  proof (cases ev)
    case (Post_message m)
    then show ?thesis using ev input same by (auto simp: act post_def)
  next
    case Run_posted
    have "settled pl conf b i (s\<lparr>sv_posted := n\<rparr>)" for n
      using s by (simp add: settled_def service_ok_def)
    from keeps_msg_handler [OF this, of k] show ?thesis
      using Run_posted input by (simp add: run_posted_def act same)
  next
    case (Query_timer host)
    have "service_ok pl conf (s\<lparr>sv_timer := False\<rparr>)" using ok by (simp add: service_ok_def)
    from beside_query [OF srv this, of host False] show ?thesis
      using Query_timer input by (simp add: query_timer_fires_def act beside_keeps same)
  next
    case (Arrives msg a)
    then show ?thesis
      using ev input beside_keeps [OF beside_arrives [OF u], of a b] by (simp add: on_udp_def case_prod_beta)
  next
    case (Peer_timer_event a)
    have "keeps pl b k i (sv_udp s) (snd (peer_timer pl a (sv_udp s)))"
      using keeps_found [OF c u, of a b i Handshake_timer k] by (simp add: peer_timer_def)
    then show ?thesis using Peer_timer_event input by (simp add: on_udp_def case_prod_beta)
  next
    case (Stream_timer_event a j)
    have "keeps pl b k i (sv_udp s) (snd (stream_timer pl a j (sv_udp s)))"
      using keeps_found [OF c u, of a b i "Stream_timer j" k] ev Stream_timer_event by (simp add: stream_timer_def)
    then show ?thesis using Stream_timer_event input by (simp add: on_udp_def case_prod_beta)
  next
    case (Late_peer_timer_event a d)
    have "keeps pl b k i (sv_udp s) (snd (late_peer_timer pl a d (sv_udp s)))"
      using keeps_found [OF c u, of a b i "Late_timer d" k] ev Late_peer_timer_event by (simp add: late_peer_timer_def)
    then show ?thesis using Late_peer_timer_event input by (simp add: on_udp_def case_prod_beta)
  next
    case (Late_stream_timer_event a j)
    have "keeps pl b k i (sv_udp s) (snd (late_stream_timer pl a j (sv_udp s)))"
      using keeps_found [OF c u, of a b i "Late_stream_timer j" k] ev Late_stream_timer_event
      by (simp add: late_stream_timer_def)
    then show ?thesis using Late_stream_timer_event input by (simp add: on_udp_def case_prod_beta)
  qed (use ev in simp)
  then show "keeps pl b k i (sv_udp s) (sv_udp (snd (service_do pl ev s)))"
    and "settled pl conf b i (snd (service_do pl ev s))"
    using ok' by (simp_all add: settled_def)
qed

section \<open>Events of the session\<close>

definition plain :: "address \<Rightarrow> pctx \<Rightarrow> bool" where
  "plain b y \<longleftrightarrow> (\<forall>e \<in> set (pc_io y). plain_io b e)"

lemma performs_plain: "performs se b k (x\<lparr>pc_io := []\<rparr>) m es y \<Longrightarrow> plain b y"
  by (auto simp: performs_def plain_def)

lemma own_stream_plain:
  assumes "cfb_ok (se_crypto se)" and x: "in_session se b k x"
    and own: "\<And>s. stream_own i s \<Longrightarrow> stream_own i (fst (f s)) \<and> effects_own b i (snd (f s))"
  shows "always (seq (pget (peer_get_stream i)) (\<lambda>v. whenever (v \<noteq> None) (on_stream se i f))) (plain b) (x\<lparr>pc_io := []\<rparr>)"
proof (cases "map_of (p_streams (pc_peer x)) i")
  case None
  then show ?thesis by (simp add: peer_get_stream_def wps plain_def)
next
  case (Some s)
  let ?x = "x\<lparr>pc_io := []\<rparr>"
  have "stream_own i s" using Some x by (simp add: in_session_def)
  from session_stream [where f = f and x = ?x and k = k, OF assms(1) _ _ own [OF this]] Some x
  have "always (on_stream se i f) (performs se b k ?x
      ((map_of (p_streams (pc_peer ?x)))(i \<mapsto> fst (f s))) (snd (f s))) ?x" by simp
  then have "always (on_stream se i f) (plain b) ?x"
    by (rule wp_mono) (simp_all add: performs_plain)
  then show ?thesis using Some by (simp add: peer_get_stream_def wps)
qed

lemma own_timers_plain:
  assumes "cfb_ok (se_crypto se)" and "in_session se b k x"
  shows "always (peer_do se (Stream_timer i)) (plain b) (x\<lparr>pc_io := []\<rparr>)"
    "always (peer_do se (Late_stream_timer i)) (plain b) (x\<lparr>pc_io := []\<rparr>)"
  using own_stream_plain [OF assms, of i stream_timer_fires] own_timer
    own_stream_plain [OF assms, of i stream_late_timer] own_late_timer
  by (simp_all add: stream_timer_event_def peer_stream_timer_fires_def late_stream_timer_event_def)

lemma sealed_plain:
  assumes "cfb_ok (se_crypto se)" "cfb_ok c" "same_cipher c (se_crypto se)" and "in_session se b k x"
    and "sealed c k d w" "carried d"
  shows "always (peer_do se (Datagram_in w)) (plain b) (x\<lparr>pc_io := []\<rparr>)"
proof -
  have "always (peer_do se (Datagram_in w)) (fed se b k d (x\<lparr>pc_io := []\<rparr>)) (x\<lparr>pc_io := []\<rparr>)"
    using session_datagram [OF assms(1-3) _ assms(5,6)] assms(4) by simp
  then show ?thesis by (rule wp_mono) (auto simp: fed_def dest: performs_plain)
qed

text \<open>An event of the peer in session: the layer does it, and hands over what it asks for.\<close>

definition follows :: "platform \<Rightarrow> address \<Rightarrow> peer_event \<Rightarrow> 'x udp_layer \<Rightarrow> 'x udp_layer \<Rightarrow> bool" where
  "follows pl b ev u u' \<longleftrightarrow> (\<forall>x. hosted b u x \<longrightarrow> hosted b u' (acts (setting_of pl u) ev x)
     \<and> gains b u (to_network (pc_io (acts (setting_of pl u) ev x))) (to_user (pc_io (acts (setting_of pl u) ev x))) u')"

lemma hosted_unique: "hosted b u x \<Longrightarrow> hosted b u y \<Longrightarrow> x\<lparr>pc_io := []\<rparr> = y\<lparr>pc_io := []\<rparr>"
  by (cases x; cases y) (simp add: hosted_def)

lemma acts_unique: "hosted b u x \<Longrightarrow> hosted b u y \<Longrightarrow> acts se ev x = acts se ev y"
  using hosted_unique [of b u x y] by (simp add: acts_def)

lemma follows_on_peer:
  assumes "hosted b u x" and "always (peer_do (setting_of pl u) ev) (plain b) (x\<lparr>pc_io := []\<rparr>)"
  shows "\<exists>u'. on_peer pl b (\<lambda>se. peer_do se ev) u = (Inr (), u') \<and> follows pl b ev u u'"
proof -
  obtain u' where "on_peer pl b (\<lambda>se. peer_do se ev) u = (Inr (), u')"
      "hosted b u' (acts (setting_of pl u) ev x)"
      "gains b u (to_network (pc_io (acts (setting_of pl u) ev x))) (to_user (pc_io (acts (setting_of pl u) ev x))) u'"
    using on_peer_acts [OF assms] by (auto simp: plain_def)
  then show ?thesis unfolding follows_def using acts_unique [OF assms(1)] by metis
qed

lemma follows_found:
  assumes "hosted b u x" and "always (peer_do (setting_of pl u) ev) (plain b) (x\<lparr>pc_io := []\<rparr>)"
  shows "follows pl b ev u (snd (seq (gets (udp_get_peer b)) (\<lambda>p. whenever (p \<noteq> None)
    (on_peer pl b (\<lambda>se. peer_do se ev))) u))"
proof -
  obtain u' where "on_peer pl b (\<lambda>se. peer_do se ev) u = (Inr (), u')" "follows pl b ev u u'"
    using follows_on_peer [OF assms] by blast
  then show ?thesis using assms(1) by (simp add: act udp_get_peer_def hosted_def)
qed

lemma service_unfiltered:
  "service_ok pl conf s \<Longrightarrow> conf_server conf \<noteq> b \<Longrightarrow>
    u_filters (sv_udp s) b = None \<and> u_default (sv_udp s) = (\<lambda>_ _. ret True)"
  by (simp add: service_ok_def wiring_def service_new_def register_filter_def udp_new_def act umap_assign_def)

text \<open>A datagram from \<open>b\<close> reaches the peer there when the layer is receiving, which it goes on to do.\<close>

lemma arrives_acts:
  assumes ok: "service_ok pl conf s" and srv: "conf_server conf \<noteq> b" and x: "hosted b (sv_udp s) x"
    and run: "always (peer_do (setting_of pl (sv_udp s)) (Datagram_in w)) P (x\<lparr>pc_io := []\<rparr>)"
    and plain: "\<And>y. P y \<Longrightarrow> plain b y"
    and "length w \<le> buffer_size" and on: "u_receiving (sv_udp s)"
  shows "\<exists>u'. datagram_arrives pl w b (sv_udp s) = (Inr (), u') \<and> u_receiving u'
    \<and> hosted b u' (acts (setting_of pl (sv_udp s)) (Datagram_in w) x)
    \<and> gains b (sv_udp s) (to_network (pc_io (acts (setting_of pl (sv_udp s)) (Datagram_in w) x)))
        (to_user (pc_io (acts (setting_of pl (sv_udp s)) (Datagram_in w) x))) u'"
proof -
  let ?u = "(sv_udp s)\<lparr>u_receiving := False\<rparr>"
  have u: "hosted b ?u x" "setting_of pl ?u = setting_of pl (sv_udp s)" using x by (simp_all add: hosted_def)
  obtain u' where u': "on_peer pl b (\<lambda>se. peer_do se (Datagram_in w)) ?u = (Inr (), u')"
      "hosted b u' (acts (setting_of pl ?u) (Datagram_in w) x)"
      "gains b ?u (to_network (pc_io (acts (setting_of pl ?u) (Datagram_in w) x)))
        (to_user (pc_io (acts (setting_of pl ?u) (Datagram_in w) x))) u'"
    using on_peer_acts [OF u(1), of pl "Datagram_in w" P] run plain unfolding u(2) plain_def by blast
  have "datagram_arrives pl w b (sv_udp s) = (Inr (), u'\<lparr>u_receiving := True\<rparr>)"
    using service_unfiltered [OF ok srv] on x u'(1) assms(6)
    by (simp add: datagram_arrives_def handle_receive_def on_service_def feed_peer_def udp_get_peer_def
        hosted_def start_receive_def act)
  then show ?thesis
    using u'(2,3) by (simp add: hosted_def gains_def)
qed

lemma follows_arrives:
  assumes "service_ok pl conf s" and "conf_server conf \<noteq> b" and x: "hosted b (sv_udp s) x"
    and "always (peer_do (setting_of pl (sv_udp s)) (Datagram_in w)) (plain b) (x\<lparr>pc_io := []\<rparr>)"
    and "length w \<le> buffer_size" and "u_receiving (sv_udp s)"
  shows "follows pl b (Datagram_in w) (sv_udp s) (snd (datagram_arrives pl w b (sv_udp s)))
    \<and> u_receiving (snd (datagram_arrives pl w b (sv_udp s)))"
proof -
  obtain u' where "datagram_arrives pl w b (sv_udp s) = (Inr (), u')" "u_receiving u'"
      "hosted b u' (acts (setting_of pl (sv_udp s)) (Datagram_in w) x)"
      "gains b (sv_udp s) (to_network (pc_io (acts (setting_of pl (sv_udp s)) (Datagram_in w) x)))
        (to_user (pc_io (acts (setting_of pl (sv_udp s)) (Datagram_in w) x))) u'"
    using arrives_acts [OF assms(1-4) _ assms(5,6)] by blast
  then show ?thesis unfolding follows_def using acts_unique [OF x] by (metis snd_conv)
qed

lemma sealed_length:
  assumes "cfb_ok c" and "sealed c k d w" and "carried d"
  shows "length w \<le> buffer_size"
  using assms by (auto simp: sealed_def seal_def length_datagram_wire cfb_ok_def carried_def
      segment_max_def buffer_size_def)

section \<open>Two services\<close>

record pair =
  pr_snd :: service
  pr_rcv :: service
  pr_fwd :: "bytes list"      \<comment> \<open>in flight from the sender to the receiver\<close>
  pr_bwd :: "bytes list"
  pr_told :: "message list"   \<comment> \<open>what the receiver's user took from the output ring\<close>

text \<open>What is handed to the socket in an event is in flight afterwards.\<close>

definition flushed :: "service \<Rightarrow> service" where
  "flushed s = s\<lparr>sv_udp := (sv_udp s)\<lparr>u_sent := []\<rparr>\<rparr>"

definition sender_event :: "platform \<Rightarrow> address \<Rightarrow> service_event \<Rightarrow> pair \<Rightarrow> pair" where
  "sender_event pl b ev p = (case snd (service_do pl ev (flushed (pr_snd p))) of
     s \<Rightarrow> p\<lparr>pr_snd := s, pr_fwd := pr_fwd p @ sent_to b (u_sent (sv_udp s))\<rparr>)"

definition receiver_event :: "platform \<Rightarrow> address \<Rightarrow> service_event \<Rightarrow> pair \<Rightarrow> pair" where
  "receiver_event pl a ev p = (case snd (service_do pl ev (flushed (pr_rcv p))) of
     s \<Rightarrow> p\<lparr>pr_rcv := s, pr_bwd := pr_bwd p @ sent_to a (u_sent (sv_udp s))\<rparr>)"

definition receiver_takes :: "pair \<Rightarrow> pair" where
  "receiver_takes p = (case query (pr_rcv p) of
     (m, s) \<Rightarrow> p\<lparr>pr_rcv := s, pr_told := pr_told p @ (case m of None \<Rightarrow> [] | Some m \<Rightarrow> [m])\<rparr>)"

definition sender_takes :: "pair \<Rightarrow> pair" where
  "sender_takes p = p\<lparr>pr_snd := snd (query (pr_snd p))\<rparr>"

inductive pair_step :: "platform \<Rightarrow> platform \<Rightarrow> address \<Rightarrow> address \<Rightarrow> u32 \<Rightarrow> pair \<Rightarrow> pair \<Rightarrow> bool"
  for pla plb a b i where
  Timer: "pair_step pla plb a b i p (sender_event pla b (Stream_timer_event b i) p)"
| Late: "pair_step pla plb a b i p (sender_event pla b (Late_stream_timer_event b i) p)"
| Arrive: "w \<in> set (pr_fwd p) \<Longrightarrow> pair_step pla plb a b i p (receiver_event plb a (Arrives w a) p)"
| Return: "w \<in> set (pr_bwd p) \<Longrightarrow> pair_step pla plb a b i p (sender_event pla b (Arrives w b) p)"
| Lose: "set fwd \<subseteq> set (pr_fwd p) \<Longrightarrow> set bwd \<subseteq> set (pr_bwd p) \<Longrightarrow>
    pair_step pla plb a b i p (p\<lparr>pr_fwd := fwd, pr_bwd := bwd\<rparr>)"
| Sender_other: "harmless b i ev \<Longrightarrow> pair_step pla plb a b i p (sender_event pla b ev p)"
| Receiver_other: "harmless a i ev \<Longrightarrow> pair_step pla plb a b i p (receiver_event plb a ev p)"
| Receiver_takes: "pair_step pla plb a b i p (receiver_takes p)"
| Sender_takes: "pair_step pla plb a b i p (sender_takes p)"

inductive pair_run :: "platform \<Rightarrow> platform \<Rightarrow> address \<Rightarrow> address \<Rightarrow> u32 \<Rightarrow> pair \<Rightarrow> pair \<Rightarrow> bool"
  for pla plb a b i p where
  Start: "pair_run pla plb a b i p p"
| Step: "pair_run pla plb a b i p q \<Longrightarrow> pair_step pla plb a b i q r \<Longrightarrow> pair_run pla plb a b i p r"

definition setting_for :: "platform \<Rightarrow> configuration \<Rightarrow> setting" where
  "setting_for pl conf = \<lparr>se_crypto = pl_crypto pl, se_conf = conf, se_valid_ip = pl_valid_ip pl\<rparr>"

lemma settled_setting: "settled pl conf b i s \<Longrightarrow> setting_of pl (sv_udp s) = setting_for pl conf"
  by (simp add: settled_def service_setting setting_for_def)

lemma settled_flushed: "settled pl conf b i s \<Longrightarrow> settled pl conf b i (flushed s)"
  by (simp add: settled_def flushed_def service_ok_def wiring_def)

lemma hosted_flushed [simp]: "hosted b (sv_udp (flushed s)) x = hosted b (sv_udp s) x"
  by (simp add: hosted_def flushed_def)

lemma flushed_fields [simp]:
  "u_sent (sv_udp (flushed s)) = []" "u_output (sv_udp (flushed s)) = u_output (sv_udp s)"
  "u_receiving (sv_udp (flushed s)) = u_receiving (sv_udp s)"
  by (simp_all add: flushed_def)

text \<open>The data the receiver's user has been told of, or finds in the ring.\<close>

definition reported :: "address \<Rightarrow> u32 \<Rightarrow> pair \<Rightarrow> bytes" where
  "reported a i p = heard a i (pr_told p @ msg_lst (u_output (sv_udp (pr_rcv p))))"

definition mirrors :: "platform \<Rightarrow> configuration \<Rightarrow> platform \<Rightarrow> configuration \<Rightarrow> address \<Rightarrow> address \<Rightarrow> u32
    \<Rightarrow> pair \<Rightarrow> channel \<Rightarrow> bool" where
  "mirrors pla ca plb cb a b i p c \<longleftrightarrow> settled pla ca b i (pr_snd p) \<and> settled plb cb a i (pr_rcv p)
     \<and> hosted b (sv_udp (pr_snd p)) (ch_snd c) \<and> hosted a (sv_udp (pr_rcv p)) (ch_rcv c)
     \<and> pr_fwd p = ch_fwd c \<and> pr_bwd p = ch_bwd c \<and> reported a i p = heard a i (ch_told c)"

lemma channel_run_trans: "channel_run sa sb i d e \<Longrightarrow> channel_run sa sb i c d \<Longrightarrow> channel_run sa sb i c e"
  by (induction rule: channel_run.induct) (auto intro: channel_run.Step)

lemma busy_sender:
  "busy sa i (ch_snd c) ws ms y \<Longrightarrow> channel_run sa sb i c (c\<lparr>ch_snd := y, ch_fwd := ch_fwd c @ ws\<rparr>)"
proof (induction rule: busy.induct)
  case Idle
  then show ?case by (simp add: channel_run.Start)
next
  case (Draw ws ms y n)
  then show ?case using channel_run.Step [OF Draw.IH channel_step.Sender_draws [of _ _ _ _ n]] by (cases c) simp
next
  case (Act ws ms y ev)
  then show ?case
    using channel_run.Step [OF Act.IH channel_step.Sender_other [OF Act.hyps(2)]] by (simp add: sender_does_def)
qed

lemma busy_receiver:
  "busy sb i (ch_rcv c) ws ms y \<Longrightarrow>
   channel_run sa sb i c (c\<lparr>ch_rcv := y, ch_bwd := ch_bwd c @ ws, ch_told := ch_told c @ ms\<rparr>)"
proof (induction rule: busy.induct)
  case Idle
  then show ?case by (simp add: channel_run.Start)
next
  case (Draw ws ms y n)
  then show ?case using channel_run.Step [OF Draw.IH channel_step.Receiver_draws [of _ _ _ _ n]] by (cases c) simp
next
  case (Act ws ms y ev)
  then show ?case
    using channel_run.Step [OF Act.IH channel_step.Receiver_other [OF Act.hyps(2)]] by (simp add: receiver_does_def)
qed

text \<open>An event at the sender's service, as the channel sees it.\<close>

lemma mirrors_sender:
  assumes "mirrors pla ca plb cb a b i p c" and "settled pla ca b i s"
    and "hosted b (sv_udp s) y" and "gains b (sv_udp (flushed (pr_snd p))) ws ms (sv_udp s)"
  shows "mirrors pla ca plb cb a b i (p\<lparr>pr_snd := s, pr_fwd := pr_fwd p @ sent_to b (u_sent (sv_udp s))\<rparr>)
    (c\<lparr>ch_snd := y, ch_fwd := ch_fwd c @ ws\<rparr>)"
  using assms by (simp add: mirrors_def reported_def gains_def)

lemma mirrors_receiver:
  assumes "mirrors pla ca plb cb a b i p c" and "settled plb cb a i s"
    and "hosted a (sv_udp s) y" and "gains a (sv_udp (flushed (pr_rcv p))) ws ms (sv_udp s)"
  shows "mirrors pla ca plb cb a b i (p\<lparr>pr_rcv := s, pr_bwd := pr_bwd p @ sent_to a (u_sent (sv_udp s))\<rparr>)
    (c\<lparr>ch_rcv := y, ch_bwd := ch_bwd c @ ws, ch_told := ch_told c @ ms\<rparr>)"
  using assms by (simp add: mirrors_def reported_def gains_def)

lemma mirrors_sender_event:
  assumes p: "mirrors pla ca plb cb a b i p c" and ev: "harmless b i ev" and srv: "conf_server ca \<noteq> b"
    and x: "in_session (setting_for pla ca) b k (ch_snd c)"
  shows "\<exists>c'. channel_run (setting_for pla ca) sb i c c' \<and> mirrors pla ca plb cb a b i (sender_event pla b ev p) c'"
proof -
  have s: "settled pla ca b i (flushed (pr_snd p))" "hosted b (sv_udp (flushed (pr_snd p))) (ch_snd c)"
    using p settled_flushed by (simp_all add: mirrors_def)
  obtain y ws ms where "busy (setting_for pla ca) i (ch_snd c) ws ms y"
      "hosted b (sv_udp (snd (service_do pla ev (flushed (pr_snd p))))) y"
      "gains b (sv_udp (flushed (pr_snd p))) ws ms (sv_udp (snd (service_do pla ev (flushed (pr_snd p)))))"
    using settled_event(1) [OF s(1) ev srv, of k] s(2) x unfolding keeps_def settled_setting [OF s(1)] by blast
  then show ?thesis
    using busy_sender mirrors_sender [OF p settled_event(2) [OF s(1) ev srv]]
    unfolding sender_event_def by blast
qed

lemma mirrors_receiver_event:
  assumes p: "mirrors pla ca plb cb a b i p c" and ev: "harmless a i ev" and srv: "conf_server cb \<noteq> a"
    and y: "in_session (setting_for plb cb) a k (ch_rcv c)"
  shows "\<exists>c'. channel_run sa (setting_for plb cb) i c c' \<and> mirrors pla ca plb cb a b i (receiver_event plb a ev p) c'"
proof -
  have s: "settled plb cb a i (flushed (pr_rcv p))" "hosted a (sv_udp (flushed (pr_rcv p))) (ch_rcv c)"
    using p settled_flushed by (simp_all add: mirrors_def)
  obtain z ws ms where "busy (setting_for plb cb) i (ch_rcv c) ws ms z"
      "hosted a (sv_udp (snd (service_do plb ev (flushed (pr_rcv p))))) z"
      "gains a (sv_udp (flushed (pr_rcv p))) ws ms (sv_udp (snd (service_do plb ev (flushed (pr_rcv p)))))"
    using settled_event(1) [OF s(1) ev srv, of k] s(2) y unfolding keeps_def settled_setting [OF s(1)] by blast
  then show ?thesis
    using busy_receiver mirrors_receiver [OF p settled_event(2) [OF s(1) ev srv]]
    unfolding receiver_event_def by blast
qed

lemma settled_udp:
  assumes "settled pl conf b i s" and "proper ev" and "service_do pl ev = on_udp m"
  shows "settled pl conf b i (snd (service_do pl ev s))"
proof -
  have "service_ok pl conf (snd (service_do pl ev s))"
    using service_do_tame [of pl conf s ev] assms(1,2)
    by (auto simp: settled_def service_tame_def wp_def split: prod.splits sum.splits)
  then show ?thesis using assms(1,3) by (simp add: settled_def on_udp_def case_prod_beta)
qed

text \<open>The stream's own timers, and the session's datagrams.\<close>

lemma sender_follows:
  assumes p: "mirrors pla ca plb cb a b i p c"
    and "settled pla ca b i (snd (service_do pla sev (flushed (pr_snd p))))"
    and f: "follows pla b ev (sv_udp (flushed (pr_snd p))) (sv_udp (snd (service_do pla sev (flushed (pr_snd p)))))"
  shows "mirrors pla ca plb cb a b i (sender_event pla b sev p) (sender_does (setting_for pla ca) ev c)"
proof -
  let ?s = "flushed (pr_snd p)" and ?s' = "snd (service_do pla sev (flushed (pr_snd p)))"
  let ?y = "acts (setting_for pla ca) ev (ch_snd c)"
  have s: "settled pla ca b i ?s" "hosted b (sv_udp ?s) (ch_snd c)"
    using p settled_flushed by (simp_all add: mirrors_def)
  have "hosted b (sv_udp ?s') ?y" "gains b (sv_udp ?s) (to_network (pc_io ?y)) (to_user (pc_io ?y)) (sv_udp ?s')"
    using f s(2) unfolding follows_def settled_setting [OF s(1)] by blast+
  from mirrors_sender [OF p assms(2) this] show ?thesis by (simp add: sender_event_def sender_does_def)
qed

lemma receiver_follows:
  assumes p: "mirrors pla ca plb cb a b i p c"
    and "settled plb cb a i (snd (service_do plb sev (flushed (pr_rcv p))))"
    and f: "follows plb a ev (sv_udp (flushed (pr_rcv p))) (sv_udp (snd (service_do plb sev (flushed (pr_rcv p)))))"
  shows "mirrors pla ca plb cb a b i (receiver_event plb a sev p) (receiver_does (setting_for plb cb) ev c)"
proof -
  let ?s = "flushed (pr_rcv p)" and ?s' = "snd (service_do plb sev (flushed (pr_rcv p)))"
  let ?y = "acts (setting_for plb cb) ev (ch_rcv c)"
  have s: "settled plb cb a i ?s" "hosted a (sv_udp ?s) (ch_rcv c)"
    using p settled_flushed by (simp_all add: mirrors_def)
  have "hosted a (sv_udp ?s') ?y" "gains a (sv_udp ?s) (to_network (pc_io ?y)) (to_user (pc_io ?y)) (sv_udp ?s')"
    using f s(2) unfolding follows_def settled_setting [OF s(1)] by blast+
  from mirrors_receiver [OF p assms(2) this] show ?thesis by (simp add: receiver_event_def receiver_does_def)
qed

text \<open>A service that has stopped receiving loses what arrives.\<close>

lemma deaf:
  assumes "\<not> u_receiving (sv_udp s)"
  shows "service_do pl (Arrives w b) s = (Inr (), s)"
  using assms by (simp add: on_udp_def datagram_arrives_def act)

lemma mirrors_return_on:
  assumes p: "mirrors pla ca plb cb a b i p c" and srv: "conf_server ca \<noteq> b"
    and x: "in_session (setting_for pla ca) b k (ch_snd c)"
    and w: "sealed e k d w" "carried d" "cfb_ok e" "same_cipher e (pl_crypto pla)"
    and on: "u_receiving (sv_udp (pr_snd p))"
  shows "mirrors pla ca plb cb a b i (sender_event pla b (Arrives w b) p) (sender_does (setting_for pla ca) (Datagram_in w) c)
    \<and> u_receiving (sv_udp (pr_snd (sender_event pla b (Arrives w b) p)))"
proof -
  let ?s = "flushed (pr_snd p)"
  have s: "settled pla ca b i ?s" "hosted b (sv_udp ?s) (ch_snd c)"
    using p settled_flushed by (simp_all add: mirrors_def)
  then have ok: "service_ok pla ca ?s" by (simp add: settled_def)
  have "always (peer_do (setting_of pla (sv_udp ?s)) (Datagram_in w)) (plain b) ((ch_snd c)\<lparr>pc_io := []\<rparr>)"
    unfolding settled_setting [OF s(1)]
    by (rule sealed_plain [OF _ w(3) _ x w(1,2)]) (use service_cfb [OF ok] w(4) in \<open>simp_all add: setting_for_def\<close>)
  from follows_arrives [OF ok srv s(2) this sealed_length [OF w(3,1,2)]] on
  have f: "follows pla b (Datagram_in w) (sv_udp ?s) (sv_udp (snd (service_do pla (Arrives w b) ?s)))"
      "u_receiving (sv_udp (snd (service_do pla (Arrives w b) ?s)))"
    by (simp_all add: on_udp_def case_prod_beta)
  from sender_follows [OF p settled_udp [OF s(1)] f(1)] f(2) show ?thesis by (simp add: sender_event_def)
qed

lemma mirrors_return:
  assumes p: "mirrors pla ca plb cb a b i p c" and "conf_server ca \<noteq> b"
    and "in_session (setting_for pla ca) b k (ch_snd c)"
    and "sealed e k d w" "carried d" "cfb_ok e" "same_cipher e (pl_crypto pla)"
  shows "mirrors pla ca plb cb a b i (sender_event pla b (Arrives w b) p) (sender_does (setting_for pla ca) (Datagram_in w) c)
    \<or> mirrors pla ca plb cb a b i (sender_event pla b (Arrives w b) p) c"
proof (cases "u_receiving (sv_udp (pr_snd p))")
  case True
  then show ?thesis using mirrors_return_on [OF assms] by blast
next
  case False
  then have "service_do pla (Arrives w b) (flushed (pr_snd p)) = (Inr (), flushed (pr_snd p))"
    by (intro deaf) simp
  then have "mirrors pla ca plb cb a b i (sender_event pla b (Arrives w b) p) c"
    using p settled_flushed by (simp add: mirrors_def sender_event_def reported_def)
  then show ?thesis ..
qed

lemma mirrors_arrive_on:
  assumes p: "mirrors pla ca plb cb a b i p c" and srv: "conf_server cb \<noteq> a"
    and y: "in_session (setting_for plb cb) a k (ch_rcv c)"
    and w: "sealed e k d w" "carried d" "cfb_ok e" "same_cipher e (pl_crypto plb)"
    and on: "u_receiving (sv_udp (pr_rcv p))"
  shows "mirrors pla ca plb cb a b i (receiver_event plb a (Arrives w a) p) (receiver_does (setting_for plb cb) (Datagram_in w) c)
    \<and> u_receiving (sv_udp (pr_rcv (receiver_event plb a (Arrives w a) p)))"
proof -
  let ?s = "flushed (pr_rcv p)"
  have s: "settled plb cb a i ?s" "hosted a (sv_udp ?s) (ch_rcv c)"
    using p settled_flushed by (simp_all add: mirrors_def)
  then have ok: "service_ok plb cb ?s" by (simp add: settled_def)
  have "always (peer_do (setting_of plb (sv_udp ?s)) (Datagram_in w)) (plain a) ((ch_rcv c)\<lparr>pc_io := []\<rparr>)"
    unfolding settled_setting [OF s(1)]
    by (rule sealed_plain [OF _ w(3) _ y w(1,2)]) (use service_cfb [OF ok] w(4) in \<open>simp_all add: setting_for_def\<close>)
  from follows_arrives [OF ok srv s(2) this sealed_length [OF w(3,1,2)]] on
  have f: "follows plb a (Datagram_in w) (sv_udp ?s) (sv_udp (snd (service_do plb (Arrives w a) ?s)))"
      "u_receiving (sv_udp (snd (service_do plb (Arrives w a) ?s)))"
    by (simp_all add: on_udp_def case_prod_beta)
  from receiver_follows [OF p settled_udp [OF s(1)] f(1)] f(2) show ?thesis by (simp add: receiver_event_def)
qed

lemma mirrors_arrive:
  assumes p: "mirrors pla ca plb cb a b i p c" and "conf_server cb \<noteq> a"
    and "in_session (setting_for plb cb) a k (ch_rcv c)"
    and "sealed e k d w" "carried d" "cfb_ok e" "same_cipher e (pl_crypto plb)"
  shows "mirrors pla ca plb cb a b i (receiver_event plb a (Arrives w a) p) (receiver_does (setting_for plb cb) (Datagram_in w) c)
    \<or> mirrors pla ca plb cb a b i (receiver_event plb a (Arrives w a) p) c"
proof (cases "u_receiving (sv_udp (pr_rcv p))")
  case True
  then show ?thesis using mirrors_arrive_on [OF assms] by blast
next
  case False
  then have "service_do plb (Arrives w a) (flushed (pr_rcv p)) = (Inr (), flushed (pr_rcv p))"
    by (intro deaf) simp
  then have "mirrors pla ca plb cb a b i (receiver_event plb a (Arrives w a) p) c"
    using p settled_flushed by (simp add: mirrors_def receiver_event_def reported_def)
  then show ?thesis ..
qed

lemma mirrors_timers:
  assumes p: "mirrors pla ca plb cb a b i p c" and x: "in_session (setting_for pla ca) b k (ch_snd c)"
  shows "mirrors pla ca plb cb a b i (sender_event pla b (Stream_timer_event b i) p)
      (sender_does (setting_for pla ca) (Stream_timer i) c)"
    "mirrors pla ca plb cb a b i (sender_event pla b (Late_stream_timer_event b i) p)
      (sender_does (setting_for pla ca) (Late_stream_timer i) c)"
proof -
  let ?s = "flushed (pr_snd p)"
  have s: "settled pla ca b i ?s" "hosted b (sv_udp ?s) (ch_snd c)"
    using p settled_flushed by (simp_all add: mirrors_def)
  have "cfb_ok (se_crypto (setting_for pla ca))"
    using s(1) service_cfb by (auto simp: settled_def setting_for_def)
  note plain = own_timers_plain [OF this x, of i, folded settled_setting [OF s(1)]]
  have "follows pla b (Stream_timer i) (sv_udp ?s) (sv_udp (snd (service_do pla (Stream_timer_event b i) ?s)))"
    using follows_found [OF s(2) plain(1)] by (simp add: on_udp_def case_prod_beta stream_timer_def)
  from sender_follows [OF p settled_udp [OF s(1)] this]
  show "mirrors pla ca plb cb a b i (sender_event pla b (Stream_timer_event b i) p)
      (sender_does (setting_for pla ca) (Stream_timer i) c)" by simp
  have "follows pla b (Late_stream_timer i) (sv_udp ?s) (sv_udp (snd (service_do pla (Late_stream_timer_event b i) ?s)))"
    using follows_found [OF s(2) plain(2)] by (simp add: on_udp_def case_prod_beta late_stream_timer_def)
  from sender_follows [OF p settled_udp [OF s(1)] this]
  show "mirrors pla ca plb cb a b i (sender_event pla b (Late_stream_timer_event b i) p)
      (sender_does (setting_for pla ca) (Late_stream_timer i) c)" by simp
qed

lemma settled_query: "settled pl conf b i s \<Longrightarrow> settled pl conf b i (snd (query s))"
  by (auto simp: settled_def query_def service_ok_def wiring_def split: prod.splits)

lemma mirrors_takes:
  assumes "mirrors pla ca plb cb a b i p c"
  shows "mirrors pla ca plb cb a b i (receiver_takes p) c" "mirrors pla ca plb cb a b i (sender_takes p) c"
proof -
  show "mirrors pla ca plb cb a b i (receiver_takes p) c"
    using assms settled_query [of plb cb a i "pr_rcv p"]
    by (auto simp: mirrors_def receiver_takes_def query_def ring_get_def reported_def hosted_def
        simp del: heard_append split: list.splits)
  show "mirrors pla ca plb cb a b i (sender_takes p) c"
    using assms settled_query [of pla ca b i "pr_snd p"]
    by (auto simp: mirrors_def sender_takes_def query_def reported_def hosted_def split: prod.splits)
qed

section \<open>Every run of two services is one of the channel\<close>

text \<open>What both services bring along; neither has the other for its directory server.\<close>

definition services_ok :: "platform \<Rightarrow> configuration \<Rightarrow> platform \<Rightarrow> configuration \<Rightarrow> address \<Rightarrow> address \<Rightarrow> bool" where
  "services_ok pla ca plb cb a b \<longleftrightarrow> ends_ok (setting_for pla ca) (setting_for plb cb)
     \<and> conf_server ca \<noteq> b \<and> conf_server cb \<noteq> a"

lemma mirrors_step:
  assumes ok: "services_ok pla ca plb cb a b"
    and t: "tracks (setting_for pla ca) (setting_for plb cb) a b k i False c l"
    and p: "mirrors pla ca plb cb a b i p c" and "pair_step pla plb a b i p p'"
  shows "\<exists>c'. channel_run (setting_for pla ca) (setting_for plb cb) i c c' \<and> mirrors pla ca plb cb a b i p' c'"
proof -
  let ?sa = "setting_for pla ca" and ?sb = "setting_for plb cb"
  let ?run = "\<lambda>c'. channel_run ?sa ?sb i c c'"
  have x: "in_session ?sa b k (ch_snd c)" and y: "in_session ?sb a k (ch_rcv c)"
    using t by (simp_all add: tracks_def)
  have srv: "conf_server ca \<noteq> b" "conf_server cb \<noteq> a" using ok by (simp_all add: services_ok_def)
  have e: "cfb_ok (se_crypto ?sa)" "cfb_ok (se_crypto ?sb)"
      "same_cipher (se_crypto ?sa) (pl_crypto plb)" "same_cipher (se_crypto ?sb) (pl_crypto pla)"
    using ok by (simp_all add: services_ok_def ends_ok_def setting_ok_def setting_for_def same_cipher_def)
  have one: "?run c'" if "channel_step ?sa ?sb i c c'" for c'
    by (rule channel_run.Step [OF channel_run.Start that])
  show ?thesis
    using assms(4)
  proof (cases rule: pair_step.cases)
    case Timer
    then show ?thesis using mirrors_timers(1) [OF p x] one [OF channel_step.Timer] by blast
  next
    case Late
    then show ?thesis using mirrors_timers(2) [OF p x] one [OF channel_step.Late] by blast
  next
    case (Arrive w)
    have w: "w \<in> set (ch_fwd c)" using Arrive(2) p by (simp add: mirrors_def)
    have "in_flight (se_crypto ?sa) k i (lk_fwd l) (ch_fwd c)" using t by (simp add: tracks_def)
    from in_flight_member [OF this w] obtain d where "sealed (se_crypto ?sa) k d w" "carried d" by blast
    from mirrors_arrive [OF p srv(2) y this e(1,3)] show ?thesis
      unfolding Arrive(1) using one [OF channel_step.Arrive [OF w]] channel_run.Start by blast
  next
    case (Return w)
    have w: "w \<in> set (ch_bwd c)" using Return(2) p by (simp add: mirrors_def)
    have "in_flight (se_crypto ?sb) k i (lk_bwd l) (ch_bwd c)" using t by (simp add: tracks_def)
    from in_flight_member [OF this w] obtain d where "sealed (se_crypto ?sb) k d w" "carried d" by blast
    from mirrors_return [OF p srv(1) x this e(2,4)] show ?thesis
      unfolding Return(1) using one [OF channel_step.Return [OF w]] channel_run.Start by blast
  next
    case (Lose fwd bwd)
    then have "mirrors pla ca plb cb a b i p' (c\<lparr>ch_fwd := fwd, ch_bwd := bwd\<rparr>)"
        "?run (c\<lparr>ch_fwd := fwd, ch_bwd := bwd\<rparr>)"
      using p one [OF channel_step.Lose] by (simp_all add: mirrors_def reported_def)
    then show ?thesis by blast
  next
    case (Sender_other ev)
    then show ?thesis using mirrors_sender_event [OF p _ srv(1) x] by blast
  next
    case (Receiver_other ev)
    then show ?thesis using mirrors_receiver_event [OF p _ srv(2) y] by blast
  next
    case Receiver_takes
    then show ?thesis using mirrors_takes(1) [OF p] channel_run.Start by blast
  next
    case Sender_takes
    then show ?thesis using mirrors_takes(2) [OF p] channel_run.Start by blast
  qed
qed

lemma tracks_run_any:
  assumes "ends_ok sa sb"
  shows "channel_run sa sb i c d \<Longrightarrow> tracks sa sb a b k i False c l \<Longrightarrow>
    \<exists>l'. link_run a l l' \<and> tracks sa sb a b k i False d l'"
proof (induction rule: channel_run.induct)
  case Start
  then show ?case using link_run.Start by blast
next
  case (Step d e)
  then show ?case using tracks_step [OF assms] link_run.Step by blast
qed

lemma link_run_trans: "link_run a m n \<Longrightarrow> link_run a l m \<Longrightarrow> link_run a l n"
  by (induction rule: link_run.induct) (auto intro: link_run.Step)

lemma mirrors_run:
  assumes ok: "services_ok pla ca plb cb a b"
    and "tracks (setting_for pla ca) (setting_for plb cb) a b k i False c l"
    and "mirrors pla ca plb cb a b i p c"
  shows "pair_run pla plb a b i p q \<Longrightarrow> \<exists>d l'. link_run a l l'
    \<and> tracks (setting_for pla ca) (setting_for plb cb) a b k i False d l' \<and> mirrors pla ca plb cb a b i q d"
proof (induction rule: pair_run.induct)
  case Start
  then show ?case using assms link_run.Start by blast
next
  case (Step q r)
  then obtain d l' where d: "link_run a l l'"
      "tracks (setting_for pla ca) (setting_for plb cb) a b k i False d l'" "mirrors pla ca plb cb a b i q d"
    by blast
  from mirrors_step [OF ok d(2,3) Step.hyps(2)] obtain e where
      e: "channel_run (setting_for pla ca) (setting_for plb cb) i d e" "mirrors pla ca plb cb a b i r e"
    by blast
  have "ends_ok (setting_for pla ca) (setting_for plb cb)" using ok by (simp add: services_ok_def)
  from tracks_run_any [OF this e(1) d(2)] show ?case using d(1) e(2) link_run_trans by blast
qed

section \<open>What the users post\<close>

text \<open>A message is posted and the message loop runs.\<close>

definition sender_posts :: "platform \<Rightarrow> address \<Rightarrow> message \<Rightarrow> pair \<Rightarrow> pair" where
  "sender_posts pl b m p = sender_event pl b Run_posted (sender_event pl b (Post_message m) p)"

text \<open>Before, the ring is empty; afterwards it is again, and the layer has done what was asked.\<close>

lemma posted_runs:
  assumes "msg_lst (sv_input s) = []" and "control_run pl m (sv_udp (flushed s)) = (Inr (), u)"
  shows "\<exists>s'. service_do pl Run_posted (flushed (snd (service_do pl (Post_message m) (flushed s)))) = (Inr (), s')
    \<and> sv_udp s' = u \<and> msg_lst (sv_input s') = []"
proof -
  let ?t = "(flushed (post m (flushed s)))\<lparr>sv_posted := sv_posted (flushed (post m (flushed s))) - 1\<rparr>"
  have t: "msg_lst (sv_input ?t) = [m]" "sv_udp ?t = sv_udp (flushed s)"
    using assms(1) by (simp_all add: post_def flushed_def)
  have "fst (msg_handler pl ?t) = Inr ()" "sv_udp (snd (msg_handler pl ?t)) = u"
      "msg_lst (sv_input (snd (msg_handler pl ?t))) = []"
    using msg_handler_sequence [of pl ?t] assms(2) unfolding t by (simp_all add: act)
  moreover have "service_do pl Run_posted (flushed (post m (flushed s))) = msg_handler pl ?t"
    by (simp add: run_posted_def act) (simp add: post_def flushed_def)
  ultimately show ?thesis by (intro exI [of _ "snd (msg_handler pl ?t)"]) (simp add: act prod_eq_iff)
qed

lemma sender_posts_eval:
  assumes "msg_lst (sv_input (pr_snd p)) = []" and "control_run pl m (sv_udp (flushed (pr_snd p))) = (Inr (), u)"
    and "is_control m" and "service_ok pl conf (pr_snd p)"
  shows "\<exists>s. sender_posts pl b m p = p\<lparr>pr_snd := s, pr_fwd := pr_fwd p @ sent_to b (u_sent u)\<rparr>
    \<and> sv_udp s = u \<and> msg_lst (sv_input s) = [] \<and> service_ok pl conf s"
proof -
  obtain s where s: "service_do pl Run_posted (flushed (snd (service_do pl (Post_message m) (flushed (pr_snd p))))) = (Inr (), s)"
      "sv_udp s = u" "msg_lst (sv_input s) = []"
    using posted_runs [OF assms(1,2)] by blast
  have keep: "service_ok pl conf (flushed r)" if "service_ok pl conf r" for r
    using that by (simp add: service_ok_def flushed_def wiring_def)
  have "service_ok pl conf (snd (service_do pl (Post_message m) (flushed (pr_snd p))))"
    using service_do_tame [OF keep [OF assms(4)], of "Post_message m"] assms(3)
    by (auto simp: service_tame_def wp_def split: prod.splits sum.splits)
  from service_do_tame [OF keep [OF this], of Run_posted] s(1) have "service_ok pl conf s"
    by (simp add: service_tame_def wp_def)
  then show ?thesis
    using s by (intro exI [of _ s]) (simp add: sender_posts_def sender_event_def act post_def flushed_def)
qed

text \<open>Both services receive, and nothing is posted.\<close>

definition ready :: "pair \<Rightarrow> bool" where
  "ready p \<longleftrightarrow> u_receiving (sv_udp (pr_snd p)) \<and> u_receiving (sv_udp (pr_rcv p)) \<and> msg_lst (sv_input (pr_snd p)) = []"

text \<open>A message for the session's peer.\<close>

lemma mirrors_posts:
  assumes p: "mirrors pla ca plb cb a b i p c" and ready: "ready p" and "is_control m"
    and m: "(control_run pla m :: (peer_lists, unit) udp_action) = seq (gets (udp_get_peer b)) (\<lambda>q. whenever (q \<noteq> None) (on_peer pla b (\<lambda>se. peer_do se ev)))"
    and run: "always (peer_do (setting_for pla ca) ev) (plain b) ((ch_snd c)\<lparr>pc_io := []\<rparr>)"
  shows "mirrors pla ca plb cb a b i (sender_posts pla b m p) (sender_does (setting_for pla ca) ev c)
    \<and> ready (sender_posts pla b m p)"
proof -
  let ?s = "flushed (pr_snd p)" and ?y = "acts (setting_for pla ca) ev (ch_snd c)"
  have s: "settled pla ca b i ?s" "hosted b (sv_udp ?s) (ch_snd c)"
    using p settled_flushed by (simp_all add: mirrors_def)
  have ok: "service_ok pla ca (pr_snd p)" using p by (simp add: mirrors_def settled_def)
  obtain u where u: "on_peer pla b (\<lambda>se. peer_do se ev) (sv_udp ?s) = (Inr (), u)" "hosted b u ?y"
      "gains b (sv_udp ?s) (to_network (pc_io ?y)) (to_user (pc_io ?y)) u" "u_receiving u"
    using on_peer_acts [OF s(2), of pla ev "plain b"] run ready unfolding settled_setting [OF s(1)]
    by (auto simp: plain_def ready_def)
  have "msg_lst (sv_input (pr_snd p)) = []" using ready by (simp add: ready_def)
  have "control_run pla m (sv_udp ?s) = (Inr (), u)"
    using s(2) u(1) by (simp add: m act udp_get_peer_def hosted_def)
  from sender_posts_eval [OF \<open>msg_lst _ = []\<close> this assms(3) ok] obtain r where
      r: "sender_posts pla b m p = p\<lparr>pr_snd := r, pr_fwd := pr_fwd p @ sent_to b (u_sent u)\<rparr>"
        "sv_udp r = u" "msg_lst (sv_input r) = []" "service_ok pla ca r"
    by blast
  have "settled pla ca b i r" using r(3,4) by (simp add: settled_def)
  from mirrors_sender [OF p this, of ?y] u(2-4) r ready show ?thesis by (simp add: sender_does_def ready_def)
qed

lemma own_posts_plain:
  assumes "cfb_ok (se_crypto se)" and x: "in_session se b k x"
  shows "always (peer_do se (User_add_stream i)) (plain b) (x\<lparr>pc_io := []\<rparr>)"
    "always (peer_do se (User_send i data)) (plain b) (x\<lparr>pc_io := []\<rparr>)"
proof -
  show "always (peer_do se (User_add_stream i)) (plain b) (x\<lparr>pc_io := []\<rparr>)"
    by (auto simp: peer_add_stream_def wps plain_def split: option.split)
  show "always (peer_do se (User_send i data)) (plain b) (x\<lparr>pc_io := []\<rparr>)"
    using own_stream_plain [OF assms, of i "stream_send data"] own_send by (simp add: send_on_stream_def)
qed

section \<open>A session between two services\<close>

text \<open>The service has a connected peer at \<open>b\<close>, goes on receiving, and nothing is posted.\<close>

definition joined :: "platform \<Rightarrow> configuration \<Rightarrow> address \<Rightarrow> bytes \<Rightarrow> bytes \<Rightarrow> service \<Rightarrow> bool" where
  "joined pl conf b n k s \<longleftrightarrow> service_ok pl conf s \<and> u_receiving (sv_udp s) \<and> msg_lst (sv_input s) = []
     \<and> (\<exists>x. hosted b (sv_udp s) x \<and> connected (setting_for pl conf) n b k x)"

text \<open>The user of the first service opens the stream \<open>i\<close> and sends the data.\<close>

definition pair_dispatch :: "platform \<Rightarrow> address \<Rightarrow> u32 \<Rightarrow> bytes \<Rightarrow> pair \<Rightarrow> pair" where
  "pair_dispatch pl b i data p = sender_posts pl b (Send_data b i data) (sender_posts pl b (Add_stream b i) p)"

lemma mirrors_open:
  assumes ok: "services_ok pla ca plb cb a b"
    and s: "joined pla ca b n k (pr_snd p)" and r: "joined plb cb a m k (pr_rcv p)"
    and "pr_fwd p = []" "pr_bwd p = []" "reported a i p = []"
  shows "\<exists>x y. connected (setting_for pla ca) n b k x \<and> connected (setting_for plb cb) m a k y
    \<and> mirrors pla ca plb cb a b i (sender_posts pla b (Add_stream b i) p) (open_channel (setting_for pla ca) i x y)
    \<and> ready (sender_posts pla b (Add_stream b i) p)"
proof -
  let ?sa = "setting_for pla ca" and ?sb = "setting_for plb cb"
  have c: "cfb_ok (se_crypto ?sa)" using ok by (simp add: services_ok_def ends_ok_def setting_ok_def)
  obtain x where x: "hosted b (sv_udp (pr_snd p)) x" "connected ?sa n b k x"
    using s by (auto simp: joined_def)
  obtain y where y: "hosted a (sv_udp (pr_rcv p)) y" "connected ?sb m a k y"
    using r by (auto simp: joined_def)
  have "mirrors pla ca plb cb a b i p \<lparr>ch_snd = x, ch_rcv = y, ch_fwd = [], ch_bwd = [], ch_told = []\<rparr>"
    using s r x(1) y(1) assms(4-6) by (simp add: mirrors_def joined_def settled_def)
  then have "mirrors pla ca plb cb a b i (sender_posts pla b (Add_stream b i) p) (open_channel ?sa i x y)
      \<and> ready (sender_posts pla b (Add_stream b i) p)"
    unfolding open_channel_def
    using s r own_posts_plain(1) [OF c connected_in_session [OF x(2)]]
    by (intro mirrors_posts) (simp_all add: joined_def ready_def)
  then show ?thesis using x(2) y(2) by blast
qed

lemma mirrors_dispatch:
  assumes ok: "services_ok pla ca plb cb a b" and t: "tracks (setting_for pla ca) (setting_for plb cb) a b k i alone c l"
    and p: "mirrors pla ca plb cb a b i p c" and "ready p"
  shows "mirrors pla ca plb cb a b i (sender_posts pla b (Send_data b i data) p) (dispatch (setting_for pla ca) i data c)
    \<and> ready (sender_posts pla b (Send_data b i data) p)"
proof -
  have "cfb_ok (se_crypto (setting_for pla ca))" "in_session (setting_for pla ca) b k (ch_snd c)"
    using ok t by (simp_all add: services_ok_def ends_ok_def setting_ok_def tracks_def)
  from own_posts_plain(2) [OF this, of i data] show ?thesis
    unfolding dispatch_def by (intro mirrors_posts [OF p assms(4)]) simp_all
qed

text \<open>Safety: what the receiver's user is told is a prefix of the data, and all of it in the end.\<close>

lemma services_deliver:
  assumes ok: "services_ok pla ca plb cb a b"
    and "joined pla ca b n k (pr_snd p)" and "joined plb cb a m k (pr_rcv p)"
    and "pr_fwd p = []" "pr_bwd p = []" "reported a i p = []"
    and len: "length data < 2 ^ 32" and run: "pair_run pla plb a b i (pair_dispatch pla b i data p) q"
  shows "(\<exists>j. reported a i q = take j data)
    \<and> (\<forall>peer s. udp_get_peer b (sv_udp (pr_snd q)) = Some peer \<and> peer_get_stream i peer = Some s
         \<and> st_send_queue s = [] \<longrightarrow> reported a i q = data)"
proof -
  let ?k = "fold_key (drop 16 k) 16 (take 16 k)"
  obtain c where c: "mirrors pla ca plb cb a b i (pair_dispatch pla b i data p) c"
      "tracks (setting_for pla ca) (setting_for plb cb) a b ?k i False c (submit data (link_new i))"
  proof -
    obtain x y where xy: "connected (setting_for pla ca) n b k x" "connected (setting_for plb cb) m a k y"
        "mirrors pla ca plb cb a b i (sender_posts pla b (Add_stream b i) p) (open_channel (setting_for pla ca) i x y)"
        "ready (sender_posts pla b (Add_stream b i) p)"
      using mirrors_open [OF assms(1-6)] by blast
    note t = tracks_open [OF xy(1,2), of i False]
    show ?thesis
      using that mirrors_dispatch [OF ok t xy(3,4), of data] tracks_dispatch [OF _ t, of data] ok
      unfolding pair_dispatch_def services_ok_def by blast
  qed
  from mirrors_run [OF ok c(2,1) run] obtain d l where
      l: "link_run a (submit data (link_new i)) l"
        "tracks (setting_for pla ca) (setting_for plb cb) a b ?k i False d l"
        "mirrors pla ca plb cb a b i q d"
    by blast
  have got: "reported a i q = lk_got l" using l(2,3) by (simp add: tracks_def mirrors_def)
  have snd: "peer_get_stream i peer = Some (lk_snd l)" if "udp_get_peer b (sv_udp (pr_snd q)) = Some peer" for peer
    using l(2,3) that by (simp add: tracks_def mirrors_def hosted_def udp_get_peer_def peer_get_stream_def)
  from link_run_delivers [OF len l(1)] show ?thesis unfolding got using snd by fastforce
qed

end
