(* ===== verification/Service_Handshake.thy ===== *)
theory Service_Handshake
  imports Service_Link
begin

text \<open>
  The handshake between two services, from the message that adds the peer on. The first service
  sends its hello; the second, which has never heard of it, constructs the peer when the hello
  arrives. Each peer goes through the stages of \<open>Handshake\<close>, and from there on the session is
  that of \<open>Service_Link\<close>.
\<close>

section \<open>A service whose peer is at a stage\<close>

definition stands :: "platform \<Rightarrow> configuration \<Rightarrow> address \<Rightarrow> (pctx \<Rightarrow> bool) \<Rightarrow> service \<Rightarrow> bool" where
  "stands pl conf b Q s \<longleftrightarrow> service_ok pl conf s \<and> u_receiving (sv_udp s) \<and> msg_lst (sv_input s) = []
     \<and> (\<forall>i. heard b i (msg_lst (u_output (sv_udp s))) = []) \<and> (\<exists>x. hosted b (sv_udp s) x \<and> Q x)"

text \<open>In the states of \<open>P\<close> the peer has just handed over \<open>ws\<close>, and reported no data.\<close>

definition emits :: "address \<Rightarrow> (pctx \<Rightarrow> bool) \<Rightarrow> bytes list \<Rightarrow> bool" where
  "emits b P ws \<longleftrightarrow> (\<forall>y. P y \<longrightarrow> plain b y \<and> to_network (pc_io y) = ws
     \<and> (\<forall>i. heard b i (to_user (pc_io y)) = []))"

text \<open>The datagram fits into the receive buffer.\<close>

definition travels :: "datagram \<Rightarrow> bool" where
  "travels d \<longleftrightarrow> named_type (dg_type d) \<and> length (datagram_wire d) \<le> buffer_size"

lemma travels_small: "travels d \<Longrightarrow> small d"
  by (simp add: travels_def small_def length_datagram_wire buffer_size_def)

lemma hears_always:
  "travels d \<Longrightarrow> hears se d P x \<Longrightarrow> always (peer_do se (Datagram_in (datagram_wire d))) P (x\<lparr>pc_io := []\<rparr>)"
  by (simp add: hears_def feed_wire travels_small) (simp add: travels_def feed_wire travels_small)

lemma settled_empty: "service_ok pl conf s \<Longrightarrow> msg_lst (sv_input s) = [] \<Longrightarrow> settled pl conf b i s"
  by (simp add: settled_def)

lemma stands_hears:
  assumes s: "stands pl conf b Q s" and srv: "conf_server conf \<noteq> b" and "travels d"
    and hears: "\<And>x. Q x \<Longrightarrow> hears (setting_for pl conf) d P x" and out: "emits b P ws"
  defines "s' \<equiv> snd (service_do pl (Arrives (datagram_wire d) b) (flushed s))"
  shows "stands pl conf b P s' \<and> sent_to b (u_sent (sv_udp s')) = ws"
proof -
  let ?s = "flushed s" and ?w = "datagram_wire d"
  obtain x where x: "hosted b (sv_udp s) x" "Q x" using s by (auto simp: stands_def)
  have ok: "settled pl conf b i ?s" for i
    using s by (intro settled_flushed) (simp add: stands_def settled_empty)
  then have okf: "service_ok pl conf ?s" by (simp add: settled_def)
  note se = settled_setting [OF ok]
  have run: "always (peer_do (setting_for pl conf) (Datagram_in ?w)) P (x\<lparr>pc_io := []\<rparr>)"
    by (rule hears_always [OF assms(3) hears [OF x(2)]])
  let ?y = "acts (setting_for pl conf) (Datagram_in ?w) x"
  have y: "P ?y" by (rule always_acts [OF run])
  obtain u' where u': "datagram_arrives pl ?w b (sv_udp ?s) = (Inr (), u')" "u_receiving u'" "hosted b u' ?y"
      "gains b (sv_udp ?s) (to_network (pc_io ?y)) (to_user (pc_io ?y)) u'"
    using arrives_acts [OF okf srv _ run [folded se], of] x(1) s assms(3) out
    unfolding se by (fastforce simp: stands_def emits_def travels_def)
  have s': "s' = ?s\<lparr>sv_udp := u'\<rparr>" unfolding s'_def by (simp add: on_udp_def u'(1))
  have "settled pl conf b i s'" for i
    unfolding s'_def by (rule settled_udp [OF ok]) simp_all
  then have "service_ok pl conf s'" by (simp add: settled_def)
  then show ?thesis
    using s u'(2-4) y out unfolding s'
    by (auto simp: stands_def emits_def gains_def flushed_def)
qed

text \<open>A new peer, made by the service itself.\<close>

definition able :: "platform \<Rightarrow> configuration \<Rightarrow> address \<Rightarrow> bool" where
  "able pl conf b \<longleftrightarrow> group_valid (pl_crypto pl) \<and> subgroup_order_ok (pl_crypto pl) \<and> pl_valid_ip pl (ip_addr b)
     \<and> length (conf_id conf) \<le> buffer_size - 13
     \<and> (\<forall>n. length (snd (ephemeral_pair (pl_crypto pl) n)) \<le> buffer_size - 13)"

text \<open>Nobody at \<open>b\<close> is known yet.\<close>

definition alone_with :: "platform \<Rightarrow> configuration \<Rightarrow> address \<Rightarrow> service \<Rightarrow> bool" where
  "alone_with pl conf b s \<longleftrightarrow> service_ok pl conf s \<and> u_receiving (sv_udp s) \<and> msg_lst (sv_input s) = []
     \<and> (\<forall>i. heard b i (msg_lst (u_output (sv_udp s))) = []) \<and> udp_get_peer b (sv_udp s) = None"

lemma adds_peer:
  assumes u: "udp_ok pl u" and se: "setting_of pl u = setting_for pl conf" and "udp_get_peer b u = None" and able: "able pl conf b"
  shows "\<exists>v x. udp_add_peer pl b u = (Inr (), v) \<and> hosted b v x
    \<and> stage (setting_for pl conf) b Hello_handler {0} (u_rnd u) (static_dh (setting_for pl conf)) (create_hello (conf_id conf)) x
    \<and> v = u\<lparr>u_sent := u_sent u @ [(datagram_wire (create_hello (conf_id conf)), b)],
            u_peers := umap_insert b (pc_peer x) (u_peers u)\<rparr>"
proof -
  let ?se = "setting_for pl conf"
  have ok: "setting_ok ?se" using u se by (simp add: udp_ok_def)
  have fields: "se_crypto ?se = pl_crypto pl" "se_conf ?se = conf" "se_valid_ip ?se = pl_valid_ip pl"
    by (simp_all add: setting_for_def)
  have new: "peer_new ?se b (u_rnd u) = (Inr (greeted ?se b), u_rnd u,
      [Udp_send (datagram_wire (create_hello (conf_id conf))) b])"
    using peer_new_eval [OF ok, of b "u_rnd u"] able by (simp add: fields able_def)
  let ?x = "\<lparr>pc_peer = greeted ?se b, pc_rnd = u_rnd u,
    pc_io = [Udp_send (datagram_wire (create_hello (conf_id conf))) b]\<rparr>"
  have stage: "stage ?se b Hello_handler {0} (u_rnd u) (static_dh ?se) (create_hello (conf_id conf)) ?x"
    using peer_new_Inr [OF ok new] by (simp add: fields)
  let ?v = "u\<lparr>u_sent := u_sent u @ [(datagram_wire (create_hello (conf_id conf)), b)],
            u_peers := umap_insert b (pc_peer ?x) (u_peers u)\<rparr>"
  have "udp_add_peer pl b u = (Inr (), ?v)"
    by (simp add: udp_add_peer_def se new run_io_def act)
  moreover have "hosted b ?v ?x"
    using assms(3) by (simp add: hosted_def umap.find_insert udp_get_peer_def)
  ultimately show ?thesis using stage by blast
qed

text \<open>The first datagram from an unknown address: the peer is made, says hello, and is fed.\<close>

lemma first_contact:
  assumes s: "alone_with pl conf b s" and srv: "conf_server conf \<noteq> b" and able: "able pl conf b" and "travels d"
    and hears: "\<And>x. stage (setting_for pl conf) b Hello_handler {0} (u_rnd (sv_udp s)) (static_dh (setting_for pl conf))
      (create_hello (conf_id conf)) x \<Longrightarrow> hears (setting_for pl conf) d P x" and out: "emits b P ws"
  defines "s' \<equiv> snd (service_do pl (Arrives (datagram_wire d) b) (flushed s))"
  shows "stands pl conf b P s' \<and> sent_to b (u_sent (sv_udp s')) = datagram_wire (create_hello (conf_id conf)) # ws"
proof -
  let ?s = "flushed s" and ?w = "datagram_wire d" and ?se = "setting_for pl conf"
  let ?u = "(sv_udp ?s)\<lparr>u_receiving := False\<rparr>"
  have ok: "settled pl conf b i ?s" for i
    using s by (intro settled_flushed) (simp add: alone_with_def settled_empty)
  then have okf: "service_ok pl conf ?s" by (simp add: settled_def)
  have se: "setting_of pl ?u = ?se" using settled_setting [OF ok] by simp
  have u: "udp_ok pl ?u" "udp_get_peer b ?u = None" "u_rnd ?u = u_rnd (sv_udp s)" "u_sent ?u = []"
    using okf s by (simp_all add: service_ok_def alone_with_def udp_get_peer_def flushed_def)
  obtain v x where v: "udp_add_peer pl b ?u = (Inr (), v)" "hosted b v x"
      "stage ?se b Hello_handler {0} (u_rnd (sv_udp s)) (static_dh ?se) (create_hello (conf_id conf)) x"
      "v = ?u\<lparr>u_sent := [(datagram_wire (create_hello (conf_id conf)), b)], u_peers := umap_insert b (pc_peer x) (u_peers ?u)\<rparr>"
    using adds_peer [OF u(1) se u(2) able] u(3,4) by auto
  let ?y = "acts ?se (Datagram_in ?w) x"
  have run: "always (peer_do ?se (Datagram_in ?w)) P (x\<lparr>pc_io := []\<rparr>)"
    by (rule hears_always [OF assms(4) hears [OF v(3)]])
  have y: "P ?y" by (rule always_acts [OF run])
  have sev: "setting_of pl v = ?se" using se by (simp add: v(4))
  obtain w where w: "on_peer pl b (\<lambda>se. peer_do se (Datagram_in ?w)) v = (Inr (), w)" "hosted b w ?y"
      "gains b v (to_network (pc_io ?y)) (to_user (pc_io ?y)) w"
    using on_peer_acts [OF v(2), of pl "Datagram_in ?w" P] run out unfolding sev emits_def plain_def by blast
  have recv: "u_receiving (sv_udp ?s)" using s by (simp add: alone_with_def)
  have arrives: "datagram_arrives pl ?w b (sv_udp ?s) = (Inr (), w\<lparr>u_receiving := True\<rparr>)"
    using service_unfiltered [OF okf srv] recv assms(4) u(2) v(1) w(1)
    by (simp add: datagram_arrives_def handle_receive_def on_service_def feed_peer_def udp_get_peer_def
        travels_def start_receive_def act)
  have s': "s' = ?s\<lparr>sv_udp := w\<lparr>u_receiving := True\<rparr>\<rparr>"
    unfolding s'_def by (simp add: on_udp_def arrives)
  have "settled pl conf b i s'" for i
    unfolding s'_def by (rule settled_udp [OF ok]) simp_all
  then have "service_ok pl conf s'" by (simp add: settled_def)
  moreover have "u_output v = u_output (sv_udp s)" by (simp add: v(4))
  ultimately show ?thesis
    using s w(2,3) y out unfolding s'
    by (auto simp: stands_def alone_with_def emits_def gains_def flushed_def hosted_def v(4))
qed

section \<open>The two services\<close>

text \<open>Both at a stage, and what is in flight.\<close>

definition poised :: "platform \<Rightarrow> configuration \<Rightarrow> platform \<Rightarrow> configuration \<Rightarrow> address \<Rightarrow> address
    \<Rightarrow> (pctx \<Rightarrow> bool) \<Rightarrow> (pctx \<Rightarrow> bool) \<Rightarrow> bytes list \<Rightarrow> bytes list \<Rightarrow> pair \<Rightarrow> bool" where
  "poised pla ca plb cb a b P Q fwd bwd p \<longleftrightarrow> stands pla ca b P (pr_snd p) \<and> stands plb cb a Q (pr_rcv p)
     \<and> pr_fwd p = fwd \<and> pr_bwd p = bwd \<and> pr_told p = []"

text \<open>The oldest bytes in flight arrive.\<close>

definition next_fwd :: "platform \<Rightarrow> address \<Rightarrow> pair \<Rightarrow> pair" where
  "next_fwd plb a p = (case pr_fwd p of [] \<Rightarrow> p
     | w # fwd \<Rightarrow> receiver_event plb a (Arrives w a) (p\<lparr>pr_fwd := fwd\<rparr>))"

definition next_bwd :: "platform \<Rightarrow> address \<Rightarrow> pair \<Rightarrow> pair" where
  "next_bwd pla b p = (case pr_bwd p of [] \<Rightarrow> p
     | w # bwd \<Rightarrow> sender_event pla b (Arrives w b) (p\<lparr>pr_bwd := bwd\<rparr>))"

text \<open>All that is in flight to the receiver arrives, then all that is in flight to the sender.\<close>

definition shuttle :: "platform \<Rightarrow> platform \<Rightarrow> address \<Rightarrow> address \<Rightarrow> pair \<Rightarrow> pair" where
  "shuttle pla plb a b p = (case (next_fwd plb a ^^ length (pr_fwd p)) p of
     q \<Rightarrow> (next_bwd pla b ^^ length (pr_bwd q)) q)"

lemma poised_fwd:
  assumes "poised pla ca plb cb a b P Q (datagram_wire d # fwd) bwd p" and "conf_server cb \<noteq> a"
    and "travels d" and "\<And>x. Q x \<Longrightarrow> hears (setting_for plb cb) d Q' x" and "emits a Q' ws"
  shows "poised pla ca plb cb a b P Q' fwd (bwd @ ws) (next_fwd plb a p)"
proof -
  have "stands plb cb a Q (pr_rcv p)" using assms(1) by (simp add: poised_def)
  from stands_hears [OF this assms(2,3) _ assms(5)] assms(4) show ?thesis
    using assms(1) by (simp add: poised_def next_fwd_def receiver_event_def)
qed

lemma poised_bwd:
  assumes "poised pla ca plb cb a b P Q fwd (datagram_wire d # bwd) p" and "conf_server ca \<noteq> b"
    and "travels d" and "\<And>x. P x \<Longrightarrow> hears (setting_for pla ca) d P' x" and "emits b P' ws"
  shows "poised pla ca plb cb a b P' Q (fwd @ ws) bwd (next_bwd pla b p)"
proof -
  have "stands pla ca b P (pr_snd p)" using assms(1) by (simp add: poised_def)
  from stands_hears [OF this assms(2,3) _ assms(5)] assms(4) show ?thesis
    using assms(1) by (simp add: poised_def next_bwd_def sender_event_def)
qed

text \<open>What each stage has handed over.\<close>

lemma emits_stages:
  "emits b (side se b h bits n dh d i pk) [datagram_wire d]"
  "emits b (echoing se b n dh d i pk k) [datagram_wire d]"
  "emits b (connected se i b k) []"
  by (simp_all add: emits_def echoing_def side_defs connected_def plain_def)

lemma travels_stages:
  "travels (create_ack 0 0)" "travels (create_echo (str ''1234567890''))"
  "travels (create_echo_back (create_echo (str ''1234567890'')))"
  "length i \<le> buffer_size - 13 \<Longrightarrow> travels (create_hello i)"
  "length i \<le> buffer_size - 13 \<Longrightarrow> travels (create_public_key i)"
  by (auto simp: travels_def length_datagram_wire buffer_size_def)
    (simp_all add: create_defs)

section \<open>The handshake\<close>

text \<open>Two services that know nothing of each other; the user of the first adds the second.\<close>

definition strangers :: "platform \<Rightarrow> configuration \<Rightarrow> platform \<Rightarrow> configuration \<Rightarrow> address \<Rightarrow> address \<Rightarrow> pair \<Rightarrow> bool" where
  "strangers pla ca plb cb a b p \<longleftrightarrow> alone_with pla ca b (pr_snd p) \<and> alone_with plb cb a (pr_rcv p)
     \<and> pr_fwd p = [] \<and> pr_bwd p = [] \<and> pr_told p = []"

lemma adds:
  assumes p: "strangers pla ca plb cb a b p" and able: "able pla ca b"
  defines "n \<equiv> u_rnd (sv_udp (pr_snd p))"
  shows "let q = sender_posts pla b (Add_peer b) p; sa = setting_for pla ca in
    stands pla ca b (stage sa b Hello_handler {0} n (static_dh sa) (create_hello (conf_id ca))) (pr_snd q)
    \<and> pr_rcv q = pr_rcv p \<and> pr_fwd q = [datagram_wire (create_hello (conf_id ca))] \<and> pr_bwd q = [] \<and> pr_told q = []"
proof -
  let ?s = "flushed (pr_snd p)" and ?hello = "datagram_wire (create_hello (conf_id ca))"
  have s: "alone_with pla ca b (pr_snd p)" using p by (simp add: strangers_def)
  then have ok: "service_ok pla ca (pr_snd p)" "msg_lst (sv_input (pr_snd p)) = []" by (simp_all add: alone_with_def)
  then have f: "settled pla ca b i ?s" for i by (intro settled_flushed settled_empty)
  then have u: "udp_ok pla (sv_udp ?s)" by (simp add: settled_def service_ok_def)
  have none: "udp_get_peer b (sv_udp ?s) = None" and n: "u_rnd (sv_udp ?s) = n"
    using s by (simp_all add: alone_with_def udp_get_peer_def flushed_def n_def)
  obtain v x where v: "udp_add_peer pla b (sv_udp ?s) = (Inr (), v)" "hosted b v x"
      "stage (setting_for pla ca) b Hello_handler {0} n (static_dh (setting_for pla ca)) (create_hello (conf_id ca)) x"
      "v = (sv_udp ?s)\<lparr>u_sent := [(?hello, b)], u_peers := umap_insert b (pc_peer x) (u_peers (sv_udp ?s))\<rparr>"
    using adds_peer [OF u settled_setting [OF f] none able] unfolding n by auto
  have "control_run pla (Add_peer b) (sv_udp ?s) = (Inr (), v)" using v(1) by simp
  from sender_posts_eval [OF ok(2) this _ ok(1)] obtain r where
      r: "sender_posts pla b (Add_peer b) p = p\<lparr>pr_snd := r, pr_fwd := pr_fwd p @ sent_to b (u_sent v)\<rparr>"
        "sv_udp r = v" "msg_lst (sv_input r) = []" "service_ok pla ca r"
    by auto
  have "u_receiving v" "u_output v = u_output (sv_udp (pr_snd p))" "sent_to b (u_sent v) = [?hello]"
    using s by (simp_all add: v(4) alone_with_def)
  then show ?thesis
    using r p s v(2,3) by (auto simp: Let_def strangers_def stands_def alone_with_def)
qed

lemma contact_fwd:
  assumes "stands pla ca b P (pr_snd p)" and s: "alone_with plb cb a (pr_rcv p)"
    and "pr_fwd p = datagram_wire d # fwd" "pr_bwd p = bwd" "pr_told p = []"
    and "conf_server cb \<noteq> a" "able plb cb a" "travels d"
    and "\<And>x. stage (setting_for plb cb) a Hello_handler {0} (u_rnd (sv_udp (pr_rcv p)))
      (static_dh (setting_for plb cb)) (create_hello (conf_id cb)) x \<Longrightarrow> hears (setting_for plb cb) d Q x"
    and "emits a Q ws"
  shows "poised pla ca plb cb a b P Q fwd (bwd @ datagram_wire (create_hello (conf_id cb)) # ws) (next_fwd plb a p)"
  using first_contact [OF s assms(6-10)] assms(1,3-5)
  by (simp add: poised_def next_fwd_def receiver_event_def)

text \<open>Two datagrams in flight, and the two answers.\<close>

lemma shuttle_two:
  assumes p: "poised pla ca plb cb a b P Q [datagram_wire d, datagram_wire d'] [] p"
    and ok: "services_ok pla ca plb cb a b"
    and d: "travels d" "\<And>x. Q x \<Longrightarrow> hears (setting_for plb cb) d Q1 x" "emits a Q1 [datagram_wire e]"
    and d': "travels d'" "\<And>x. Q1 x \<Longrightarrow> hears (setting_for plb cb) d' Q2 x" "emits a Q2 [datagram_wire e']"
    and e: "travels e" "\<And>x. P x \<Longrightarrow> hears (setting_for pla ca) e P1 x" "emits b P1 us"
    and e': "travels e'" "\<And>x. P1 x \<Longrightarrow> hears (setting_for pla ca) e' P2 x" "emits b P2 vs"
  shows "poised pla ca plb cb a b P2 Q2 (us @ vs) [] (shuttle pla plb a b p)"
proof -
  have srv: "conf_server ca \<noteq> b" "conf_server cb \<noteq> a" using ok by (simp_all add: services_ok_def)
  let ?q = "next_fwd plb a (next_fwd plb a p)"
  have q: "poised pla ca plb cb a b P Q2 [] [datagram_wire e, datagram_wire e'] ?q"
    using poised_fwd [OF poised_fwd [OF p srv(2) d] srv(2) d'] by simp
  have r: "poised pla ca plb cb a b P2 Q2 (us @ vs) [] (next_bwd pla b (next_bwd pla b ?q))"
    using poised_bwd [OF poised_bwd [OF q srv(1) e] srv(1) e'] by simp
  have "length (pr_fwd p) = Suc (Suc 0)" "length (pr_bwd ?q) = Suc (Suc 0)"
    using p q by (simp_all add: poised_def)
  then have "shuttle pla plb a b p = next_bwd pla b (next_bwd pla b ?q)"
    by (simp add: shuttle_def)
  then show ?thesis using r by simp
qed

text \<open>The first hello, answered by a hello and an acknowledgement.\<close>

lemma shuttle_contact:
  assumes p: "strangers pla ca plb cb a b p" and ok: "services_ok pla ca plb cb a b"
    and able: "able pla ca b" "able plb cb a"
  defines "sa \<equiv> setting_for pla ca" and "sb \<equiv> setting_for plb cb"
    and "n \<equiv> u_rnd (sv_udp (pr_snd p))" and "m \<equiv> u_rnd (sv_udp (pr_rcv p))"
  shows "poised pla ca plb cb a b
      (side sa b Public_key_exchange_handler {0, 1, 2, 3} (Suc n) (ephemeral_dh sa n)
         (create_public_key (epub sa n)) (conf_id cb) (trusted_spub sa (conf_id cb)))
      (side sb a Hello_handler {0, 2} m (static_dh sb) (create_ack 0 0) (conf_id ca) (trusted_spub sb (conf_id ca)))
      [datagram_wire (create_ack 0 0), datagram_wire (create_public_key (epub sa n))] []
      (shuttle pla plb a b (sender_posts pla b (Add_peer b) p))"
proof -
  let ?p = "sender_posts pla b (Add_peer b) p"
  have srv: "conf_server ca \<noteq> b" "conf_server cb \<noteq> a" and se: "setting_ok sa"
    using ok by (simp_all add: services_ok_def ends_ok_def sa_def)
  have t: "travels (create_hello (conf_id ca))" "travels (create_hello (conf_id cb))"
    using able by (simp_all add: able_def travels_stages(4))
  note a0 = adds [OF p able(1), unfolded Let_def, folded sa_def n_def]
  have b0: "alone_with plb cb a (pr_rcv ?p)" "u_rnd (sv_udp (pr_rcv ?p)) = m"
    using a0 p by (simp_all add: strangers_def m_def)
  let ?q = "next_fwd plb a ?p"
  have q: "poised pla ca plb cb a b
      (stage sa b Hello_handler {0} n (static_dh sa) (create_hello (conf_id ca)))
      (side sb a Hello_handler {0, 2} m (static_dh sb) (create_ack 0 0) (conf_id ca) (trusted_spub sb (conf_id ca)))
      [] [datagram_wire (create_hello (conf_id cb)), datagram_wire (create_ack 0 0)] ?q"
    using contact_fwd [OF conjunct1 [OF a0] b0(1) _ _ _ srv(2) able(2) t(1) _ emits_stages(1),
        unfolded b0(2), folded sb_def] a0 round_1 by fastforce
  have r: "poised pla ca plb cb a b
      (side sa b Public_key_exchange_handler {0, 1, 2, 3} (Suc n) (ephemeral_dh sa n)
         (create_public_key (epub sa n)) (conf_id cb) (trusted_spub sa (conf_id cb)))
      (side sb a Hello_handler {0, 2} m (static_dh sb) (create_ack 0 0) (conf_id ca) (trusted_spub sb (conf_id ca)))
      ([] @ [datagram_wire (create_ack 0 0)] @ [datagram_wire (create_public_key (epub sa n))]) []
      (next_bwd pla b (next_bwd pla b ?q))"
    unfolding append_assoc [symmetric]
    by (rule poised_bwd [OF poised_bwd [OF q srv(1) t(2) _ emits_stages(1)] srv(1) travels_stages(1) _ emits_stages(1)])
      (use round_1 round_2 [OF se] in \<open>simp_all add: sa_def\<close>)
  have "length (pr_fwd ?p) = Suc 0" "length (pr_bwd ?q) = Suc (Suc 0)"
    using a0 q by (simp_all add: poised_def)
  then have "shuttle pla plb a b ?p = next_bwd pla b (next_bwd pla b ?q)"
    by (simp add: shuttle_def)
  then show ?thesis using r by simp
qed

text \<open>The last datagram of the handshake: the echo comes back to the second service.\<close>

lemma shuttle_last:
  assumes p: "poised pla ca plb cb a b P Q [datagram_wire d] [] p" and ok: "services_ok pla ca plb cb a b"
    and d: "travels d" "\<And>x. Q x \<Longrightarrow> hears (setting_for plb cb) d Q1 x" "emits a Q1 []"
  shows "poised pla ca plb cb a b P Q1 [] [] (shuttle pla plb a b p)"
proof -
  have "conf_server cb \<noteq> a" using ok by (simp add: services_ok_def)
  from poised_fwd [OF p this d] have q: "poised pla ca plb cb a b P Q1 [] [] (next_fwd plb a p)" by simp
  have "length (pr_fwd p) = Suc 0" "pr_bwd (next_fwd plb a p) = []" using p q by (simp_all add: poised_def)
  then have "shuttle pla plb a b p = next_fwd plb a p" by (simp add: shuttle_def)
  then show ?thesis using q by simp
qed

lemma services_meet:
  assumes p: "strangers pla ca plb cb a b p" and ok: "services_ok pla ca plb cb a b"
    and able: "able pla ca b" "able plb cb a"
    and trust: "mutual_trust (setting_for pla ca) (setting_for plb cb)"
    and agree: "agreement_ok (setting_for pla ca) (setting_for plb cb)"
  shows "\<exists>k. poised pla ca plb cb a b (connected (setting_for pla ca) (conf_id cb) b k)
      (connected (setting_for plb cb) (conf_id ca) a k) [] []
      ((shuttle pla plb a b ^^ 4) (sender_posts pla b (Add_peer b) p))"
proof -
  let ?sa = "setting_for pla ca" and ?sb = "setting_for plb cb"
  let ?n = "u_rnd (sv_udp (pr_snd p))" and ?m = "u_rnd (sv_udp (pr_rcv p))"
  let ?ia = "conf_id ca" and ?ib = "conf_id cb" and ?echo = "create_echo (str ''1234567890'')"
  let ?shuttle = "shuttle pla plb a b"
  have se: "setting_ok ?sa" "setting_ok ?sb" using ok by (simp_all add: services_ok_def ends_ok_def)
  have spub: "trusted_spub ?sa ?ib = static_pub ?sb" "trusted_spub ?sb ?ia = static_pub ?sa"
    using trust by (simp_all add: mutual_trust_def setting_for_def)
  obtain k where k: "16 \<le> length k"
      "dh2_agree (se_crypto ?sa) (static_priv ?sa) (epriv ?sa ?n) (static_pub ?sb) (epub ?sb ?m) = Some k"
      "dh2_agree (se_crypto ?sb) (static_priv ?sb) (epriv ?sb ?m) (static_pub ?sa) (epub ?sa ?n) = Some k"
    using agree unfolding agreement_ok_def by blast
  have t: "travels (create_public_key (epub ?sa ?n))" "travels (create_public_key (epub ?sb ?m))"
    using able by (simp_all add: able_def travels_stages(5) epub_def setting_for_def)
  have echo: "small ?echo" "small (create_echo_back ?echo)" by simp_all
  let ?p1 = "?shuttle (sender_posts pla b (Add_peer b) p)"
  note p1 = shuttle_contact [OF p ok able, unfolded spub]
  let ?a2 = "echoing ?sa b (Suc (Suc ?n)) ((set_peer_pub_key_pairs (static_pub ?sb) (epub ?sb ?m) (ephemeral_dh ?sa ?n))
    \<lparr>dh_shared := Some k\<rparr>) ?echo ?ib (static_pub ?sb) k"
  let ?b1 = "side ?sb a Public_key_exchange_handler {0, 1, 2, 3} (Suc ?m) (ephemeral_dh ?sb ?m)
    (create_public_key (epub ?sb ?m)) ?ia (static_pub ?sa)"
  let ?b2 = "side ?sb a Public_key_exchange_handler {0, 1, 2, 3, 5} (Suc ?m)
    (set_peer_pub_key_pairs (static_pub ?sa) (epub ?sa ?n) (ephemeral_dh ?sb ?m)) (create_ack 0 0) ?ia (static_pub ?sa)"
  let ?a1 = "side ?sa b Public_key_exchange_handler {0, 1, 2, 3, 5} (Suc ?n)
    (set_peer_pub_key_pairs (static_pub ?sb) (epub ?sb ?m) (ephemeral_dh ?sa ?n)) (create_ack 0 0) ?ib (static_pub ?sb)"
  have p2: "poised pla ca plb cb a b ?a2 ?b2 ([datagram_wire (create_ack 0 0)] @ [datagram_wire ?echo]) [] (?shuttle ?p1)"
  proof (rule shuttle_two [OF p1 ok travels_stages(1) _ emits_stages(1) t(1) _ emits_stages(1) t(2) _ emits_stages(1)
        travels_stages(1) _ emits_stages(2)])
    show "hears ?sb (create_ack 0 0) ?b1 x" if "side ?sb a Hello_handler {0, 2} ?m (static_dh ?sb) (create_ack 0 0) ?ia (static_pub ?sa) x" for x
      by (rule round_2 [OF se(2) that])
    show "hears ?sb (create_public_key (epub ?sa ?n)) ?b2 x" if "?b1 x" for x by (rule round_3 [OF that])
    show "hears ?sa (create_public_key (epub ?sb ?m)) ?a1 x"
      if "side ?sa b Public_key_exchange_handler {0, 1, 2, 3} (Suc ?n) (ephemeral_dh ?sa ?n)
        (create_public_key (epub ?sa ?n)) ?ib (static_pub ?sb) x" for x by (rule round_3 [OF that])
    show "hears ?sa (create_ack 0 0) ?a2 x" if "?a1 x" for x by (rule round_4 [OF that dh_fields k(2,1)])
  qed
  let ?b3 = "echoing ?sb a (Suc (Suc ?m)) ((set_peer_pub_key_pairs (static_pub ?sa) (epub ?sa ?n) (ephemeral_dh ?sb ?m))
    \<lparr>dh_shared := Some k\<rparr>) ?echo ?ia (static_pub ?sa) k"
  let ?b4 = "echoing ?sb a (Suc (Suc ?m)) ((set_peer_pub_key_pairs (static_pub ?sa) (epub ?sa ?n) (ephemeral_dh ?sb ?m))
    \<lparr>dh_shared := Some k\<rparr>) (create_echo_back ?echo) ?ia (static_pub ?sa) k"
  let ?a3 = "echoing ?sa b (Suc (Suc ?n)) ((set_peer_pub_key_pairs (static_pub ?sb) (epub ?sb ?m) (ephemeral_dh ?sa ?n))
    \<lparr>dh_shared := Some k\<rparr>) (create_echo_back ?echo) ?ib (static_pub ?sb) k"
  have p3: "poised pla ca plb cb a b (connected ?sa ?ib b k) ?b4 ([datagram_wire (create_echo_back ?echo)] @ []) []
      (?shuttle (?shuttle ?p1))"
  proof (rule shuttle_two [OF p2 [unfolded append_Cons append_Nil] ok travels_stages(1) _ emits_stages(2) travels_stages(2) _ emits_stages(2)
        travels_stages(2) _ emits_stages(2) travels_stages(3) _ emits_stages(3)])
    show "hears ?sb (create_ack 0 0) ?b3 x" if "?b2 x" for x by (rule round_4 [OF that dh_fields k(3,1)])
    show "hears ?sb ?echo ?b4 x" if "?b3 x" for x by (rule round_5 [OF that echo(1)])
    show "hears ?sa ?echo ?a3 x" if "?a2 x" for x by (rule round_5 [OF that echo(1)])
    show "hears ?sa (create_echo_back ?echo) (connected ?sa ?ib b k) x" if "?a3 x" for x by (rule round_6 [OF that])
  qed
  have "poised pla ca plb cb a b (connected ?sa ?ib b k) (connected ?sb ?ia a k) [] [] (?shuttle (?shuttle (?shuttle ?p1)))"
    by (rule shuttle_last [OF p3 [unfolded append_Cons append_Nil] ok travels_stages(3) _ emits_stages(3)]) (rule round_6)
  then show ?thesis by (auto simp: numeral_eq_Suc)
qed

end
