(* ===== verification/Service_Delivery.thy ===== *)
theory Service_Delivery
  imports Service_Handshake
begin

text \<open>
  From two services that know nothing of each other to the delivered data: what \<open>Service_Handshake\<close>
  leaves is what \<open>Service_Link\<close> starts from. Over a network that loses nothing the messages the
  first user sends are all reported to the second, one exchange of datagrams per segment.
\<close>

section \<open>Completion without loss\<close>

text \<open>The oldest bytes in flight arrive at the receiver, and the answer returns.\<close>

definition pair_pass :: "platform \<Rightarrow> platform \<Rightarrow> address \<Rightarrow> address \<Rightarrow> pair \<Rightarrow> pair" where
  "pair_pass pla plb a b p = (case pr_fwd p of [] \<Rightarrow> p | _ # _ \<Rightarrow> next_bwd pla b (next_fwd plb a p))"

definition pair_deliver :: "platform \<Rightarrow> platform \<Rightarrow> address \<Rightarrow> address \<Rightarrow> u32 \<Rightarrow> bytes \<Rightarrow> pair \<Rightarrow> pair" where
  "pair_deliver pla plb a b i data p = (pair_pass pla plb a b ^^ ((length data + 999) div 1000))
     (sender_posts pla b (Send_data b i data) p)"

lemma mirrors_next_fwd:
  assumes ok: "services_ok pla ca plb cb a b"
    and t: "tracks (setting_for pla ca) (setting_for plb cb) a b k i alone c l"
    and p: "mirrors pla ca plb cb a b i p c" and "ready p" and w: "ch_fwd c = w # fwd"
  shows "mirrors pla ca plb cb a b i (next_fwd plb a p)
      (receiver_does (setting_for plb cb) (Datagram_in w) (c\<lparr>ch_fwd := fwd\<rparr>)) \<and> ready (next_fwd plb a p)"
proof -
  let ?p = "p\<lparr>pr_fwd := fwd\<rparr>" and ?c = "c\<lparr>ch_fwd := fwd\<rparr>"
  have m: "mirrors pla ca plb cb a b i ?p ?c" using p by (simp add: mirrors_def reported_def)
  have y: "in_session (setting_for plb cb) a k (ch_rcv ?c)" using t by (simp add: tracks_def)
  have "in_flight (se_crypto (setting_for pla ca)) k i (lk_fwd l) (ch_fwd c)" "w \<in> set (ch_fwd c)"
    using t w by (simp_all add: tracks_def)
  from in_flight_member [OF this] obtain d where d: "sealed (se_crypto (setting_for pla ca)) k d w" "carried d"
    by blast
  have e: "conf_server cb \<noteq> a" "cfb_ok (se_crypto (setting_for pla ca))"
      "same_cipher (se_crypto (setting_for pla ca)) (pl_crypto plb)"
    using ok by (simp_all add: services_ok_def ends_ok_def setting_ok_def setting_for_def)
  have "u_receiving (sv_udp (pr_rcv ?p))" using \<open>ready p\<close> by (simp add: ready_def)
  moreover have "pr_fwd p = w # fwd" using p w by (simp add: mirrors_def)
  ultimately show ?thesis
    using mirrors_arrive_on [OF m e(1) y d e(2,3)] \<open>ready p\<close>
    by (simp add: next_fwd_def ready_def receiver_event_def)
qed

lemma mirrors_next_bwd:
  assumes ok: "services_ok pla ca plb cb a b"
    and t: "tracks (setting_for pla ca) (setting_for plb cb) a b k i alone c l"
    and p: "mirrors pla ca plb cb a b i p c" and "ready p" and w: "ch_bwd c = w # bwd"
  shows "mirrors pla ca plb cb a b i (next_bwd pla b p)
      (sender_does (setting_for pla ca) (Datagram_in w) (c\<lparr>ch_bwd := bwd\<rparr>)) \<and> ready (next_bwd pla b p)"
proof -
  let ?p = "p\<lparr>pr_bwd := bwd\<rparr>" and ?c = "c\<lparr>ch_bwd := bwd\<rparr>"
  have m: "mirrors pla ca plb cb a b i ?p ?c" using p by (simp add: mirrors_def reported_def)
  have x: "in_session (setting_for pla ca) b k (ch_snd ?c)" using t by (simp add: tracks_def)
  have "in_flight (se_crypto (setting_for plb cb)) k i (lk_bwd l) (ch_bwd c)" "w \<in> set (ch_bwd c)"
    using t w by (simp_all add: tracks_def)
  from in_flight_member [OF this] obtain d where d: "sealed (se_crypto (setting_for plb cb)) k d w" "carried d"
    by blast
  have e: "conf_server ca \<noteq> b" "cfb_ok (se_crypto (setting_for plb cb))"
      "same_cipher (se_crypto (setting_for plb cb)) (pl_crypto pla)"
    using ok by (simp_all add: services_ok_def ends_ok_def setting_ok_def setting_for_def same_cipher_def)
  have "u_receiving (sv_udp (pr_snd ?p))" using \<open>ready p\<close> by (simp add: ready_def)
  moreover have "pr_bwd p = w # bwd" using p w by (simp add: mirrors_def)
  ultimately show ?thesis
    using mirrors_return_on [OF m e(1) x d e(2,3)] \<open>ready p\<close>
    by (simp add: next_bwd_def ready_def sender_event_def on_udp_def case_prod_beta) (simp add: flushed_def)
qed

lemma mirrors_pass:
  assumes ok: "services_ok pla ca plb cb a b"
    and t: "tracks (setting_for pla ca) (setting_for plb cb) a b k i True c l"
    and p: "mirrors pla ca plb cb a b i p c" and "ready p"
  shows "mirrors pla ca plb cb a b i (pair_pass pla plb a b p) (pass (setting_for pla ca) (setting_for plb cb) c)
    \<and> ready (pair_pass pla plb a b p)"
proof (cases "ch_fwd c")
  case Nil
  then show ?thesis using p \<open>ready p\<close> by (simp add: pair_pass_def pass_def mirrors_def)
next
  case (Cons w fwd)
  let ?c = "receiver_does (setting_for plb cb) (Datagram_in w) (c\<lparr>ch_fwd := fwd\<rparr>)"
  have ends: "ends_ok (setting_for pla ca) (setting_for plb cb)" using ok by (simp add: services_ok_def)
  obtain l' where l': "tracks (setting_for pla ca) (setting_for plb cb) a b k i True ?c l'"
    using tracks_forward [OF ends t Cons] by blast
  have q: "mirrors pla ca plb cb a b i (next_fwd plb a p) ?c" "ready (next_fwd plb a p)"
    using mirrors_next_fwd [OF ok t p \<open>ready p\<close> Cons] by simp_all
  have fwd: "pr_fwd p = w # fwd" using p Cons by (simp add: mirrors_def)
  show ?thesis
  proof (cases "ch_bwd ?c")
    case Nil
    then show ?thesis using q Cons fwd by (simp add: pair_pass_def pass_def next_bwd_def mirrors_def)
  next
    case (Cons v bwd)
    from mirrors_next_bwd [OF ok l' q Cons] Cons \<open>ch_fwd c = w # fwd\<close> fwd show ?thesis
      by (simp add: pair_pass_def pass_def)
  qed
qed

lemma mirrors_deliver:
  assumes ok: "services_ok pla ca plb cb a b"
    and t: "tracks (setting_for pla ca) (setting_for plb cb) a b k i True c l"
    and p: "mirrors pla ca plb cb a b i p c" "ready p"
  shows "mirrors pla ca plb cb a b i (pair_deliver pla plb a b i data p)
      (deliver (setting_for pla ca) (setting_for plb cb) i data c) \<and> ready (pair_deliver pla plb a b i data p)"
proof -
  have ends: "ends_ok (setting_for pla ca) (setting_for plb cb)" using ok by (simp add: services_ok_def)
  let ?P = "\<lambda>q d. mirrors pla ca plb cb a b i q d \<and> ready q
    \<and> (\<exists>l. tracks (setting_for pla ca) (setting_for plb cb) a b k i True d l)"
  have one: "?P (pair_pass pla plb a b q) (pass (setting_for pla ca) (setting_for plb cb) d)" if "?P q d" for q d
    using that mirrors_pass [OF ok] tracks_pass [OF ends] by blast
  have "?P ((pair_pass pla plb a b ^^ n) q) ((pass (setting_for pla ca) (setting_for plb cb) ^^ n) d)"
    if "?P q d" for n q d
  proof (induction n)
    case 0
    then show ?case using that by simp
  next
    case (Suc n)
    then show ?case using one [OF Suc] by simp
  qed
  moreover have "?P (sender_posts pla b (Send_data b i data) p) (dispatch (setting_for pla ca) i data c)"
    using mirrors_dispatch [OF ok t p] tracks_dispatch [OF ends t] by blast
  ultimately show ?thesis unfolding pair_deliver_def deliver_def by blast
qed

lemma mirrors_delivers:
  assumes ok: "services_ok pla ca plb cb a b"
  shows "tracks (setting_for pla ca) (setting_for plb cb) a b k i True c l \<Longrightarrow> mirrors pla ca plb cb a b i p c \<Longrightarrow>
    ready p \<Longrightarrow> mirrors pla ca plb cb a b i (fold (pair_deliver pla plb a b i) msgs p)
      (fold (deliver (setting_for pla ca) (setting_for plb cb) i) msgs c)"
proof (induction msgs arbitrary: p c l)
  case (Cons data msgs)
  have "ends_ok (setting_for pla ca) (setting_for plb cb)" using ok by (simp add: services_ok_def)
  from tracks_deliver [OF this Cons.prems(1)] mirrors_deliver [OF ok Cons.prems] show ?case
    using Cons.IH by fastforce
qed simp

text \<open>The user opens the stream and sends the messages, each when the one before is acknowledged.\<close>

lemma services_deliver_all:
  assumes ok: "services_ok pla ca plb cb a b"
    and "joined pla ca b n k (pr_snd p)" and "joined plb cb a m k (pr_rcv p)"
    and "pr_fwd p = []" "pr_bwd p = []" "reported a i p = []" and "length (concat msgs) < 2 ^ 32"
  shows "reported a i (fold (pair_deliver pla plb a b i) msgs (sender_posts pla b (Add_stream b i) p)) = concat msgs"
proof -
  obtain x y where xy: "connected (setting_for pla ca) n b k x" "connected (setting_for plb cb) m a k y"
      "mirrors pla ca plb cb a b i (sender_posts pla b (Add_stream b i) p) (open_channel (setting_for pla ca) i x y)"
      "ready (sender_posts pla b (Add_stream b i) p)"
    using mirrors_open [OF assms(1-6)] by blast
  have ends: "ends_ok (setting_for pla ca) (setting_for plb cb)" using ok by (simp add: services_ok_def)
  from mirrors_delivers [OF ok tracks_open [OF xy(1,2)] xy(3,4)] delivers_all [OF ends xy(1,2) assms(7)]
  show ?thesis by (simp add: mirrors_def)
qed

section \<open>End to end\<close>

lemma poised_joined:
  assumes "poised pla ca plb cb a b (connected (setting_for pla ca) n b k) (connected (setting_for plb cb) m a k) [] [] q"
  shows "joined pla ca b n k (pr_snd q)" "joined plb cb a m k (pr_rcv q)"
    "pr_fwd q = []" "pr_bwd q = []" "reported a i q = []"
  using assms by (auto simp: poised_def stands_def joined_def reported_def)

text \<open>
  C1: From the first hello to the delivered data, between two whole services: the user of one adds
  the other, which has never heard of it. After four undisturbed round trips the two are joined by one
  session key and nothing of the handshake is in flight. Of the fewer than 2^32 bytes the user then
  sends at once on a stream \<open>i\<close> opened for it, the other user is told exactly a prefix in every run
  of the following steps, and everything once the sender's stream has nothing left. The network loses, repeats and reorders
  the datagrams the two have sent since then (no older one appears again); others send to the services what they
  like; timers of the two peers' streams fire, also late, and so do timers of other peers; the users take messages from the rings, add
  and delete other peers, and open, close and use other streams, also of this peer. Excluded are, at either side, adding or
  deleting this peer, adding, deleting or sending on stream \<open>i\<close> again, handshake timers of this peer that fire late, and a timer of
  stream \<open>i\<close> at the receiver. Over a network that loses nothing any sequence of messages on one stream, each sent when the exchanges
  of the one before are done, arrives complete and in order.
\<close>

theorem services_end_to_end:
  assumes "strangers pla ca plb cb a b p" and "services_ok pla ca plb cb a b"
    and "able pla ca b" and "able plb cb a"
    and "mutual_trust (setting_for pla ca) (setting_for plb cb)"
    and "agreement_ok (setting_for pla ca) (setting_for plb cb)"
  shows "\<exists>q k. (shuttle pla plb a b ^^ 4) (sender_posts pla b (Add_peer b) p) = q
    \<and> joined pla ca b (conf_id cb) k (pr_snd q) \<and> joined plb cb a (conf_id ca) k (pr_rcv q)
    \<and> (\<forall>i data r. length data < 2 ^ 32 \<and> pair_run pla plb a b i (pair_dispatch pla b i data q) r \<longrightarrow>
        (\<exists>j. reported a i r = take j data)
        \<and> (\<forall>peer s. udp_get_peer b (sv_udp (pr_snd r)) = Some peer \<and> peer_get_stream i peer = Some s
             \<and> st_send_queue s = [] \<longrightarrow> reported a i r = data))
    \<and> (\<forall>i msgs. length (concat msgs) < 2 ^ 32 \<longrightarrow>
        reported a i (fold (pair_deliver pla plb a b i) msgs (sender_posts pla b (Add_stream b i) q)) = concat msgs)"
proof -
  let ?q = "(shuttle pla plb a b ^^ 4) (sender_posts pla b (Add_peer b) p)"
  obtain k where "poised pla ca plb cb a b (connected (setting_for pla ca) (conf_id cb) b k)
      (connected (setting_for plb cb) (conf_id ca) a k) [] [] ?q"
    using services_meet [OF assms] by blast
  note q = poised_joined [OF this]
  show ?thesis
    using q(1,2) services_deliver [OF assms(2) q] services_deliver_all [OF assms(2) q] by blast
qed

text \<open>Two fresh services of the sample configurations.\<close>

definition sample_services :: pair where
  "sample_services = \<lparr>pr_snd = service_new (sample_conf [1] [2] [3] [4]),
     pr_rcv = service_new (sample_conf [3] [4] [1] [2]), pr_fwd = [], pr_bwd = [], pr_told = []\<rparr>"

lemma sample_settings:
  "setting_for sample_platform (sample_conf [1] [2] [3] [4]) = sample_a"
  "setting_for sample_platform (sample_conf [3] [4] [1] [2]) = sample_b"
  by (simp_all add: setting_for_def sample_a_def sample_b_def sample_setting_def sample_platform_def)

lemma sample_alone:
  assumes "setting_ok (setting_for sample_platform conf)"
  shows "alone_with sample_platform conf b (service_new conf)"
proof -
  have "service_ok sample_platform conf (service_new conf)"
    using service_life_ok [OF _ service_life.Begin] assms by (simp add: setting_for_def)
  then show ?thesis
    by (simp add: alone_with_def service_new_def udp_new_def register_filter_def act udp_get_peer_def ring_new_def)
qed

lemma sample_strangers:
  "strangers sample_platform (sample_conf [1] [2] [3] [4]) sample_platform (sample_conf [3] [4] [1] [2])
    (mk_address [] 1) (mk_address [] 2) sample_services"
  using sample_pair(1,2) sample_alone by (simp add: strangers_def sample_services_def sample_settings)

lemma services_end_to_end_witness:
  "\<exists>q k. (shuttle sample_platform sample_platform (mk_address [] 1) (mk_address [] 2) ^^ 4)
      (sender_posts sample_platform (mk_address [] 2) (Add_peer (mk_address [] 2)) sample_services) = q
    \<and> joined sample_platform (sample_conf [1] [2] [3] [4]) (mk_address [] 2) [3] k (pr_snd q)
    \<and> reported (mk_address [] 1) 5 (fold (pair_deliver sample_platform sample_platform (mk_address [] 1) (mk_address [] 2) 5)
        [[1, 2], [3]] (sender_posts sample_platform (mk_address [] 2) (Add_stream (mk_address [] 2) 5) q)) = [1, 2, 3]"
proof -
  let ?ca = "sample_conf [1] [2] [3] [4]" and ?cb = "sample_conf [3] [4] [1] [2]"
  have id: "conf_id ?ca = [1]" "conf_id ?cb = [3]" "conf_server ?ca = mk_address [] 0" "conf_server ?cb = mk_address [] 0"
    by (simp_all add: sample_conf_def configuration_new_def)
  have ok: "services_ok sample_platform ?ca sample_platform ?cb (mk_address [] 1) (mk_address [] 2)"
    using sample_ends by (simp add: services_ok_def sample_settings id mk_address_def)
  have able: "able sample_platform ?ca (mk_address [] 2)" "able sample_platform ?cb (mk_address [] 1)"
    by (simp_all add: able_def id sample_platform_def sample_crypto_def buffer_size_def)
  let ?p = "sender_posts sample_platform (mk_address [] 2) (Add_peer (mk_address [] 2)) sample_services"
  obtain q k where q: "(shuttle sample_platform sample_platform (mk_address [] 1) (mk_address [] 2) ^^ 4) ?p = q"
      "joined sample_platform ?ca (mk_address [] 2) (conf_id ?cb) k (pr_snd q)"
      and all: "\<And>i msgs. length (concat msgs) < 2 ^ 32 \<Longrightarrow>
        reported (mk_address [] 1) i (fold (pair_deliver sample_platform sample_platform (mk_address [] 1) (mk_address [] 2) i) msgs
          (sender_posts sample_platform (mk_address [] 2) (Add_stream (mk_address [] 2) i) q)) = concat msgs"
    using services_end_to_end [OF sample_strangers ok able, unfolded sample_settings, OF sample_pair(3,4)] by metis
  have "length (concat [[1, 2], [3::byte]]) < 2 ^ 32" by simp
  from all [OF this, of 5] q show ?thesis unfolding id by (metis append_Cons append_Nil append_Nil2 concat.simps)
qed

end
