(* ===== verification/Wire_Message.thy ===== *)
theory Wire_Message
  imports Prelude
begin

text \<open>
  \<^verbatim>\<open>common/Message.hpp\<close>: the messages exchanged with the relay and the incremental decoder
  \<^verbatim>\<open>MessageCtx\<close>. MessagePack is third-party: packing one message and unpacking the first object
  of a buffer are parameters (record \<open>codec\<close>), the loop of \<^verbatim>\<open>Feed\<close> over them is modelled, and
  what it relies on is the predicate \<open>framed\<close>.
\<close>

section \<open>Messages\<close>

datatype message_tag =
    INVALID | NOP | PING | PONG | LIST_PEERS | PEER_LIST | SEND_MSG | PEER_MSG
  | WANT_TO_CONNECT | CONNECT_KEY | CONNECTED_BY

record peer_addr =
  pa_ip :: bytes
  pa_port :: u16

record wire_message =
  wm_type :: message_tag
  wm_dst :: bytes
  wm_src :: bytes
  wm_bytes :: bytes
  wm_peer_list :: "peer_addr list"
  wm_to_connect :: peer_addr

definition wire_message_new :: wire_message where
  "wire_message_new = \<lparr>wm_type = INVALID, wm_dst = [], wm_src = [], wm_bytes = [], wm_peer_list = [],
     wm_to_connect = \<lparr>pa_ip = [], pa_port = 0\<rparr>\<rparr>"

definition create_message :: "message_tag \<Rightarrow> bytes \<Rightarrow> wire_message" where
  "create_message t data = wire_message_new\<lparr>wm_type := t, wm_bytes := data\<rparr>"

section \<open>The incremental decoder\<close>

text \<open>
  The outcome of \<^verbatim>\<open>next\<close> on a non-empty buffer: no complete object yet, an exception (malformed
  bytes, or an object that is not a \<^verbatim>\<open>Message\<close>), or a message that ends \<open>n\<close> bytes after the
  first byte of the buffer.
\<close>

datatype unpacked = Incomplete | Malformed err | Object wire_message nat

record codec =
  cd_pack :: "wire_message \<Rightarrow> bytes"
  cd_unpack :: "bytes \<Rightarrow> unpacked"
  cd_json :: "(bytes \<times> bytes list) list \<Rightarrow> bytes"

text \<open>The loop over \<^verbatim>\<open>unp.next(result)\<close>; the bytes left over stay in the unpacker.\<close>

function unpack_loop :: "codec \<Rightarrow> bytes \<Rightarrow> (err + wire_message list) \<times> bytes" where
  "unpack_loop cd [] = (Inr [], [])"
| "unpack_loop cd (b # bs) =
     (case cd_unpack cd (b # bs) of
        Incomplete \<Rightarrow> (Inr [], b # bs)
      | Malformed e \<Rightarrow> (Inl e, b # bs)
      | Object m n \<Rightarrow>
          (case unpack_loop cd (drop n bs) of
             (Inl e, rest) \<Rightarrow> (Inl e, rest)
           | (Inr ms, rest) \<Rightarrow> (Inr (m # ms), rest)))"
  by pat_completeness auto
termination
  by (relation "measure (\<lambda>(cd, bs). length bs)") (auto simp: le_imp_less_Suc)

definition feed :: "codec \<Rightarrow> bytes \<Rightarrow> (bytes, wire_message list) action" where
  "feed cd data = (\<lambda>buf. unpack_loop cd (buf @ data))"

text \<open>A sequence of reads fed one after the other, their messages collected.\<close>

fun feed_all :: "codec \<Rightarrow> bytes list \<Rightarrow> (bytes, wire_message list) action" where
  "feed_all cd [] = ret []"
| "feed_all cd (chunk # chunks) =
     seq (feed cd chunk) (\<lambda>ms. seq (feed_all cd chunks) (\<lambda>ns. ret (ms @ ns)))"

text \<open>
  A message is framed when its packed form is recognised whatever follows it, and nothing is
  recognised in a proper part of it.
\<close>

definition framed :: "codec \<Rightarrow> wire_message \<Rightarrow> bool" where
  "framed cd m \<longleftrightarrow> cd_pack cd m \<noteq> []
     \<and> (\<forall>rest. cd_unpack cd (cd_pack cd m @ rest) = Object m (length (cd_pack cd m) - 1))
     \<and> (\<forall>n < length (cd_pack cd m). n > 0 \<longrightarrow> cd_unpack cd (take n (cd_pack cd m)) = Incomplete)"

definition packed :: "codec \<Rightarrow> wire_message list \<Rightarrow> bytes" where
  "packed cd ms = concat (map (cd_pack cd) ms)"

lemma packed_simps [simp]:
  "packed cd [] = []"
  "packed cd (m # ms) = cd_pack cd m @ packed cd ms"
  by (simp_all add: packed_def)

lemma unpack_one:
  assumes "framed cd m"
  shows "unpack_loop cd (cd_pack cd m @ rest) =
    (case unpack_loop cd rest of (Inl e, r) \<Rightarrow> (Inl e, r) | (Inr ms, r) \<Rightarrow> (Inr (m # ms), r))"
proof -
  obtain b bs where eq: "cd_pack cd m = b # bs" using assms by (cases "cd_pack cd m") (auto simp: framed_def)
  have "cd_unpack cd (b # bs @ rest) = Object m (length bs)"
    using assms unfolding framed_def eq by simp
  then show ?thesis by (simp add: eq)
qed

lemma unpack_part:
  assumes "framed cd m" and "n < length (cd_pack cd m)"
  shows "unpack_loop cd (take n (cd_pack cd m)) = (Inr [], take n (cd_pack cd m))"
proof (cases "take n (cd_pack cd m)")
  case (Cons b bs)
  then have "n > 0" by (cases n) auto
  then have "cd_unpack cd (b # bs) = Incomplete" using assms Cons by (metis framed_def)
  then show ?thesis using Cons by simp
next
  case Nil
  then show ?thesis by (simp only: unpack_loop.simps)
qed

text \<open>
  Any prefix of a packed sequence decodes to some of its first messages and leaves the bytes of
  the next one that have arrived.
\<close>

lemma unpack_prefix:
  assumes "\<forall>m\<in>set ms. framed cd m" and "xs @ ys = packed cd ms"
  shows "\<exists>done todo rest. ms = done @ todo \<and> unpack_loop cd xs = (Inr done, rest)
    \<and> rest @ ys = packed cd todo \<and> (ys = [] \<longrightarrow> todo = [])"
  using assms
proof (induction ms arbitrary: xs)
  case Nil
  then show ?case by auto
next
  case (Cons m ms)
  let ?p = "cd_pack cd m"
  have fr: "framed cd m" using Cons.prems(1) by simp
  show ?case
  proof (cases "length xs < length ?p")
    case True
    then have "xs = take (length xs) ?p"
      using Cons.prems(2) by (metis append_eq_conv_conj nat_less_le packed_simps(2) take_append diff_is_0_eq take_0 append_Nil2)
    then have "unpack_loop cd xs = (Inr [], xs)" using unpack_part [OF fr True] by simp
    moreover have "ys \<noteq> []" using True Cons.prems(2) by auto
    ultimately show ?thesis using Cons.prems(2) by (intro exI [of _ "[]"] exI [of _ "m # ms"] exI [of _ xs]) simp
  next
    case False
    then have len: "length ?p \<le> length xs" by simp
    have "take (length ?p) (xs @ ys) = ?p" by (simp add: Cons.prems(2))
    then have "take (length ?p) xs = ?p" using len by simp
    then obtain zs where xs: "xs = ?p @ zs" by (metis append_take_drop_id)
    then have "zs @ ys = packed cd ms" using Cons.prems(2) by simp
    then obtain d t r where ih: "ms = d @ t" "unpack_loop cd zs = (Inr d, r)"
        "r @ ys = packed cd t" "ys = [] \<longrightarrow> t = []"
      using Cons.IH Cons.prems(1) by (metis list.set_intros(2))
    then have "unpack_loop cd xs = (Inr (m # d), r)" using unpack_one [OF fr, of zs] xs by simp
    then show ?thesis using ih by (intro exI [of _ "m # d"] exI [of _ t]) simp
  qed
qed

lemma feed_all_packed:
  assumes "\<forall>m\<in>set ms. framed cd m" and "buf @ concat chunks = packed cd ms"
    and "chunks = [] \<longrightarrow> ms = []"
  shows "feed_all cd chunks buf = (Inr ms, [])"
  using assms
proof (induction chunks arbitrary: ms buf)
  case Nil
  then show ?case by (simp add: act)
next
  case (Cons c cs)
  have "(buf @ c) @ concat cs = packed cd ms" using Cons.prems(2) by simp
  then obtain d t r where pre: "ms = d @ t" "unpack_loop cd (buf @ c) = (Inr d, r)"
      "r @ concat cs = packed cd t" "concat cs = [] \<longrightarrow> t = []"
    using unpack_prefix [OF Cons.prems(1)] by blast
  then have "feed_all cd cs r = (Inr t, [])"
    using Cons.IH [of t r] Cons.prems(1) by auto
  then show ?case using pre by (simp add: act feed_def)
qed

text \<open>However a packed sequence is cut into reads, a fresh decoder yields its messages in order.\<close>

lemma feed_chunks:
  assumes "\<forall>m\<in>set ms. framed cd m" and "concat chunks = packed cd ms"
  shows "feed_all cd chunks [] = (Inr ms, [])"
proof (rule feed_all_packed)
  show "chunks = [] \<longrightarrow> ms = []"
  proof
    assume "chunks = []"
    then have "packed cd ms = []" using assms(2) by simp
    then show "ms = []" using assms(1) by (cases ms) (auto simp: framed_def)
  qed
qed (use assms in simp_all)

text \<open>A codec for messages that only carry bytes: a length byte, then the bytes.\<close>

definition sample_codec :: codec where
  "sample_codec = \<lparr>
     cd_pack = (\<lambda>m. word_of_nat (length (wm_bytes m)) # wm_bytes m),
     cd_unpack = (\<lambda>buf. case buf of [] \<Rightarrow> Incomplete | n # bs \<Rightarrow>
       if length bs < unat n then Incomplete else Object (create_message NOP (take (unat n) bs)) (unat n)),
     cd_json = (\<lambda>_. [])\<rparr>"

lemma sample_framed: "length data < 256 \<Longrightarrow> framed sample_codec (create_message NOP data)"
  by (auto simp: framed_def sample_codec_def create_message_def unat_of_nat take_Cons')

end
