(* ===== verification/Serial_Writer.thy ===== *)
theory Serial_Writer
  imports Prelude
begin

text \<open>
  The interface of a queue that hands one message at a time to an asynchronous stream, which the
  relay session, the message writer of the registry server and the message sender of the gRPC
  client implement: \<open>put\<close> accepts a message, \<open>complete\<close> is the completion of the write under way.
\<close>

datatype 'm serial_event = Put 'm | Done

definition serial_step :: "('m \<Rightarrow> 's \<Rightarrow> 's) \<Rightarrow> ('s \<Rightarrow> 's) \<Rightarrow> ('s \<Rightarrow> bool) \<Rightarrow> 'm serial_event \<Rightarrow> 's \<Rightarrow> 's" where
  "serial_step put complete busy e s = (case e of
     Put m \<Rightarrow> put m s | Done \<Rightarrow> if busy s then complete s else s)"

fun puts :: "'m serial_event list \<Rightarrow> 'm list" where
  "puts [] = []"
| "puts (Put m # es) = m # puts es"
| "puts (Done # es) = puts es"

locale serial_writer =
  fixes put :: "'m \<Rightarrow> 's \<Rightarrow> 's"
    and complete :: "'s \<Rightarrow> 's"
    and busy :: "'s \<Rightarrow> bool"
    and sent :: "'s \<Rightarrow> 'b list"
    and queued :: "'s \<Rightarrow> 'b list"
    and form :: "'m \<Rightarrow> 'b"
    and ok :: "'s \<Rightarrow> bool"
  assumes ok_put: "ok s \<Longrightarrow> ok (put m s)"
    and ok_complete: "ok s \<Longrightarrow> busy s \<Longrightarrow> ok (complete s)"
    and put_accepts: "ok s \<Longrightarrow> sent (put m s) @ queued (put m s) = (sent s @ queued s) @ [form m]"
    and complete_keeps: "ok s \<Longrightarrow> busy s \<Longrightarrow> sent (complete s) @ queued (complete s) = sent s @ queued s"
    and complete_idle: "ok s \<Longrightarrow> busy s \<Longrightarrow> queued s = [] \<Longrightarrow> \<not> busy (complete s)"
    and complete_next: "ok s \<Longrightarrow> busy s \<Longrightarrow> queued s = x # xs \<Longrightarrow> busy (complete s) \<and> queued (complete s) = xs"
    and idle_empty: "ok s \<Longrightarrow> \<not> busy s \<Longrightarrow> queued s = []"
begin

lemma serial_step_keeps:
  "ok s \<Longrightarrow> ok (serial_step put complete busy e s)
    \<and> sent (serial_step put complete busy e s) @ queued (serial_step put complete busy e s)
      = (sent s @ queued s) @ map form (puts [e])"
  by (cases e) (simp_all add: serial_step_def ok_put ok_complete put_accepts complete_keeps)

lemma puts_Cons: "puts (e # es) = puts [e] @ puts es"
  by (cases e) simp_all

text \<open>Nothing is lost, doubled or reordered.\<close>

lemma run_keeps:
  "ok s \<Longrightarrow> ok (fold (serial_step put complete busy) es s)
    \<and> sent (fold (serial_step put complete busy) es s) @ queued (fold (serial_step put complete busy) es s)
      = (sent s @ queued s) @ map form (puts es)"
proof (induction es arbitrary: s)
  case Nil
  then show ?case by simp
next
  case (Cons e es)
  let ?s = "serial_step put complete busy e s"
  have "ok ?s" "sent ?s @ queued ?s = (sent s @ queued s) @ map form (puts [e])"
    using serial_step_keeps [OF Cons.prems] by simp_all
  then show ?case using Cons.IH [of ?s] by (simp add: puts_Cons [of e es])
qed

text \<open>Completions, one more than there are messages queued, drain the queue.\<close>

lemma completions_drain:
  "ok s \<Longrightarrow> busy s \<Longrightarrow> n = length (queued s) \<Longrightarrow>
    \<not> busy ((complete ^^ Suc n) s) \<and> ok ((complete ^^ Suc n) s)
    \<and> sent ((complete ^^ Suc n) s) = sent s @ queued s"
proof (induction n arbitrary: s)
  case 0
  then have "queued s = []" by simp
  then show ?case
    using 0 complete_idle [of s] ok_complete [of s] idle_empty [of "complete s"] complete_keeps [of s] by simp
next
  case (Suc n)
  then obtain x xs where xs: "queued s = x # xs" by (cases "queued s") auto
  have "busy (complete s)" "queued (complete s) = xs" "ok (complete s)"
    using Suc.prems complete_next [OF Suc.prems(1,2) xs] ok_complete by simp_all
  then show ?case
    using Suc.IH [of "complete s"] Suc.prems xs complete_keeps [of s] by (simp add: funpow_swap1)
qed

lemma idle_all_sent: "ok s \<Longrightarrow> \<not> busy s \<Longrightarrow> sent s = sent s @ queued s"
  by (simp add: idle_empty)

end

end
