(* ===== verification/Relay.thy ===== *)
theory Relay
  imports Std_Map Wire_Message Serial_Writer
begin

text \<open>
  \<^verbatim>\<open>server/server.cpp\<close> and the \<^verbatim>\<open>session\<close> class of \<^verbatim>\<open>server/peer.h\<close>: the relay that passes
  messages between TLS sessions. Sessions live in a store of objects, since they write to each
  other through weak pointers in a shared table; a weak pointer is the number of its object.
  Pending operations of the socket are flags of the session, which they keep alive. TLS delivers
  the common names of the certificate as an argument. The bytes of a write are taken when it
  starts; the source's buffer is a local variable, so a write the socket does not finish at once
  reads freed memory.
\<close>

section \<open>Sessions\<close>

record session =
  ss_addr :: bytes
  ss_cn :: "bytes list"
  ss_ctx :: bytes                        \<comment> \<open>bytes the decoder still holds\<close>
  ss_writing_started :: bool
  ss_to_write :: "wire_message list"
  ss_handshaking :: bool                 \<comment> \<open>a handshake is pending\<close>
  ss_reading :: bool                     \<comment> \<open>a read is pending\<close>
  ss_pending :: bool                     \<comment> \<open>a write is pending\<close>
  ss_written :: "bytes list"             \<comment> \<open>handed to the socket so far\<close>

text \<open>The constructor leaves \<^verbatim>\<open>writing_started_\<close> as it finds it in memory, \<open>garbage\<close>.\<close>

definition session_new :: "bool \<Rightarrow> session" where
  "session_new garbage = \<lparr>ss_addr = [], ss_cn = [], ss_ctx = [], ss_writing_started = garbage,
     ss_to_write = [], ss_handshaking = False, ss_reading = False, ss_pending = False, ss_written = []\<rparr>"

definition do_write :: "codec \<Rightarrow> session \<Rightarrow> session" where
  "do_write cd s = (case ss_to_write s of
     [] \<Rightarrow> s\<lparr>ss_writing_started := False\<rparr>
   | m # ms \<Rightarrow> s\<lparr>ss_writing_started := True, ss_to_write := ms, ss_written := ss_written s @ [cd_pack cd m],
                ss_pending := True\<rparr>)"

definition write_message :: "codec \<Rightarrow> wire_message \<Rightarrow> session \<Rightarrow> session" where
  "write_message cd m s =
     (let s = s\<lparr>ss_to_write := ss_to_write s @ [m]\<rparr>
      in if \<not> ss_writing_started s then do_write cd s else s)"

text \<open>The completion handler of the pending write.\<close>

definition write_done :: "codec \<Rightarrow> bool \<Rightarrow> session \<Rightarrow> session" where
  "write_done cd failed s =
     (if ss_pending s then
        (let s = s\<lparr>ss_pending := False\<rparr> in if \<not> failed then do_write cd s else s)
      else s)"

definition do_handshake :: "session \<Rightarrow> session" where
  "do_handshake s = s\<lparr>ss_handshaking := True\<rparr>"

definition start :: "session \<Rightarrow> session" where
  "start s = do_handshake s"

definition do_read :: "session \<Rightarrow> session" where
  "do_read s = s\<lparr>ss_reading := True\<rparr>"

section \<open>The relay\<close>

record relay =
  rl_table :: "(bytes, nat) std_map"      \<comment> \<open>\<open>sessions_\<close>, weak pointers by address\<close>
  rl_store :: "nat \<rightharpoonup> session"          \<comment> \<open>the session objects that are alive\<close>
  rl_next :: nat

definition relay_new :: "relay" where
  "relay_new = \<lparr>rl_table = [], rl_store = (\<lambda>_. None), rl_next = 0\<rparr>"

definition on_session :: "nat \<Rightarrow> (session \<Rightarrow> session) \<Rightarrow> relay \<Rightarrow> relay" where
  "on_session i f r = (case rl_store r i of
     None \<Rightarrow> r | Some s \<Rightarrow> r\<lparr>rl_store := (rl_store r)(i \<mapsto> f s)\<rparr>)"

text \<open>The completion handler of \<^verbatim>\<open>do_accept\<close>: a new session starts its handshake.\<close>

definition accept_done :: "bool \<Rightarrow> bool \<Rightarrow> relay \<Rightarrow> relay" where
  "accept_done failed garbage r =
     (if \<not> failed then
        r\<lparr>rl_store := (rl_store r)(rl_next r \<mapsto> start (session_new garbage)), rl_next := Suc (rl_next r)\<rparr>
      else r)"

text \<open>The completion handler of the handshake; \<^verbatim>\<open>emplace\<close> keeps an entry that is there.\<close>

definition handshake_done :: "bool \<Rightarrow> bytes list \<Rightarrow> bytes \<Rightarrow> nat \<Rightarrow> relay \<Rightarrow> relay" where
  "handshake_done failed cn addr i r =
     (let r = on_session i (\<lambda>s. s\<lparr>ss_handshaking := False\<rparr>) r in
      if \<not> failed then
        (let r = on_session i (\<lambda>s. s\<lparr>ss_cn := cn, ss_addr := addr\<rparr>) r;
             r = r\<lparr>rl_table := map_insert addr i (rl_table r)\<rparr>
         in on_session i do_read r)
      else r)"

text \<open>\<^verbatim>\<open>front()\<close> of an empty list is undefined.\<close>

definition front :: "bytes list \<Rightarrow> err + bytes" where
  "front xs = (case xs of [] \<Rightarrow> Inl Undefined | x # _ \<Rightarrow> Inr x)"

text \<open>The JSON object of the sessions that are still alive, in key order.\<close>

definition live_sessions :: "relay \<Rightarrow> (bytes \<times> bytes list) list" where
  "live_sessions r = concat (map (\<lambda>(addr, i). case rl_store r i of
     None \<Rightarrow> [] | Some s \<Rightarrow> [(addr, ss_cn s)]) (rl_table r))"

definition handle_message :: "codec \<Rightarrow> nat \<Rightarrow> wire_message \<Rightarrow> (relay, unit) action" where
  "handle_message cd i m =
     (case wm_type m of
        PING \<Rightarrow> modify (on_session i (write_message cd (create_message PONG [])))
      | SEND_MSG \<Rightarrow> (\<lambda>r.
          case map_of (rl_table r) (wm_dst m) of
            None \<Rightarrow> (Inr (), r)
          | Some j \<Rightarrow> (case (rl_store r i, rl_store r j) of
              (Some s, Some t) \<Rightarrow>
                seq (lift (front (ss_cn s))) (\<lambda>src.
                seq (lift (front (ss_cn t))) (\<lambda>dst.
                modify (on_session j (write_message cd
                  ((create_message PEER_MSG (wm_bytes m))\<lparr>wm_src := src, wm_dst := dst\<rparr>))))) r
            | _ \<Rightarrow> (Inr (), r)))
      | LIST_PEERS \<Rightarrow> (\<lambda>r.
          (Inr (), on_session i (write_message cd (create_message PEER_LIST (cd_json cd (live_sessions r)))) r))
      | _ \<Rightarrow> ret ())"

definition on_ctx :: "nat \<Rightarrow> (bytes, 'a) action \<Rightarrow> (relay, 'a) action" where
  "on_ctx i m = (\<lambda>r. case rl_store r i of
     None \<Rightarrow> (Inl Null_deref, r)
   | Some s \<Rightarrow> (case m (ss_ctx s) of (x, c) \<Rightarrow> (x, on_session i (\<lambda>s. s\<lparr>ss_ctx := c\<rparr>) r)))"

text \<open>The completion handler of the pending read.\<close>

definition read_done :: "codec \<Rightarrow> bool \<Rightarrow> bytes \<Rightarrow> nat \<Rightarrow> (relay, unit) action" where
  "read_done cd failed data i =
     andthen (modify (on_session i (\<lambda>s. s\<lparr>ss_reading := False\<rparr>)))
     (whenever (\<not> failed \<and> length data > 0)
       (seq (on_ctx i (feed cd data)) (\<lambda>msgs.
        andthen (for_each (handle_message cd i) msgs)
          (modify (on_session i do_read)))))"

text \<open>The destructor, run when no operation refers to the session any more.\<close>

definition session_destroyed :: "nat \<Rightarrow> relay \<Rightarrow> relay" where
  "session_destroyed i r = (case rl_store r i of
     None \<Rightarrow> r
   | Some s \<Rightarrow> r\<lparr>rl_store := (rl_store r)(i := None), rl_table := map_erase (ss_addr s) (rl_table r)\<rparr>)"

section \<open>The write queue of a session\<close>

datatype write_event = Write wire_message | Written bool

fun on_write_event :: "codec \<Rightarrow> write_event \<Rightarrow> session \<Rightarrow> session" where
  "on_write_event cd (Write m) s = write_message cd m s"
| "on_write_event cd (Written failed) s = write_done cd failed s"

fun to_serial :: "write_event \<Rightarrow> wire_message serial_event" where
  "to_serial (Write m) = Put m"
| "to_serial (Written failed) = Done"

fun writes :: "write_event list \<Rightarrow> wire_message list" where
  "writes [] = []"
| "writes (Write m # es) = m # writes es"
| "writes (Written b # es) = writes es"

text \<open>The bytes a session has written and those it still has to write.\<close>

definition outbound :: "codec \<Rightarrow> session \<Rightarrow> bytes" where
  "outbound cd s = concat (ss_written s) @ packed cd (ss_to_write s)"

definition queue_ok :: "session \<Rightarrow> bool" where
  "queue_ok s \<longleftrightarrow> (ss_writing_started s \<longleftrightarrow> ss_pending s) \<and> (\<not> ss_pending s \<longrightarrow> ss_to_write s = [])"

interpretation rw: serial_writer "write_message cd" "write_done cd False" ss_pending ss_written
    "\<lambda>s. map (cd_pack cd) (ss_to_write s)" "cd_pack cd" queue_ok for cd
  by unfold_locales
    (auto simp: write_message_def write_done_def do_write_def queue_ok_def Let_def split: list.splits)

lemma on_write_event_serial:
  "Written True \<notin> set es \<Longrightarrow> fold (on_write_event cd) es s =
     fold (serial_step (write_message cd) (write_done cd False) ss_pending) (map to_serial es) s"
proof (induction es arbitrary: s)
  case (Cons e es)
  then show ?case by (cases e) (auto simp: serial_step_def write_done_def Let_def)
qed simp

lemma puts_serial: "puts (map to_serial es) = writes es"
  by (induction es rule: writes.induct) auto

lemma write_events_queue:
  assumes "queue_ok s" and "Written True \<notin> set es"
  shows "queue_ok (fold (on_write_event cd) es s)"
    and "outbound cd (fold (on_write_event cd) es s) = outbound cd s @ packed cd (writes es)"
  using rw.run_keeps [OF assms(1), of cd "map to_serial es"]
  by (simp_all add: on_write_event_serial [OF assms(2)] puts_serial outbound_def packed_def
      flip: concat_append)

text \<open>A queue that nothing will start again: flagged as writing with no write pending.\<close>

definition stalled :: "session \<Rightarrow> bool" where
  "stalled s \<longleftrightarrow> ss_writing_started s \<and> \<not> ss_pending s"

lemma stalled_event:
  "stalled s \<Longrightarrow> stalled (on_write_event cd e s) \<and> ss_written (on_write_event cd e s) = ss_written s"
  by (cases e) (auto simp: stalled_def write_message_def write_done_def Let_def)

lemma stalled_events:
  "stalled s \<Longrightarrow> ss_written (fold (on_write_event cd) es s) = ss_written s"
proof (induction es arbitrary: s)
  case Nil
  then show ?case by simp
next
  case (Cons e es)
  then show ?case using stalled_event [of s cd e] by simp
qed

text \<open>Whatever happens, what was written and what is queued are the messages in order.\<close>

lemma do_write_order:
  "ss_written (do_write cd s) @ map (cd_pack cd) (ss_to_write (do_write cd s))
    = ss_written s @ map (cd_pack cd) (ss_to_write s)"
  by (simp add: do_write_def split: list.split)

lemma write_events_order:
  "ss_written (fold (on_write_event cd) es s) @ map (cd_pack cd) (ss_to_write (fold (on_write_event cd) es s))
    = ss_written s @ map (cd_pack cd) (ss_to_write s @ writes es)"
proof (induction es arbitrary: s)
  case (Cons e es)
  have "ss_written (on_write_event cd e s) @ map (cd_pack cd) (ss_to_write (on_write_event cd e s))
      = ss_written s @ map (cd_pack cd) (ss_to_write s @ writes [e])"
    by (cases e) (simp_all add: write_message_def write_done_def Let_def do_write_order)
  then show ?case using Cons.IH [of "on_write_event cd e s"] by (cases e) simp_all
qed simp

text \<open>
  C24: What a session has handed to \<^verbatim>\<open>async_write\<close> and what it has queued are the packed messages in the order they
  were given to it, also when writes fail. If its flag, which the constructor does not set, happens to be set, it
  never starts a write. If the flag happens to be clear and no write fails, a message is queued only while a
  write is pending, the writes pending and queued complete in one round each, and once none is
  pending a reader that receives the bytes of these writes decodes exactly the messages, however they are cut
  into reads. That the reader does receive them needs the buffers to last until their writes complete, which the
  code does not ensure: they are a local variable of \<^verbatim>\<open>do_write\<close>.
\<close>

theorem session_delivers_in_order:
  assumes "\<forall>m\<in>set (writes es). framed cd m" and s: "s = fold (on_write_event cd) es (session_new flag)"
  shows "ss_written s @ map (cd_pack cd) (ss_to_write s) = map (cd_pack cd) (writes es)
    \<and> (flag \<longrightarrow> ss_written s = [])
    \<and> (\<not> flag \<and> Written True \<notin> set es \<longrightarrow> (ss_to_write s \<noteq> [] \<longrightarrow> ss_pending s)
      \<and> (\<not> ss_pending s \<longrightarrow> (\<forall>chunks. concat chunks = concat (ss_written s) \<longrightarrow>
          feed_all cd chunks [] = (Inr (writes es), [])))
      \<and> (ss_pending s \<longrightarrow> \<not> ss_pending ((write_done cd False ^^ Suc (length (ss_to_write s))) s)
          \<and> concat (ss_written ((write_done cd False ^^ Suc (length (ss_to_write s))) s)) = packed cd (writes es)))"
proof (rule conjI [OF _ conjI]; (intro impI)?)
  show "ss_written s @ map (cd_pack cd) (ss_to_write s) = map (cd_pack cd) (writes es)"
    using write_events_order [of cd es "session_new flag"] by (simp add: s session_new_def)
  show "ss_written s = []" if flag
    using stalled_events [of "session_new True" cd es] that by (simp add: s stalled_def session_new_def)
next
  assume "\<not> flag \<and> Written True \<notin> set es"
  then have flag: "\<not> flag" and ok_writes: "Written True \<notin> set es" by simp_all
  have "queue_ok (session_new flag)" using flag by (simp add: queue_ok_def session_new_def)
  from write_events_queue [OF this ok_writes, of cd]
  have out: "outbound cd s = packed cd (writes es)" and ok: "queue_ok s"
    by (simp_all only: s) (simp add: session_new_def outbound_def)
  have "concat (ss_written s) = packed cd (writes es)" if "\<not> ss_pending s"
    using that out ok by (simp add: queue_ok_def outbound_def)
  moreover have "\<not> ss_pending ((write_done cd False ^^ Suc (length (ss_to_write s))) s)
      \<and> concat (ss_written ((write_done cd False ^^ Suc (length (ss_to_write s))) s)) = packed cd (writes es)"
    if "ss_pending s"
    using rw.completions_drain [OF ok that, of _ cd] out by (simp add: outbound_def packed_def)
  ultimately show "(ss_to_write s \<noteq> [] \<longrightarrow> ss_pending s)
      \<and> (\<not> ss_pending s \<longrightarrow> (\<forall>chunks. concat chunks = concat (ss_written s) \<longrightarrow>
          feed_all cd chunks [] = (Inr (writes es), [])))
      \<and> (ss_pending s \<longrightarrow> \<not> ss_pending ((write_done cd False ^^ Suc (length (ss_to_write s))) s)
          \<and> concat (ss_written ((write_done cd False ^^ Suc (length (ss_to_write s))) s)) = packed cd (writes es))"
    using feed_chunks [OF assms(1)] ok by (auto simp: queue_ok_def)
qed

lemma session_delivers_in_order_witness:
  "let es = [Write (create_message NOP [7]), Write (create_message NOP [8]), Written False, Written False];
       s = fold (on_write_event sample_codec) es (session_new False)
   in \<not> ss_pending s \<and> ss_written s = [[1, 7], [1, 8]]
    \<and> feed_all sample_codec [[1], [7, 1, 8]] [] = (Inr (writes es), [])"
proof -
  let ?es = "[Write (create_message NOP [7]), Write (create_message NOP [8]), Written False, Written False]"
  let ?s = "fold (on_write_event sample_codec) ?es (session_new False)"
  have run: "\<not> ss_pending ?s" "ss_written ?s = [[1, 7], [1, 8]]"
    by (simp_all add: write_message_def write_done_def do_write_def session_new_def Let_def
        sample_codec_def create_message_def)
  have "\<forall>m\<in>set (writes ?es). framed sample_codec m" by (simp add: sample_framed)
  from session_delivers_in_order [OF this refl, of False] run
  have "feed_all sample_codec [[1], [7, 1, 8]] [] = (Inr (writes ?es), [])" by (simp del: feed_all.simps)
  with run show ?thesis by (simp only: Let_def simp_thms)
qed

text \<open>
  A session never writes again once a write has failed, and never writes at all when the flag,
  which no constructor sets, happens to be set: every later message only grows its queue.
\<close>

theorem session_stalls:
  "(ss_pending s \<and> ss_writing_started s \<longrightarrow>
      ss_written (fold (on_write_event cd) es (write_done cd True s)) = ss_written s)
   \<and> ss_written (fold (on_write_event cd) es (session_new True)) = []"
proof -
  have "stalled (write_done cd True s)" if "ss_pending s" "ss_writing_started s"
    using that by (simp add: stalled_def write_done_def)
  moreover have "ss_written (write_done cd True s) = ss_written s" by (simp add: write_done_def)
  moreover have "stalled (session_new True)" by (simp add: stalled_def session_new_def)
  ultimately show ?thesis
    using stalled_events [of "write_done cd True s" cd es] stalled_events [of "session_new True" cd es]
    by (simp add: session_new_def)
qed

lemma session_stalls_witness:
  "let s = write_message sample_codec (create_message PING []) (session_new False)
   in ss_pending s \<and> ss_written (fold (on_write_event sample_codec) [Write (create_message PONG [])]
        (write_done sample_codec True s)) = ss_written s"
proof -
  let ?s = "write_message sample_codec (create_message PING []) (session_new False)"
  have "ss_pending ?s" "ss_writing_started ?s"
    by (simp_all add: write_message_def session_new_def do_write_def)
  then show ?thesis
    using session_stalls [of ?s sample_codec "[Write (create_message PONG [])]"] by (simp add: Let_def)
qed

section \<open>The table of sessions\<close>

text \<open>
  Every entry of the table points to a live session past its handshake that has the entry's key
  as its address; numbers of sessions to come are free.
\<close>

definition table_ok :: "relay \<Rightarrow> bool" where
  "table_ok r \<longleftrightarrow> sorted_keys (rl_table r)
     \<and> (\<forall>a i. map_of (rl_table r) a = Some i \<longrightarrow>
          (\<exists>s. rl_store r i = Some s \<and> ss_addr s = a \<and> \<not> ss_handshaking s))
     \<and> (\<forall>i. rl_next r \<le> i \<longrightarrow> rl_store r i = None)"

text \<open>The steps of the relay; a session is destroyed once no pending operation refers to it.\<close>

inductive relay_step :: "codec \<Rightarrow> relay \<Rightarrow> relay \<Rightarrow> bool" for cd where
  Accepted: "relay_step cd r (accept_done failed garbage r)"
| Handshaken: "rl_store r i = Some s \<Longrightarrow> ss_handshaking s \<Longrightarrow>
    relay_step cd r (handshake_done failed cn addr i r)"
| Received: "rl_store r i = Some s \<Longrightarrow> ss_reading s \<Longrightarrow> read_done cd failed data i r = (x, r') \<Longrightarrow>
    relay_step cd r r'"
| Sent: "rl_store r i = Some s \<Longrightarrow> ss_pending s \<Longrightarrow>
    relay_step cd r (on_session i (write_done cd failed) r)"
| Destroyed: "rl_store r i = Some s \<Longrightarrow> \<not> ss_handshaking s \<Longrightarrow> \<not> ss_reading s \<Longrightarrow> \<not> ss_pending s \<Longrightarrow>
    relay_step cd r (session_destroyed i r)"

inductive relay_reach :: "codec \<Rightarrow> relay \<Rightarrow> bool" for cd where
  Start: "relay_reach cd relay_new"
| Step: "relay_reach cd r \<Longrightarrow> relay_step cd r r' \<Longrightarrow> relay_reach cd r'"

text \<open>Operations that only work inside sessions leave the table, the identities and the set of sessions alone.\<close>

definition inside :: "relay \<Rightarrow> relay \<Rightarrow> bool" where
  "inside r r' \<longleftrightarrow> rl_table r' = rl_table r \<and> rl_next r' = rl_next r
     \<and> (\<forall>j. map_option (\<lambda>s. (ss_addr s, ss_cn s, ss_handshaking s)) (rl_store r' j)
          = map_option (\<lambda>s. (ss_addr s, ss_cn s, ss_handshaking s)) (rl_store r j))"

lemma inside_rel: "reflp inside" "transp inside"
  by (auto simp: inside_def reflp_def transp_def)

lemma inside_on_session:
  "(\<And>s. ss_addr (f s) = ss_addr s \<and> ss_cn (f s) = ss_cn s \<and> ss_handshaking (f s) = ss_handshaking s) \<Longrightarrow>
   inside r (on_session i f r)"
  by (auto simp: inside_def on_session_def split: option.splits)

lemma do_write_identity [simp]:
  "ss_addr (do_write cd s) = ss_addr s" "ss_cn (do_write cd s) = ss_cn s"
  "ss_handshaking (do_write cd s) = ss_handshaking s"
  by (simp_all add: do_write_def split: list.splits)

lemma write_identity [simp]:
  "ss_addr (write_message cd m s) = ss_addr s" "ss_cn (write_message cd m s) = ss_cn s"
  "ss_handshaking (write_message cd m s) = ss_handshaking s"
  "ss_addr (write_done cd b s) = ss_addr s" "ss_cn (write_done cd b s) = ss_cn s"
  "ss_handshaking (write_done cd b s) = ss_handshaking s"
  by (simp_all add: write_message_def write_done_def Let_def)

lemma inside_modify:
  "(\<And>s. ss_addr (f s) = ss_addr s \<and> ss_cn (f s) = ss_cn s \<and> ss_handshaking (f s) = ss_handshaking s) \<Longrightarrow>
   moves inside (modify (on_session i f))"
  by (simp add: moves_def act inside_on_session)

lemma inside_handle_message: "moves inside (handle_message cd i m)"
proof -
  have "inside r (snd (handle_message cd i m r))" for r
    using inside_rel(1)
    by (cases "wm_type m")
      (auto simp: handle_message_def act front_def reflp_def inside_on_session split: option.splits list.splits)
  then show ?thesis by (simp add: moves_def)
qed

lemma inside_on_ctx: "moves inside (on_ctx i m)"
  using inside_rel(1)
  by (auto simp: moves_def on_ctx_def reflp_def inside_on_session split: option.splits prod.splits)

lemma inside_read_done: "moves inside (read_done cd failed data i)"
  unfolding read_done_def
  by (intro moves_trans moves_refl moves_for_each inside_rel inside_on_ctx inside_handle_message inside_modify)
    (simp_all add: do_read_def)

lemma inside_table_ok:
  assumes "table_ok r" and "inside r r'"
  shows "table_ok r'"
proof -
  have same: "map_option (\<lambda>s. (ss_addr s, ss_cn s, ss_handshaking s)) (rl_store r' j)
      = map_option (\<lambda>s. (ss_addr s, ss_cn s, ss_handshaking s)) (rl_store r j)" for j
    using assms(2) by (simp add: inside_def)
  have "\<exists>s'. rl_store r' j = Some s' \<and> ss_addr s' = ss_addr s \<and> ss_handshaking s' = ss_handshaking s"
    if "rl_store r j = Some s" for j s
    using same [of j] that by auto
  moreover have "rl_store r' j = None" if "rl_store r j = None" for j
    using same [of j] that by simp
  ultimately show ?thesis using assms unfolding table_ok_def inside_def by metis
qed

lemma table_entry:
  assumes "table_ok r" and "map_of (rl_table r) a = Some i"
  obtains s where "rl_store r i = Some s" and "ss_addr s = a" and "\<not> ss_handshaking s"
  using assms unfolding table_ok_def by blast

lemma table_okI:
  assumes "sorted_keys (rl_table r)" and "\<And>i. rl_next r \<le> i \<Longrightarrow> rl_store r i = None"
    and "\<And>a i. map_of (rl_table r) a = Some i \<Longrightarrow>
      \<exists>s. rl_store r i = Some s \<and> ss_addr s = a \<and> \<not> ss_handshaking s"
  shows "table_ok r"
  using assms unfolding table_ok_def by blast

lemma table_fresh: "table_ok r \<Longrightarrow> rl_next r \<le> i \<Longrightarrow> rl_store r i = None"
  unfolding table_ok_def by blast

lemma table_sorted: "table_ok r \<Longrightarrow> sorted_keys (rl_table r)"
  unfolding table_ok_def by blast

lemma accept_table_ok: "table_ok r \<Longrightarrow> table_ok (accept_done failed garbage r)"
  by (fastforce simp: table_ok_def accept_done_def)

lemma handshake_table_ok:
  assumes ok: "table_ok r" and s: "rl_store r i = Some s" "ss_handshaking s"
  shows "table_ok (handshake_done failed cn addr i r)"
proof -
  let ?r = "handshake_done failed cn addr i r"
  have not_i: "map_of (rl_table r) a \<noteq> Some i" for a
    using table_entry [OF ok, of a i] s by auto
  have store: "rl_store ?r i \<noteq> None" "\<And>j. j \<noteq> i \<Longrightarrow> rl_store ?r j = rl_store r j" "rl_next ?r = rl_next r"
    and table: "rl_table ?r = (if failed then rl_table r else map_insert addr i (rl_table r))"
    and mine: "\<not> failed \<Longrightarrow> \<exists>s. rl_store ?r i = Some s \<and> ss_addr s = addr \<and> \<not> ss_handshaking s"
    using s by (simp_all add: handshake_done_def on_session_def do_read_def Let_def)
  show ?thesis
  proof (rule table_okI)
    show "sorted_keys (rl_table ?r)" using table_sorted [OF ok] by (simp add: table smap.ok_insert)
    show "rl_store ?r j = None" if "rl_next ?r \<le> j" for j
      using table_fresh [OF ok, of j] that s store by (cases "j = i") auto
    show "\<exists>s. rl_store ?r j = Some s \<and> ss_addr s = a \<and> \<not> ss_handshaking s"
      if "map_of (rl_table ?r) a = Some j" for a j
    proof (cases "map_of (rl_table r) a = Some j")
      case True
      then have "j \<noteq> i" using not_i by auto
      then show ?thesis using table_entry [OF ok True] store(2) by metis
    next
      case False
      then have "a = addr" "j = i" "\<not> failed"
        using that table_sorted [OF ok] by (auto simp: table smap.find_insert split: if_splits)
      then show ?thesis using mine by simp
    qed
  qed
qed

lemma destroyed_table_ok:
  assumes ok: "table_ok r" and s: "rl_store r i = Some s"
  shows "table_ok (session_destroyed i r)"
proof (rule table_okI)
  let ?r = "session_destroyed i r"
  have eqs: "rl_table ?r = map_erase (ss_addr s) (rl_table r)" "rl_next ?r = rl_next r"
      "rl_store ?r = (rl_store r)(i := None)"
    using s by (simp_all add: session_destroyed_def)
  show "sorted_keys (rl_table ?r)" using table_sorted [OF ok] by (simp add: eqs smap.ok_erase)
  show "rl_store ?r j = None" if "rl_next ?r \<le> j" for j
    using table_fresh [OF ok, of j] that by (simp add: eqs)
  show "\<exists>s. rl_store ?r j = Some s \<and> ss_addr s = a \<and> \<not> ss_handshaking s"
    if "map_of (rl_table ?r) a = Some j" for a j
  proof -
    have a: "a \<noteq> ss_addr s" "map_of (rl_table r) a = Some j"
      using that table_sorted [OF ok] by (auto simp: eqs smap.find_erase split: if_splits)
    then obtain t where "rl_store r j = Some t" "ss_addr t = a" "\<not> ss_handshaking t"
      using table_entry [OF ok] by metis
    moreover from this have "j \<noteq> i" using a s by auto
    ultimately show ?thesis by (simp add: eqs)
  qed
qed

lemma relay_step_ok: "relay_step cd r r' \<Longrightarrow> table_ok r \<Longrightarrow> table_ok r'"
proof (induction rule: relay_step.induct)
  case (Received r i s failed data x r')
  have "inside r r'" using inside_read_done [of cd failed data i] Received(3) by (metis moves_def snd_conv)
  then show ?case using inside_table_ok Received by blast
next
  case (Sent r i s failed)
  have "inside r (on_session i (write_done cd failed) r)" by (simp add: inside_on_session)
  then show ?case using inside_table_ok Sent by blast
qed (auto intro: accept_table_ok handshake_table_ok destroyed_table_ok)

lemma relay_reach_ok: "relay_reach cd r \<Longrightarrow> table_ok r"
proof (induction rule: relay_reach.induct)
  case Start
  show ?case by (simp add: table_ok_def relay_new_def)
next
  case (Step r r')
  then show ?case by (simp add: relay_step_ok)
qed

text \<open>With a sound table the peer list names exactly the keys of the table.\<close>

lemma live_sessions_all:
  assumes "table_ok r"
  shows "map fst (live_sessions r) = map fst (rl_table r)"
proof -
  have ok: "rl_store r i \<noteq> None" if "(a, i) \<in> set (rl_table r)" for a i
    using that assms unfolding table_ok_def by (metis sorted_find option.distinct(1))
  have "map fst (concat (map (\<lambda>(addr, i). case rl_store r i of None \<Rightarrow> [] | Some s \<Rightarrow> [(addr, ss_cn s)]) es))
      = map fst es" if "set es \<subseteq> set (rl_table r)" for es
    using that
  proof (induction es)
    case (Cons e es)
    obtain a i where e: "e = (a, i)" by (cases e)
    then obtain s where "rl_store r i = Some s" using Cons.prems ok by fastforce
    then show ?case using Cons e by simp
  qed simp
  then show ?thesis by (simp add: live_sessions_def)
qed

text \<open>
  C20: In every state the relay reaches, each entry of the session table leads to a live session
  that has finished its handshake and has that address, so locking the weak pointer never fails,
  and a peer list names every entry of the table.
\<close>

theorem relay_table_sound:
  assumes "relay_reach cd r"
  shows "(\<forall>a i. map_of (rl_table r) a = Some i \<longrightarrow>
      (\<exists>s. rl_store r i = Some s \<and> ss_addr s = a \<and> \<not> ss_handshaking s))
    \<and> map fst (live_sessions r) = map fst (rl_table r)"
  using relay_reach_ok [OF assms] live_sessions_all [of r] by (simp add: table_ok_def)

definition sample_relay :: relay where
  "sample_relay = handshake_done False [str ''bob''] (str ''b:2'') 1 (accept_done False False
     (handshake_done False [str ''alice''] (str ''a:1'') 0 (accept_done False False relay_new)))"

lemmas sample_relay_unfold = sample_relay_def handshake_done_def accept_done_def relay_new_def start_def
  do_handshake_def session_new_def on_session_def do_read_def Let_def str_def

lemma sample_reach: "relay_reach cd sample_relay"
proof -
  have a: "relay_reach cd (accept_done False False relay_new)"
    using relay_reach.Start relay_step.Accepted by (rule relay_reach.Step)
  have b: "relay_reach cd (handshake_done False [str ''alice''] (str ''a:1'') 0 (accept_done False False relay_new))"
    (is "relay_reach cd ?b")
    using a by (rule relay_reach.Step) (rule relay_step.Handshaken, simp add: sample_relay_unfold, simp)
  have c: "relay_reach cd (accept_done False False ?b)"
    using b relay_step.Accepted by (rule relay_reach.Step)
  show ?thesis unfolding sample_relay_def
    using c by (rule relay_reach.Step) (rule relay_step.Handshaken, simp add: sample_relay_unfold, simp)
qed

lemma relay_table_sound_witness:
  "map fst (live_sessions sample_relay) = [str ''a:1'', str ''b:2'']"
  using relay_table_sound [OF sample_reach]
  by (simp add: sample_relay_unfold)

text \<open>
  C21: In every state the relay reaches, a \<^verbatim>\<open>SEND_MSG\<close> from a session to a registered address puts
  one \<^verbatim>\<open>PEER_MSG\<close> with the same bytes, the sender's and the receiver's first common names as
  source and destination, on the queue of the session that has this address, and changes nothing
  else; to an address nobody has it changes nothing at all.
\<close>

theorem relay_routes:
  assumes "relay_reach cd r" and "rl_store r i = Some s" and "ss_cn s = src # names"
    and "wm_type m = SEND_MSG"
  shows "(map_of (rl_table r) (wm_dst m) = None \<longrightarrow> handle_message cd i m r = (Inr (), r))
    \<and> (\<forall>j t dst names'. map_of (rl_table r) (wm_dst m) = Some j \<and> rl_store r j = Some t
        \<and> ss_cn t = dst # names' \<longrightarrow>
      ss_addr t = wm_dst m
      \<and> handle_message cd i m r = (Inr (), r\<lparr>rl_store := (rl_store r)(j \<mapsto> write_message cd
          \<lparr>wm_type = PEER_MSG, wm_dst = dst, wm_src = src, wm_bytes = wm_bytes m, wm_peer_list = [],
           wm_to_connect = \<lparr>pa_ip = [], pa_port = 0\<rparr>\<rparr> t)\<rparr>))"
  using table_entry [OF relay_reach_ok [OF assms(1)], of "wm_dst m"] assms
  by (fastforce simp: handle_message_def act front_def on_session_def create_message_def
      wire_message_new_def)

lemma relay_routes_witness:
  "\<exists>t. rl_store sample_relay 1 = Some t \<and> ss_addr t = str ''b:2''
    \<and> handle_message sample_codec 0 ((create_message SEND_MSG [42])\<lparr>wm_dst := str ''b:2''\<rparr>) sample_relay
      = (Inr (), sample_relay\<lparr>rl_store := (rl_store sample_relay)(1 \<mapsto> write_message sample_codec
          \<lparr>wm_type = PEER_MSG, wm_dst = str ''bob'', wm_src = str ''alice'', wm_bytes = [42], wm_peer_list = [],
           wm_to_connect = \<lparr>pa_ip = [], pa_port = 0\<rparr>\<rparr> t)\<rparr>)"
proof -
  let ?m = "(create_message SEND_MSG [42])\<lparr>wm_dst := str ''b:2''\<rparr>"
  obtain s t where st: "rl_store sample_relay 0 = Some s" "ss_cn s = [str ''alice'']"
      "rl_store sample_relay 1 = Some t" "ss_cn t = [str ''bob'']"
    by (simp add: sample_relay_unfold)
  have "wm_type ?m = SEND_MSG" "wm_dst ?m = str ''b:2''" "wm_bytes ?m = [42]"
    by (simp_all add: create_message_def)
  moreover have "map_of (rl_table sample_relay) (str ''b:2'') = Some 1"
    by (simp add: sample_relay_unfold)
  ultimately show ?thesis
    using relay_routes [OF sample_reach st(1,2), of ?m sample_codec] st(3,4) by auto
qed

text \<open>
  A session accepted by certificate but without a common name breaks the relay: a message it
  sends to any registered address reads the front of an empty list.
\<close>

theorem nameless_sender_undefined:
  assumes "relay_reach cd r" and "rl_store r i = Some s" and "ss_cn s = []"
    and "wm_type m = SEND_MSG" and "map_of (rl_table r) (wm_dst m) \<noteq> None"
  shows "handle_message cd i m r = (Inl Undefined, r)"
  using table_entry [OF relay_reach_ok [OF assms(1)], of "wm_dst m"] assms
  by (fastforce simp: handle_message_def act front_def)

definition nameless_relay :: relay where
  "nameless_relay = handshake_done False [] (str ''a:1'') 0 (accept_done False False relay_new)"

lemma nameless_reach: "relay_reach cd nameless_relay"
proof -
  have a: "relay_reach cd (accept_done False False relay_new)"
    using relay_reach.Start relay_step.Accepted by (rule relay_reach.Step)
  show ?thesis unfolding nameless_relay_def
    using a by (rule relay_reach.Step) (rule relay_step.Handshaken, simp add: sample_relay_unfold, simp)
qed

lemma nameless_sender_undefined_witness:
  "handle_message sample_codec 0 ((create_message SEND_MSG [])\<lparr>wm_dst := str ''a:1''\<rparr>) nameless_relay
     = (Inl Undefined, nameless_relay)"
proof -
  let ?m = "(create_message SEND_MSG [])\<lparr>wm_dst := str ''a:1''\<rparr>"
  obtain s where s: "rl_store nameless_relay 0 = Some s" "ss_cn s = []"
    by (simp add: nameless_relay_def sample_relay_unfold)
  have "wm_type ?m = SEND_MSG" "map_of (rl_table nameless_relay) (wm_dst ?m) \<noteq> None"
    by (simp_all add: create_message_def nameless_relay_def sample_relay_unfold)
  then show ?thesis by (rule nameless_sender_undefined [OF nameless_reach s])
qed

end
