(* ===== verification/Certificate.thy ===== *)
theory Certificate
  imports Relay
begin

text \<open>
  \<^verbatim>\<open>SSLGetPeerCommonNames\<close> of \<^verbatim>\<open>server/server.cpp\<close>: the loop that collects the common names of a
  certificate's subject. OpenSSL is a parameter, two functions on the positions of the entries of
  the name; what the loop relies on is its documented behaviour, \<open>openssl_name\<close>.
\<close>

section \<open>The loop\<close>

text \<open>
  \<open>next_common_name last\<close> stands for \<^verbatim>\<open>X509_NAME_get_index_by_NID(nm, NID_commonName, last)\<close> and
  \<open>entry_data i\<close> for the bytes of the entry at position \<open>i\<close>. The loop need not end.
\<close>

partial_function (option) common_names_from ::
  "(int \<Rightarrow> int) \<Rightarrow> (int \<Rightarrow> bytes) \<Rightarrow> int \<Rightarrow> bytes list \<Rightarrow> bytes list option"
where
  "common_names_from next_common_name entry_data lastpos cn =
     (let lastpos = next_common_name lastpos in
      if lastpos = - 1 then Some cn
      else common_names_from next_common_name entry_data lastpos (cn @ [entry_data lastpos]))"

definition SSLGetPeerCommonNames :: "(int \<Rightarrow> int) \<Rightarrow> (int \<Rightarrow> bytes) \<Rightarrow> bytes list option" where
  "SSLGetPeerCommonNames next_common_name entry_data =
     common_names_from next_common_name entry_data (- 1) []"

text \<open>The completion handler of the handshake with the peer's certificate at hand.\<close>

definition handshake_with_certificate ::
  "bool \<Rightarrow> (int \<Rightarrow> int) \<Rightarrow> (int \<Rightarrow> bytes) \<Rightarrow> bytes \<Rightarrow> nat \<Rightarrow> relay \<Rightarrow> relay option"
where
  "handshake_with_certificate failed next_common_name entry_data addr i r =
     (if \<not> failed then
        (case SSLGetPeerCommonNames next_common_name entry_data of
           None \<Rightarrow> None
         | Some cn \<Rightarrow> Some (handshake_done False cn addr i r))
      else Some (handshake_done True [] addr i r))"

section \<open>The documented behaviour of OpenSSL\<close>

text \<open>
  An entry of a name is the number of its object and its data. The search starts after the
  position given, the first time with -1, and gives the position of the next entry with that
  number, or -1 when there is none.
\<close>

type_synonym name_entry = "nat \<times> bytes"

definition common_name :: nat where
  "common_name = 13"

definition openssl_name :: "name_entry list \<Rightarrow> (int \<Rightarrow> int) \<Rightarrow> (int \<Rightarrow> bytes) \<Rightarrow> bool" where
  "openssl_name entries next_common_name entry_data \<longleftrightarrow>
     (\<forall>k \<le> length entries. next_common_name (int k - 1) =
        (if \<exists>e \<in> set (drop k entries). fst e = common_name
         then int (k + length (takeWhile (\<lambda>e. fst e \<noteq> common_name) (drop k entries))) else - 1))
     \<and> (\<forall>k < length entries. entry_data (int k) = snd (entries ! k))"

text \<open>The functions of a name that is given by its entries.\<close>

fun search_from :: "nat \<Rightarrow> name_entry list \<Rightarrow> int" where
  "search_from k [] = - 1"
| "search_from k ((n, d) # es) = (if n = common_name then int k else search_from (Suc k) es)"

definition name_next :: "name_entry list \<Rightarrow> int \<Rightarrow> int" where
  "name_next entries lastpos = search_from (nat (lastpos + 1)) (drop (nat (lastpos + 1)) entries)"

definition name_data :: "name_entry list \<Rightarrow> int \<Rightarrow> bytes" where
  "name_data entries i = snd (entries ! nat i)"

lemma search_from_eq:
  "search_from k es = (if \<exists>e \<in> set es. fst e = common_name
     then int (k + length (takeWhile (\<lambda>e. fst e \<noteq> common_name) es)) else - 1)"
  by (induction k es rule: search_from.induct) auto

lemma openssl_name_of_entries: "openssl_name entries (name_next entries) (name_data entries)"
  by (simp add: openssl_name_def name_next_def name_data_def search_from_eq)

section \<open>The names the loop collects\<close>

definition names_of :: "name_entry list \<Rightarrow> bytes list" where
  "names_of entries = map snd (filter (\<lambda>e. fst e = common_name) entries)"

text \<open>The first common name of a list that has one splits it.\<close>

lemma first_common_name:
  assumes "\<exists>e \<in> set es. fst e = common_name"
  defines "n \<equiv> length (takeWhile (\<lambda>e. fst e \<noteq> common_name) es)"
  shows "n < length es" and "names_of es = snd (es ! n) # names_of (drop (Suc n) es)"
proof -
  let ?P = "\<lambda>e. fst e \<noteq> common_name"
  obtain y ys where d: "dropWhile ?P es = y # ys"
    using assms(1) by (cases "dropWhile ?P es") auto
  then have y: "fst y = common_name" using hd_dropWhile [of ?P es] by (simp add: dropWhile_eq_Cons_conv)
  have es: "es = takeWhile ?P es @ y # ys" using takeWhile_dropWhile_id [of ?P es] d by simp
  show "n < length es" by (subst es) (simp add: n_def)
  have "es ! n = y" and "drop (Suc n) es = ys"
    by (subst es, simp add: n_def nth_append)+
  moreover have "filter (\<lambda>e. fst e = common_name) (takeWhile ?P es) = []"
    by (auto simp: filter_empty_conv dest: set_takeWhileD)
  then have "names_of es = snd y # names_of ys"
    using y by (subst es) (simp add: names_of_def)
  ultimately show "names_of es = snd (es ! n) # names_of (drop (Suc n) es)" by simp
qed

lemma common_names_from_eq:
  assumes "openssl_name entries nxt dat" and "k \<le> length entries"
  shows "common_names_from nxt dat (int k - 1) cn = Some (cn @ names_of (drop k entries))"
  using assms(2)
proof (induction "length entries - k" arbitrary: k cn rule: less_induct)
  case less
  let ?n = "length (takeWhile (\<lambda>e. fst e \<noteq> common_name) (drop k entries))"
  show ?case
  proof (cases "\<exists>e \<in> set (drop k entries). fst e = common_name")
    case False
    then have "nxt (int k - 1) = - 1" using assms(1) less.prems by (auto simp: openssl_name_def)
    moreover have "names_of (drop k entries) = []"
      using False by (auto simp: names_of_def filter_empty_conv)
    ultimately show ?thesis by (subst common_names_from.simps) simp
  next
    case True
    note split = first_common_name [OF True]
    have n: "k + ?n < length entries" using split(1) by simp
    have step: "nxt (int k - 1) = int (k + ?n)" "dat (int (k + ?n)) = snd (entries ! (k + ?n))"
      using assms(1) less.prems True n unfolding openssl_name_def by presburger+
    have IH: "common_names_from nxt dat (int (Suc (k + ?n)) - 1) (cn @ [snd (entries ! (k + ?n))]) =
        Some ((cn @ [snd (entries ! (k + ?n))]) @ names_of (drop (Suc (k + ?n)) entries))"
      using n less.prems by (intro less.hyps) simp_all
    have "names_of (drop k entries) = snd (entries ! (k + ?n)) # names_of (drop (Suc (k + ?n)) entries)"
      using split(2) n by (simp add: add.commute)
    then show ?thesis
      using IH step by (subst common_names_from.simps) (simp add: Let_def)
  qed
qed

text \<open>
  C22: The loop over a certificate returns, and with exactly the data of the common name entries of
  the subject, in their order; so the name under which the relay passes on the messages of a
  session is the first common name of its certificate, and \<^verbatim>\<open>front()\<close> is undefined exactly when
  the subject has none.
\<close>

theorem common_names_collected:
  assumes "openssl_name entries nxt dat"
  shows "SSLGetPeerCommonNames nxt dat = Some (map snd (filter (\<lambda>e. fst e = common_name) entries))
    \<and> handshake_with_certificate False nxt dat addr i r = Some (handshake_done False (names_of entries) addr i r)
    \<and> front (names_of entries) = (case find (\<lambda>e. fst e = common_name) entries of
         None \<Rightarrow> Inl Undefined | Some e \<Rightarrow> Inr (snd e))"
proof -
  have "SSLGetPeerCommonNames nxt dat = Some (names_of entries)"
    using common_names_from_eq [OF assms, of 0 "[]"] by (simp add: SSLGetPeerCommonNames_def)
  moreover have "front (names_of entries) = (case find (\<lambda>e. fst e = common_name) entries of
      None \<Rightarrow> Inl Undefined | Some e \<Rightarrow> Inr (snd e))"
    by (induction entries) (auto simp: names_of_def front_def)
  ultimately show ?thesis by (simp add: handshake_with_certificate_def names_of_def)
qed

lemma common_names_collected_witness:
  "let es = [(6, [1]), (13, [2]), (10, [3]), (13, [4])] in
   SSLGetPeerCommonNames (name_next es) (name_data es) = Some [[2], [4]]
   \<and> front (names_of es) = Inr [2]"
  using common_names_collected [OF openssl_name_of_entries, of "[(6, [1]), (13, [2]), (10, [3]), (13, [4])]"]
  by (simp add: common_name_def)

end
