(* ===== verification/Tls_Client.thy ===== *)
theory Tls_Client
  imports Relay
begin

text \<open>
  The client of the TLS relay in \<^verbatim>\<open>client/Client.cpp\<close>, which the build no longer compiles (\<^verbatim>\<open>#if 0\<close>); it
  is the only program in the repository that speaks to the relay. Its coroutine is a sequence of
  steps; what the socket does (connected or not, the bytes of a read) and the line the user types
  are arguments. TLS and MessagePack are those of the relay. Nothing calls \<^verbatim>\<open>send_request\<close>, and since the
  loop of the coroutine never yields, the one thread never gets to \<^verbatim>\<open>receive_response\<close>; the two are
  modelled as the functions they are.
\<close>

section \<open>The client\<close>

record tls_client =
  tc_timer :: bool                       \<comment> \<open>\<open>timer_\<close> is armed; nothing waits for it\<close>
  tc_self :: bytes
  tc_ctx :: bytes                        \<comment> \<open>bytes the decoder still holds\<close>
  tc_recv_list :: "wire_message list"
  tc_to_write :: "wire_message list"
  tc_receiving :: bool                   \<comment> \<open>\<open>receive_response\<close> waits for its read\<close>
  tc_written :: "bytes list"             \<comment> \<open>handed to the socket so far\<close>
  tc_shown :: "bytes list"               \<comment> \<open>the replies printed so far\<close>

definition tls_client_new :: tls_client where
  "tls_client_new = \<lparr>tc_timer = False, tc_self = [], tc_ctx = [], tc_recv_list = [], tc_to_write = [],
     tc_receiving = False, tc_written = [], tc_shown = []\<rparr>"

text \<open>The yielding calls throw a \<^verbatim>\<open>system_error\<close> when the operation fails.\<close>

definition client_connect :: "bool \<Rightarrow> (tls_client, unit) action" where
  "client_connect failed = (if failed then throw Std_runtime_error else ret ())"

definition client_handshake :: "bool \<Rightarrow> (tls_client, unit) action" where
  "client_handshake failed = (if failed then throw Std_runtime_error else ret ())"

definition verify_certificate :: "bool \<Rightarrow> bool" where
  "verify_certificate preverified = preverified"

text \<open>The coroutine up to its loop, and one turn of the loop: a message it takes is dropped.\<close>

definition routine_start :: "bool \<Rightarrow> bool \<Rightarrow> (tls_client, unit) action" where
  "routine_start no_connection no_handshake =
     andthen (client_connect no_connection)
     (andthen (client_handshake no_handshake)
       (modify (\<lambda>c. c\<lparr>tc_receiving := True\<rparr>)))"

definition routine_turn :: "(tls_client, unit) action" where
  "routine_turn = seq (gets tc_to_write) (\<lambda>q.
     if q = [] then modify (\<lambda>c. c\<lparr>tc_timer := True\<rparr>)
     else modify (\<lambda>c. c\<lparr>tc_to_write := tl q\<rparr>))"

text \<open>\<^verbatim>\<open>getline\<close> into an array of 1024, then \<^verbatim>\<open>strlen\<close>: the line is cut at 1023 bytes and at a zero.\<close>

definition typed :: "bytes \<Rightarrow> bytes" where
  "typed input = takeWhile (\<lambda>c. c \<noteq> 0) (take 1023 (takeWhile (\<lambda>c. c \<noteq> 10) input))"

definition tls_request :: "bytes \<Rightarrow> bytes \<Rightarrow> wire_message list" where
  "tls_request self line = [create_message LIST_PEERS [],
     (create_message SEND_MSG line)\<lparr>wm_dst := self, wm_src := self\<rparr>]"

definition send_request :: "codec \<Rightarrow> bytes \<Rightarrow> (tls_client, unit) action" where
  "send_request cd input =
     andthen (modify (\<lambda>c. c\<lparr>tc_self := str ''GhostApple''\<rparr>))
     (seq (gets tc_self) (\<lambda>self. modify (\<lambda>c. c\<lparr>tc_written := tc_written c @
        [concat (map (cd_pack cd) (tls_request self (typed input)))]\<rparr>)))"

text \<open>The only read: \<^verbatim>\<open>receive_response\<close> is spawned once and returns after it.\<close>

definition receive_response :: "codec \<Rightarrow> bool \<Rightarrow> bytes \<Rightarrow> (tls_client, unit) action" where
  "receive_response cd failed data = (\<lambda>c.
     if \<not> tc_receiving c then (Inr (), c)
     else if failed then (Inl Std_runtime_error, c\<lparr>tc_receiving := False\<rparr>)
     else (case feed cd data (tc_ctx c) of
       (Inl e, rest) \<Rightarrow> (Inl e, c\<lparr>tc_receiving := False, tc_ctx := rest\<rparr>)
     | (Inr ms, rest) \<Rightarrow> (Inr (), c\<lparr>tc_receiving := False, tc_ctx := rest,
         tc_shown := tc_shown c @ map wm_bytes ms\<rparr>)))"

text \<open>
  \<^verbatim>\<open>NetworkService\<close>: its thread resolves the server, constructs the client, whose coroutine starts, and
  runs the event loop; the two operations meant for a user interface do nothing.
\<close>

type_synonym network_service = "tls_client option"

definition network_routine :: "bool \<Rightarrow> bool \<Rightarrow> bool \<Rightarrow> (network_service, unit) action" where
  "network_routine no_address no_connection no_handshake = (\<lambda>n.
     if no_address then (Inl Std_runtime_error, n)
     else (case routine_start no_connection no_handshake tls_client_new of (x, c) \<Rightarrow> (x, Some c)))"

definition network_list_peers :: "(network_service, unit) action" where
  "network_list_peers = ret ()"

definition network_send :: "bytes \<Rightarrow> bytes \<Rightarrow> network_service \<Rightarrow> bool" where
  "network_send p data n = False"

text \<open>Whatever the loop of the coroutine does, it hands nothing to the socket, and what it takes is gone.\<close>

lemma routine_drops:
  "\<exists>c'. for_each (\<lambda>_. routine_turn) (replicate n ()) c = (Inr (), c')
    \<and> tc_written c' = tc_written c \<and> tc_to_write c' = drop n (tc_to_write c)"
proof (induction n arbitrary: c)
  case 0
  then show ?case by (simp add: act)
next
  case (Suc n)
  obtain d where d: "routine_turn c = (Inr (), d)" "tc_written d = tc_written c" "tc_to_write d = drop 1 (tc_to_write c)"
    by (cases "tc_to_write c") (simp_all add: routine_turn_def act)
  then show ?case using Suc.IH [of d] by (simp add: act)
qed

section \<open>Reads of the relay\<close>

text \<open>A session of the relay that waits for a read, with the bytes \<open>c\<close> in its decoder.\<close>

definition waiting :: "nat \<Rightarrow> bytes \<Rightarrow> relay \<Rightarrow> relay" where
  "waiting i c r = on_session i (\<lambda>s. s\<lparr>ss_ctx := c, ss_reading := True\<rparr>) r"

text \<open>
  If handling each message at the session has an effect \<open>H\<close> that does not depend on the decoder,
  then reading the packed messages, however they are cut into reads that are not empty, has their
  effects in order and leaves the decoder empty.
\<close>

definition handles :: "codec \<Rightarrow> nat \<Rightarrow> (relay \<Rightarrow> bool) \<Rightarrow> (wire_message \<Rightarrow> relay \<Rightarrow> relay) \<Rightarrow> wire_message \<Rightarrow> bool" where
  "handles cd i P H m \<longleftrightarrow> (\<forall>x c b. P x \<longrightarrow> P (H m x)
     \<and> handle_message cd i m (on_session i (\<lambda>s. s\<lparr>ss_ctx := c, ss_reading := b\<rparr>) x) =
         (Inr (), on_session i (\<lambda>s. s\<lparr>ss_ctx := c, ss_reading := b\<rparr>) (H m x)))"

lemma handles_all:
  assumes "\<forall>m \<in> set ms. handles cd i P H m" and "P x"
  shows "for_each (handle_message cd i) ms (on_session i (\<lambda>s. s\<lparr>ss_ctx := c, ss_reading := b\<rparr>) x) =
      (Inr (), on_session i (\<lambda>s. s\<lparr>ss_ctx := c, ss_reading := b\<rparr>) (fold H ms x))" and "P (fold H ms x)"
  using assms by (induction ms arbitrary: x) (auto simp: act handles_def)

lemma waiting_read:
  assumes "\<forall>m \<in> set ms. handles cd i P H m" and "P x" and "rl_store x i \<noteq> None" and "data \<noteq> []"
    and "unpack_loop cd (buf @ data) = (Inr ms, rest)"
  shows "read_done cd False data i (waiting i buf x) = (Inr (), waiting i rest (fold H ms x))"
proof -
  obtain s where s: "rl_store x i = Some s" using assms(3) by blast
  have "on_session i (\<lambda>s. s\<lparr>ss_reading := False\<rparr>) (waiting i buf x) =
      on_session i (\<lambda>s. s\<lparr>ss_ctx := buf, ss_reading := False\<rparr>) x"
    using s by (simp add: waiting_def on_session_def)
  moreover have "on_ctx i (feed cd data) (on_session i (\<lambda>s. s\<lparr>ss_ctx := buf, ss_reading := False\<rparr>) x) =
      (Inr ms, on_session i (\<lambda>s. s\<lparr>ss_ctx := rest, ss_reading := False\<rparr>) x)"
    using s assms(5) by (cases s) (simp add: on_ctx_def on_session_def feed_def)
  moreover have "on_session i do_read (on_session i (\<lambda>s. s\<lparr>ss_ctx := rest, ss_reading := False\<rparr>) y) =
      waiting i rest y" for y
    by (cases "rl_store y i") (simp_all add: waiting_def on_session_def do_read_def)
  ultimately show ?thesis
    using handles_all [OF assms(1,2)] assms(4) by (simp add: read_done_def act)
qed

lemma waiting_reads:
  assumes "\<forall>m \<in> set ms. handles cd i P H m" and "P x" and live: "\<And>y. P y \<Longrightarrow> rl_store y i \<noteq> None"
    and "\<forall>m \<in> set ms. framed cd m" and "[] \<notin> set chunks"
    and "buf @ concat chunks = packed cd ms" and "chunks = [] \<longrightarrow> ms = []"
  shows "for_each (\<lambda>data. read_done cd False data i) chunks (waiting i buf x) = (Inr (), waiting i [] (fold H ms x))"
  using assms(1,2,4-7)
proof (induction chunks arbitrary: buf ms x)
  case Nil
  then show ?case by (simp add: act)
next
  case (Cons d ds)
  have "(buf @ d) @ concat ds = packed cd ms" using Cons.prems(5) by simp
  then obtain now later rest where pre: "ms = now @ later" "unpack_loop cd (buf @ d) = (Inr now, rest)"
      "rest @ concat ds = packed cd later" "concat ds = [] \<longrightarrow> later = []"
    using unpack_prefix [OF Cons.prems(3)] by blast
  then have parts: "\<forall>m \<in> set now. handles cd i P H m" "\<forall>m \<in> set later. handles cd i P H m"
      "\<forall>m \<in> set later. framed cd m" "ds = [] \<longrightarrow> later = []"
    using Cons.prems(1,3) by auto
  have "read_done cd False d i (waiting i buf x) = (Inr (), waiting i rest (fold H now x))"
    using waiting_read [OF parts(1) Cons.prems(2) live [OF Cons.prems(2)] _ pre(2)] Cons.prems(4) by auto
  moreover have "P (fold H now x)" by (rule handles_all(2) [OF parts(1) Cons.prems(2)])
  ultimately show ?case
    using Cons.IH [OF parts(2) _ parts(3) _ pre(3) parts(4)] Cons.prems(4) pre(1) by (simp add: act)
qed

section \<open>The request of the client\<close>

text \<open>The effect of the request at the relay: the list is answered, the message goes nowhere.\<close>

definition list_answer :: "codec \<Rightarrow> relay \<Rightarrow> wire_message" where
  "list_answer cd r = create_message PEER_LIST (cd_json cd (live_sessions r))"

definition request_effect :: "codec \<Rightarrow> nat \<Rightarrow> wire_message \<Rightarrow> relay \<Rightarrow> relay" where
  "request_effect cd i m r =
     (if wm_type m = LIST_PEERS then on_session i (write_message cd (list_answer cd r)) r else r)"

definition unknown_to :: "bytes \<Rightarrow> nat \<Rightarrow> relay \<Rightarrow> bool" where
  "unknown_to dst i r \<longleftrightarrow> map_of (rl_table r) dst = None \<and> rl_store r i \<noteq> None"

lemma live_sessions_decoder:
  "live_sessions (on_session i (\<lambda>s. s\<lparr>ss_ctx := c, ss_reading := b\<rparr>) x) = live_sessions x"
  by (cases "rl_store x i") (auto simp: live_sessions_def on_session_def intro!: arg_cong [where f = concat])

lemma write_message_decoder:
  "write_message cd m (s\<lparr>ss_ctx := c, ss_reading := b\<rparr>) = (write_message cd m s)\<lparr>ss_ctx := c, ss_reading := b\<rparr>"
  by (cases s) (simp add: write_message_def do_write_def Let_def split: list.splits)

lemma unknown_on_session: "unknown_to dst i x \<Longrightarrow> unknown_to dst i (on_session j f x)"
  by (auto simp: unknown_to_def on_session_def split: option.splits)

lemma handles_request:
  assumes "m \<in> set (tls_request self line)"
  shows "handles cd i (unknown_to self i) (request_effect cd i) m"
proof -
  consider "wm_type m = LIST_PEERS" | "wm_type m = SEND_MSG" "wm_dst m = self"
    using assms by (auto simp: tls_request_def create_message_def)
  then show ?thesis
  proof cases
    case 1
    then show ?thesis
      by (auto simp: handles_def request_effect_def unknown_on_session handle_message_def list_answer_def
          live_sessions_decoder)
        (auto simp: on_session_def unknown_to_def write_message_decoder split: option.splits)
  next
    case 2
    then show ?thesis
      by (auto simp: handles_def request_effect_def handle_message_def unknown_to_def on_session_def act
          split: option.splits)
  qed
qed

lemma request_read:
  assumes "unknown_to self i r" and "\<forall>m \<in> set (tls_request self line). framed cd m"
    and "concat chunks = packed cd (tls_request self line)" and "[] \<notin> set chunks"
  shows "for_each (\<lambda>data. read_done cd False data i) chunks (waiting i [] r) =
    (Inr (), waiting i [] (on_session i (write_message cd (list_answer cd r)) r))"
proof -
  have "chunks \<noteq> []" using assms(2,3) by (auto simp: tls_request_def framed_def)
  then have "for_each (\<lambda>data. read_done cd False data i) chunks (waiting i [] r) =
      (Inr (), waiting i [] (fold (request_effect cd i) (tls_request self line) r))"
    using waiting_reads [of "tls_request self line" cd i "unknown_to self i" "request_effect cd i" r chunks "[]"]
      handles_request [of _ self line cd i] assms by (auto simp: unknown_to_def)
  then show ?thesis by (simp add: tls_request_def request_effect_def create_message_def)
qed

text \<open>What the only read of the client makes of a reply.\<close>

lemma reply_read:
  assumes "framed cd m" and "tc_receiving c" and "tc_ctx c = []"
  shows "receive_response cd False (cd_pack cd m) c =
      (Inr (), c\<lparr>tc_receiving := False, tc_ctx := [], tc_shown := tc_shown c @ [wm_bytes m]\<rparr>)"
    and "n < length (cd_pack cd m) \<Longrightarrow> receive_response cd False (take n (cd_pack cd m)) c =
      (Inr (), c\<lparr>tc_receiving := False, tc_ctx := take n (cd_pack cd m), tc_shown := tc_shown c\<rparr>)"
  using assms unpack_one [OF assms(1), of "[]"] unpack_part [OF assms(1), of n]
  by (simp_all add: receive_response_def feed_def)

text \<open>
  C23: The client at the relay: its request, however it is cut into reads, makes the relay queue one
  list of the live sessions at the session of the client and does nothing else; the message to
  itself goes nowhere, for it is addressed by name and the relay knows sessions by address. The
  reply is shown when it arrives in one read; when its first read is a part of it nothing is ever
  shown, since the client does not read again.
\<close>

theorem tls_request_answered:
  assumes "unknown_to (str ''GhostApple'') i r" and "waiting i [] r = r"
    and "\<forall>m \<in> set (tls_request (str ''GhostApple'') (typed input)). framed cd m"
    and "framed cd (list_answer cd r)"
    and "send_request cd input c = (Inr (), c')" and "tc_receiving c" and "tc_ctx c = []"
    and "concat chunks = last (tc_written c')" and "[] \<notin> set chunks"
  shows "for_each (\<lambda>data. read_done cd False data i) chunks r =
      (Inr (), waiting i [] (on_session i (write_message cd (list_answer cd r)) r))
    \<and> tc_shown (snd (receive_response cd False (cd_pack cd (list_answer cd r)) c')) =
        tc_shown c @ [cd_json cd (live_sessions r)]
    \<and> (\<forall>n < length (cd_pack cd (list_answer cd r)). \<exists>d.
        receive_response cd False (take n (cd_pack cd (list_answer cd r))) c' = (Inr (), d)
        \<and> tc_shown d = tc_shown c \<and> (\<forall>rest. receive_response cd False rest d = (Inr (), d)))"
proof -
  have c': "tc_receiving c'" "tc_ctx c' = []" "tc_shown c' = tc_shown c"
    and sent: "last (tc_written c') = packed cd (tls_request (str ''GhostApple'') (typed input))"
    using assms(5-7) by (auto simp: send_request_def act packed_def)
  have "for_each (\<lambda>data. read_done cd False data i) chunks r =
      (Inr (), waiting i [] (on_session i (write_message cd (list_answer cd r)) r))"
    using request_read [OF assms(1,3)] assms(2,8,9) sent by simp
  then show ?thesis
    using reply_read [OF assms(4) c'(1,2)] c'(3)
    by (simp add: list_answer_def create_message_def) (simp add: receive_response_def)
qed

text \<open>A codec that knows the three kinds of messages: a tag, the length, the bytes.\<close>

definition tag_codec :: codec where
  "tag_codec = \<lparr>
     cd_pack = (\<lambda>m. (if wm_type m = LIST_PEERS then 1 else if wm_type m = SEND_MSG then 2 else 3)
       # word_of_nat (length (wm_bytes m)) # wm_bytes m),
     cd_unpack = (\<lambda>buf. case buf of t # n # bs \<Rightarrow>
         if length bs < unat n then Incomplete
         else Object (if t = 1 then create_message LIST_PEERS (take (unat n) bs)
           else if t = 2 then (create_message SEND_MSG (take (unat n) bs))
             \<lparr>wm_dst := str ''GhostApple'', wm_src := str ''GhostApple''\<rparr>
           else create_message PEER_LIST (take (unat n) bs)) (Suc (unat n))
       | _ \<Rightarrow> Incomplete),
     cd_json = (\<lambda>_. [123, 125])\<rparr>"

lemma tag_framed:
  assumes "length data < 256"
  shows "framed tag_codec (create_message LIST_PEERS data)"
    and "framed tag_codec (create_message PEER_LIST data)"
    and "framed tag_codec ((create_message SEND_MSG data)
      \<lparr>wm_dst := str ''GhostApple'', wm_src := str ''GhostApple''\<rparr>)"
  using assms
  by (auto simp: framed_def tag_codec_def create_message_def unat_of_nat take_Cons' split: list.split)

lemma tls_request_answered_witness:
  "\<exists>c'. send_request tag_codec (str ''hi'' @ [10]) (tls_client_new\<lparr>tc_receiving := True\<rparr>) = (Inr (), c')
    \<and> fst (for_each (\<lambda>data. read_done tag_codec False data 0) [take 1 (last (tc_written c')), drop 1 (last (tc_written c'))]
        sample_relay) = Inr ()
    \<and> tc_shown (snd (receive_response tag_codec False [3, 2, 123, 125] c')) = [[123, 125]]"
proof -
  let ?c = "tls_client_new\<lparr>tc_receiving := True\<rparr>" and ?line = "str ''hi'' @ [10]"
  have hi: "typed ?line = str ''hi''" by code_simp
  obtain c' where c': "send_request tag_codec ?line ?c = (Inr (), c')"
      "last (tc_written c') = concat (map (cd_pack tag_codec) (tls_request (str ''GhostApple'') (str ''hi'')))"
    by (simp add: send_request_def act hi)
  have framed: "\<forall>m \<in> set (tls_request (str ''GhostApple'') (typed ?line)). framed tag_codec m"
    by (simp add: hi tls_request_def tag_framed)
  have answer: "list_answer tag_codec sample_relay = create_message PEER_LIST [123, 125]"
    "cd_pack tag_codec (list_answer tag_codec sample_relay) = [3, 2, 123, 125]"
    by (simp_all add: list_answer_def tag_codec_def create_message_def)
  have relay: "unknown_to (str ''GhostApple'') 0 sample_relay" "waiting 0 [] sample_relay = sample_relay"
    by (simp_all add: unknown_to_def waiting_def sample_relay_unfold fun_eq_iff)
  have sent: "[] \<notin> set [take 1 (last (tc_written c')), drop 1 (last (tc_written c'))]"
    by (simp add: c'(2) tls_request_def tag_codec_def create_message_def)
  show ?thesis
    using tls_request_answered [OF relay framed _ c'(1), of "[take 1 (last (tc_written c')), drop 1 (last (tc_written c'))]"]
      tag_framed(2) [of "[123, 125]"] answer sent c'(1)
    by (simp add: tls_client_new_def) (simp add: tag_codec_def)
qed

end
