(* ===== verification/Directory.thy ===== *)
theory Directory
  imports Address
begin

text \<open>
  The UDP directory server, \<^verbatim>\<open>server/peer.cpp\<close> (class \<^verbatim>\<open>peer\<close>), \<^verbatim>\<open>message.cpp\<close>, \<^verbatim>\<open>sml.cpp\<close>
  (\<^verbatim>\<open>UdpService\<close>), \<^verbatim>\<open>udp_service.cpp\<close> and the request handler at the top of \<^verbatim>\<open>server.cpp\<close>, which
  the preprocessor leaves out of the current build. Peers and texts are shared objects: they live
  in two heaps and pointers are positions. Endpoints are those of Boost.Asio, a parameter; the
  clock is an argument.
\<close>

section \<open>Peers\<close>

record dpeer =
  dp_name :: bytes
  dp_address :: bytes
  dp_port :: u32
  dp_last_beat :: int

definition dpeer_new :: "int \<Rightarrow> bytes \<Rightarrow> u32 \<Rightarrow> dpeer" where
  "dpeer_new now address port = \<lparr>dp_name = [], dp_address = address, dp_port = port, dp_last_beat = now\<rparr>"

definition dpeer_update :: "int \<Rightarrow> dpeer \<Rightarrow> dpeer" where
  "dpeer_update now p = p\<lparr>dp_last_beat := now\<rparr>"

definition dead :: "int \<Rightarrow> dpeer \<Rightarrow> bool" where
  "dead now p \<longleftrightarrow> now - dp_last_beat p > 30"

definition dpeer_to_string :: "dpeer \<Rightarrow> bytes" where
  "dpeer_to_string p = dp_address p @ [58] @ decimal (unat (dp_port p))"

definition dpeer_eq :: "dpeer \<Rightarrow> dpeer \<Rightarrow> bool" where
  "dpeer_eq p q \<longleftrightarrow> dp_address p = dp_address q \<and> dp_port p = dp_port q"

definition dpeer_neq :: "dpeer \<Rightarrow> dpeer \<Rightarrow> bool" where
  "dpeer_neq p q \<longleftrightarrow> \<not> dpeer_eq p q"

definition dpeer_less :: "dpeer \<Rightarrow> dpeer \<Rightarrow> bool" where
  "dpeer_less p q \<longleftrightarrow>
     (if dpeer_eq p q then False
      else dp_address p < dp_address q \<or> (dp_address p = dp_address q \<and> dp_port p < dp_port q))"

definition dpeer_greater :: "dpeer \<Rightarrow> dpeer \<Rightarrow> bool" where
  "dpeer_greater p q \<longleftrightarrow> (if dpeer_eq p q then False else \<not> dpeer_less p q)"

section \<open>Messages and the service\<close>

text \<open>What the code uses of \<^verbatim>\<open>udp::endpoint\<close>; making one from a text may throw.\<close>

record 'e endpoints =
  ep_text :: "'e \<Rightarrow> bytes"
  ep_port :: "'e \<Rightarrow> u16"
  ep_make :: "bytes \<Rightarrow> u16 \<Rightarrow> err + 'e"

record dmessage =
  dm_content :: "nat option"
  dm_src :: "nat option"
  dm_dst :: "nat option"

record 'e directory =
  dv_peers :: "dpeer list"                \<comment> \<open>the peer objects\<close>
  dv_texts :: "bytes list"                \<comment> \<open>the string objects\<close>
  dv_table :: "('e \<times> nat) list"           \<comment> \<open>\<open>peer_endpoint_bm_\<close>\<close>
  dv_to_be_sent :: "nat option \<rightharpoonup> dmessage"
  dv_live :: "nat list"                   \<comment> \<open>\<open>live_peers_\<close>, in the order of the peers\<close>
  dv_receiving :: bool                    \<comment> \<open>a receive operation is pending\<close>
  dv_sending :: "nat list"                \<comment> \<open>texts whose send operation is pending\<close>
  dv_sent :: "(bytes \<times> 'e) list"          \<comment> \<open>datagrams handed to the socket\<close>
  dv_reports :: "dmessage list"           \<comment> \<open>messages reported by \<open>send_signal_\<close>\<close>

type_synonym ('e, 'a) dir_action = "('e directory, 'a) action"

definition directory_new :: "'e directory" where
  "directory_new = \<lparr>dv_peers = [], dv_texts = [], dv_table = [], dv_to_be_sent = (\<lambda>_. None), dv_live = [],
     dv_receiving = True, dv_sending = [], dv_sent = [], dv_reports = []\<rparr>"

definition dir_buffer_size :: nat where
  "dir_buffer_size = 1500"

text \<open>\<^verbatim>\<open>self_\<close> is never set.\<close>

definition prepare_empty_message :: dmessage where
  "prepare_empty_message = \<lparr>dm_content = None, dm_src = None, dm_dst = None\<rparr>"

definition new_text :: "bytes \<Rightarrow> ('e, nat) dir_action" where
  "new_text t = (\<lambda>d. (Inr (length (dv_texts d)), d\<lparr>dv_texts := dv_texts d @ [t]\<rparr>))"

definition new_dpeer :: "dpeer \<Rightarrow> ('e, nat) dir_action" where
  "new_dpeer p = (\<lambda>d. (Inr (length (dv_peers d)), d\<lparr>dv_peers := dv_peers d @ [p]\<rparr>))"

definition not_null :: "nat option \<Rightarrow> err + nat" where
  "not_null v = (case v of None \<Rightarrow> Inl Null_deref | Some p \<Rightarrow> Inr p)"

text \<open>Insertion into the set of live peers, ordered by \<^verbatim>\<open>peer_comp\<close>.\<close>

fun live_insert :: "dpeer list \<Rightarrow> nat \<Rightarrow> nat list \<Rightarrow> nat list" where
  "live_insert h p [] = [p]"
| "live_insert h p (q # qs) =
     (if dpeer_less (h ! p) (h ! q) then p # q # qs
      else if dpeer_less (h ! q) (h ! p) then q # live_insert h p qs
      else q # qs)"

text \<open>The right view of the bimap compares peers; two that are not ordered are the same key.\<close>

definition same_key :: "dpeer list \<Rightarrow> nat \<Rightarrow> nat \<Rightarrow> bool" where
  "same_key h p q \<longleftrightarrow> \<not> dpeer_less (h ! p) (h ! q) \<and> \<not> dpeer_less (h ! q) (h ! p)"

definition right_find :: "dpeer list \<Rightarrow> nat \<Rightarrow> ('e \<times> nat) list \<Rightarrow> 'e option" where
  "right_find h p t = map_option fst (List.find (\<lambda>(e, q). same_key h p q) t)"

definition right_erase :: "dpeer list \<Rightarrow> nat \<Rightarrow> ('e \<times> nat) list \<Rightarrow> ('e \<times> nat) list" where
  "right_erase h p t = filter (\<lambda>(e, q). \<not> same_key h p q) t"

definition bimap_insert :: "dpeer list \<Rightarrow> 'e \<Rightarrow> nat \<Rightarrow> ('e \<times> nat) list \<Rightarrow> ('e \<times> nat) list" where
  "bimap_insert h e p t =
     (if map_of t e \<noteq> None \<or> right_find h p t \<noteq> None then t else t @ [(e, p)])"

text \<open>\<^verbatim>\<open>udp_service::send_to\<close>.\<close>

definition dir_send_to :: "nat option \<Rightarrow> 'e \<Rightarrow> ('e, unit) dir_action" where
  "dir_send_to content e = seq (lift (not_null content)) (\<lambda>c.
     modify (\<lambda>d. d\<lparr>dv_sent := dv_sent d @ [(dv_texts d ! c, e)], dv_sending := dv_sending d @ [c]\<rparr>))"

definition dir_send_to_ip :: "'e endpoints \<Rightarrow> nat option \<Rightarrow> bytes option \<Rightarrow> u16 \<Rightarrow> ('e, unit) dir_action" where
  "dir_send_to_ip eps content ip port =
     (case ip of None \<Rightarrow> throw Null_deref
      | Some t \<Rightarrow> seq (lift (ep_make eps t port)) (\<lambda>e. dir_send_to content e))"

definition remember :: "dmessage \<Rightarrow> 'e directory \<Rightarrow> 'e directory" where
  "remember msg d = (case dv_to_be_sent d (dm_content msg) of
     None \<Rightarrow> d\<lparr>dv_to_be_sent := (dv_to_be_sent d)(dm_content msg \<mapsto> msg)\<rparr> | Some _ \<Rightarrow> d)"

definition send_message :: "'e endpoints \<Rightarrow> dmessage \<Rightarrow> ('e, unit) dir_action" where
  "send_message eps msg =
     andthen (modify (remember msg))
     (seq (lift (not_null (dm_dst msg))) (\<lambda>dst.
      seq (gets (\<lambda>d. right_find (dv_peers d) dst (dv_table d))) (\<lambda>found.
      case found of
        None \<Rightarrow>
          seq (gets (\<lambda>d. dv_peers d ! dst)) (\<lambda>p.
          seq (lift (ep_make eps (dp_address p) (ucast (dp_port p)))) (\<lambda>e.
          andthen (modify (\<lambda>d. d\<lparr>dv_table := bimap_insert (dv_peers d) e dst (dv_table d)\<rparr>))
          (andthen (modify (\<lambda>d. d\<lparr>dv_live := live_insert (dv_peers d) dst (dv_live d)\<rparr>))
          (dir_send_to (dm_content msg) e))))
      | Some e \<Rightarrow> dir_send_to (dm_content msg) e)))"

text \<open>\<^verbatim>\<open>udp_service::handle_send\<close> and the handler \<^verbatim>\<open>UdpService::send_handler\<close> behind it.\<close>

definition send_handler :: "nat \<Rightarrow> ('e, unit) dir_action" where
  "send_handler c = seq (gets (\<lambda>d. dv_to_be_sent d (Some c))) (\<lambda>v. case v of
     None \<Rightarrow> ret ()
   | Some m \<Rightarrow> modify (\<lambda>d. d\<lparr>dv_reports := dv_reports d @ [m], dv_to_be_sent := (dv_to_be_sent d)(Some c := None)\<rparr>))"

definition dir_handle_send :: "nat \<Rightarrow> ('e, unit) dir_action" where
  "dir_handle_send c =
     andthen (modify (\<lambda>d. d\<lparr>dv_sending := remove1 c (dv_sending d)\<rparr>)) (send_handler c)"

text \<open>The loop of \<^verbatim>\<open>live_peers\<close> over the set, which erases the dead ones from both containers.\<close>

fun expire :: "int \<Rightarrow> dpeer list \<Rightarrow> nat list \<Rightarrow> ('e \<times> nat) list \<Rightarrow> nat list \<times> ('e \<times> nat) list" where
  "expire now h [] t = ([], t)"
| "expire now h (p # ps) t =
     (if dead now (h ! p) then expire now h ps (right_erase h p t)
      else (case expire now h ps t of (ps', t') \<Rightarrow> (p # ps', t')))"

definition live_peers :: "int \<Rightarrow> ('e, nat list) dir_action" where
  "live_peers now = (\<lambda>d.
     case expire now (dv_peers d) (dv_live d) (dv_table d) of
       (live, t) \<Rightarrow> (Inr live, d\<lparr>dv_live := live, dv_table := t\<rparr>))"

text \<open>The handler the server registers: one datagram per live peer, to the sender.\<close>

definition answer_peer :: "'e endpoints \<Rightarrow> dmessage \<Rightarrow> nat \<Rightarrow> ('e, unit) dir_action" where
  "answer_peer eps msg p =
     seq (gets (\<lambda>d. dpeer_to_string (dv_peers d ! p))) (\<lambda>t.
     seq (new_text t) (\<lambda>c.
     send_message eps (prepare_empty_message\<lparr>dm_content := Some c, dm_dst := dm_src msg\<rparr>)))"

definition handle_client_request :: "'e endpoints \<Rightarrow> int \<Rightarrow> dmessage \<Rightarrow> ('e, unit) dir_action" where
  "handle_client_request eps now msg =
     seq (live_peers now) (\<lambda>live. for_each (answer_peer eps msg) live)"

text \<open>\<^verbatim>\<open>UdpService::receive_handler\<close>.\<close>

definition receive_handler :: "'e endpoints \<Rightarrow> int \<Rightarrow> nat \<Rightarrow> 'e \<Rightarrow> ('e, unit) dir_action" where
  "receive_handler eps now content e =
     (let msg = prepare_empty_message\<lparr>dm_content := Some content\<rparr> in
      seq (gets (\<lambda>d. map_of (dv_table d) e)) (\<lambda>found.
      case found of
        None \<Rightarrow>
          seq (new_dpeer (dpeer_new now (ep_text eps e) (ucast (ep_port eps e)))) (\<lambda>p.
          andthen (modify (\<lambda>d. d\<lparr>dv_table := bimap_insert (dv_peers d) e p (dv_table d)\<rparr>))
          (andthen (modify (\<lambda>d. d\<lparr>dv_live := live_insert (dv_peers d) p (dv_live d)\<rparr>))
          (handle_client_request eps now (msg\<lparr>dm_src := Some p\<rparr>))))
      | Some p \<Rightarrow>
          andthen (modify (\<lambda>d. d\<lparr>dv_peers := (dv_peers d)[p := dpeer_update now (dv_peers d ! p)]\<rparr>))
          (handle_client_request eps now (msg\<lparr>dm_src := Some p\<rparr>))))"

text \<open>
  \<^verbatim>\<open>udp_service::handle_receive\<close>: an error other than a too long datagram, whose head is
  delivered all the same, ends the reception.
\<close>

definition dir_handle_receive :: "'e endpoints \<Rightarrow> int \<Rightarrow> bool \<Rightarrow> bytes \<Rightarrow> 'e \<Rightarrow> ('e, unit) dir_action" where
  "dir_handle_receive eps now failed data e =
     andthen (modify (\<lambda>d. d\<lparr>dv_receiving := False\<rparr>))
     (whenever (\<not> failed)
       (seq (new_text (take dir_buffer_size data)) (\<lambda>c.
        andthen (receive_handler eps now c e)
          (modify (\<lambda>d. d\<lparr>dv_receiving := True\<rparr>)))))"

end
