(* ===== verification/Directory_Facts.thy ===== *)
theory Directory_Facts
  imports Directory
begin

text \<open>
  What the directory server does: its containers hold the endpoints heard in the last 30 seconds
  in the order of their texts and ports. The abstract directory is a partial function from
  endpoints to times; \<open>directory_refines\<close> is the refinement over every run.
\<close>

section \<open>The order of peers\<close>

text \<open>Unlike the addresses of the client, peers are ordered lexicographically.\<close>

definition dkey :: "dpeer \<Rightarrow> bytes \<times> u32" where
  "dkey p = (dp_address p, dp_port p)"

definition key_less :: "bytes \<times> u32 \<Rightarrow> bytes \<times> u32 \<Rightarrow> bool" where
  "key_less a b \<longleftrightarrow> fst a < fst b \<or> (fst a = fst b \<and> snd a < snd b)"

lemma dpeer_less_key: "dpeer_less p q \<longleftrightarrow> key_less (dkey p) (dkey q)"
  by (auto simp: dpeer_less_def key_less_def dkey_def dpeer_eq_def)

lemma key_less_order:
  "\<not> key_less a a"
  "key_less a b \<Longrightarrow> key_less b c \<Longrightarrow> key_less a c"
  "key_less a b \<or> a = b \<or> key_less b a"
  by (auto simp: key_less_def prod_eq_iff)

lemma key_less_cases: "\<not> key_less a b \<Longrightarrow> \<not> key_less b a \<Longrightarrow> a = b"
  using key_less_order(3) by blast

lemma same_key_iff: "same_key h p q \<longleftrightarrow> dkey (h ! p) = dkey (h ! q)"
  unfolding same_key_def dpeer_less_key using key_less_order(1) key_less_cases by metis

section \<open>What the directory knows\<close>

text \<open>
  The invariant: table and live set hold the same peers, each filed under the endpoint it was
  made of, and the live set is in key order. \<open>ep_ok\<close> is what is required of Boost.Asio: the text
  and the port of an endpoint make the endpoint again.
\<close>

definition ep_ok :: "'e endpoints \<Rightarrow> bool" where
  "ep_ok eps \<longleftrightarrow> (\<forall>e. ep_make eps (ep_text eps e) (ep_port eps e) = Inr e)"

definition ep_key :: "'e endpoints \<Rightarrow> 'e \<Rightarrow> bytes \<times> u32" where
  "ep_key eps e = (ep_text eps e, ucast (ep_port eps e))"

definition live_sorted :: "dpeer list \<Rightarrow> nat list \<Rightarrow> bool" where
  "live_sorted h ps \<longleftrightarrow> sorted_wrt (\<lambda>p q. key_less (dkey (h ! p)) (dkey (h ! q))) ps"

definition dir_ok :: "'e endpoints \<Rightarrow> 'e directory \<Rightarrow> bool" where
  "dir_ok eps d \<longleftrightarrow> distinct (map fst (dv_table d))
     \<and> (\<forall>(e, p) \<in> set (dv_table d). p < length (dv_peers d) \<and> dkey (dv_peers d ! p) = ep_key eps e)
     \<and> set (dv_live d) = snd ` set (dv_table d)
     \<and> live_sorted (dv_peers d) (dv_live d)"

text \<open>The abstract state: when each known endpoint was heard last.\<close>

definition heard :: "'e directory \<Rightarrow> 'e \<rightharpoonup> int" where
  "heard d e = map_option (\<lambda>p. dp_last_beat (dv_peers d ! p)) (map_of (dv_table d) e)"

text \<open>The abstract step: a datagram from \<open>e\<close> at time \<open>now\<close> is heard, silence of over 30 s forgets.\<close>

definition hear :: "int \<Rightarrow> 'e \<Rightarrow> ('e \<rightharpoonup> int) \<Rightarrow> ('e \<rightharpoonup> int)" where
  "hear now e m = (\<lambda>x. case (m(e \<mapsto> now)) x of
     None \<Rightarrow> None | Some t \<Rightarrow> if now - t > 30 then None else Some t)"

lemma port_narrow [simp]: "ucast (ucast w :: u32) = w" for w :: u16
  by (rule bit_word_eqI) (simp add: bit_simps)

lemma unat_port [simp]: "unat (ucast w :: u32) = unat w" for w :: u16
  using unsigned_less [where ?'a = nat, of w]
  by (simp add: unsigned_ucast_eq take_bit_nat_eq_self)

lemma ep_key_inj:
  assumes "ep_ok eps" and "ep_key eps e = ep_key eps f"
  shows "e = f"
proof -
  have "ep_port eps e = ep_port eps f" using assms(2) by (metis ep_key_def prod.inject port_narrow)
  then show ?thesis using assms by (metis ep_ok_def ep_key_def Inr_inject prod.inject)
qed

section \<open>The containers\<close>

lemma set_live_insert:
  "(\<And>q. q \<in> set ps \<Longrightarrow> dkey (h ! q) \<noteq> dkey (h ! p)) \<Longrightarrow> set (live_insert h p ps) = insert p (set ps)"
  by (induction h p ps rule: live_insert.induct) (auto simp: dpeer_less_key dest: key_less_cases)

lemma live_sorted_insert:
  "live_sorted h ps \<Longrightarrow> (\<And>q. q \<in> set ps \<Longrightarrow> dkey (h ! q) \<noteq> dkey (h ! p)) \<Longrightarrow>
   live_sorted h (live_insert h p ps)"
proof (induction h p ps rule: live_insert.induct)
  case (1 h p)
  then show ?case by (simp add: live_sorted_def)
next
  case (2 h p q qs)
  let ?k = "\<lambda>x. dkey (h ! x)"
  have srt: "live_sorted h qs" "\<And>x. x \<in> set qs \<Longrightarrow> key_less (?k q) (?k x)"
    using 2(2) by (auto simp: live_sorted_def)
  consider "key_less (?k p) (?k q)" | "\<not> key_less (?k p) (?k q)" "key_less (?k q) (?k p)"
    using 2(3) [of q] key_less_cases by fastforce
  then show ?case
  proof cases
    case 1
    then show ?thesis
      using 2(2) key_less_order(2) [OF 1] by (auto simp: dpeer_less_key live_sorted_def)
  next
    case 2
    then have "live_sorted h (live_insert h p qs)"
      using "2.IH" "2.prems"(2) srt(1) by (simp add: dpeer_less_key)
    then show ?thesis
      using 2 srt(2) set_live_insert [of qs h p] "2.prems"(2) by (simp add: dpeer_less_key live_sorted_def)
  qed
qed

lemma expire_eq:
  "expire now h ps t = (filter (\<lambda>p. \<not> dead now (h ! p)) ps,
     filter (\<lambda>(e, q). \<forall>p \<in> set ps. dead now (h ! p) \<longrightarrow> \<not> same_key h p q) t)"
proof (induction now h ps t rule: expire.induct)
  case (1 now h t)
  then show ?case by simp
next
  case (2 now h p ps t)
  then show ?case
    by (auto simp: right_erase_def case_prod_unfold intro!: filter_cong)
qed

lemma dir_entry:
  assumes "dir_ok eps d" and "(e, p) \<in> set (dv_table d)"
  shows "p < length (dv_peers d)" "dkey (dv_peers d ! p) = ep_key eps e" "map_of (dv_table d) e = Some p"
    "p \<in> set (dv_live d)"
proof -
  show "p < length (dv_peers d)" "dkey (dv_peers d ! p) = ep_key eps e"
    using assms unfolding dir_ok_def by blast+
  show "map_of (dv_table d) e = Some p" using assms by (simp add: dir_ok_def)
  show "p \<in> set (dv_live d)" using assms by (force simp: dir_ok_def)
qed

text \<open>Two entries with the same key are the same entry.\<close>

lemma entry_unique:
  assumes "ep_ok eps" and "dir_ok eps d" and "(e, p) \<in> set (dv_table d)" and "(f, q) \<in> set (dv_table d)"
    and "dkey (dv_peers d ! p) = dkey (dv_peers d ! q)"
  shows "e = f \<and> p = q"
proof -
  have "e = f" using assms dir_entry(2) ep_key_inj by metis
  moreover have "p = q" using assms dir_entry(3) \<open>e = f\<close> by (metis option.inject)
  ultimately show ?thesis ..
qed

lemma right_find_entry:
  assumes "ep_ok eps" and "dir_ok eps d" and "(e, p) \<in> set (dv_table d)"
  shows "right_find (dv_peers d) p (dv_table d) = Some e"
proof -
  let ?P = "\<lambda>(f, q). same_key (dv_peers d) p q"
  have "List.find ?P (dv_table d) \<noteq> None"
    using assms(3) by (auto simp: find_None_iff same_key_iff)
  then obtain f q where "List.find ?P (dv_table d) = Some (f, q)" by auto
  moreover from this have "(f, q) \<in> set (dv_table d)" "dkey (dv_peers d ! p) = dkey (dv_peers d ! q)"
    by (auto simp: find_Some_iff same_key_iff) (metis nth_mem)
  ultimately show ?thesis using entry_unique [OF assms] by (simp add: right_find_def)
qed

section \<open>A datagram arrives\<close>

text \<open>Registering the sender: a new peer, or the known one updated.\<close>

lemma dkey_update: "dkey (dpeer_update now p) = dkey p"
  by (simp add: dkey_def dpeer_update_def)

lemma dkey_nth_update: "dkey (h[p := dpeer_update now (h ! p)] ! q) = dkey (h ! q)"
  by (cases "p < length h") (auto simp: dkey_update nth_list_update list_update_beyond)

definition refreshed :: "int \<Rightarrow> nat \<Rightarrow> 'e directory \<Rightarrow> 'e directory" where
  "refreshed now p d = d\<lparr>dv_peers := (dv_peers d)[p := dpeer_update now (dv_peers d ! p)]\<rparr>"

lemma refreshed_ok: "dir_ok eps d \<Longrightarrow> dir_ok eps (refreshed now p d)"
  by (simp add: dir_ok_def refreshed_def dkey_nth_update live_sorted_def)

lemma refreshed_heard:
  assumes "ep_ok eps" and "dir_ok eps d" and "map_of (dv_table d) e = Some p"
  shows "heard (refreshed now p d) = (heard d)(e \<mapsto> now)"
proof
  fix x
  have ep: "(e, p) \<in> set (dv_table d)" using assms(3) by (rule map_of_SomeD)
  show "heard (refreshed now p d) x = ((heard d)(e \<mapsto> now)) x"
  proof (cases "x = e")
    case True
    then show ?thesis
      using assms(3) dir_entry(1) [OF assms(2) ep] by (simp add: heard_def refreshed_def dpeer_update_def)
  next
    case False
    then have "map_of (dv_table d) x \<noteq> Some p"
      using entry_unique [OF assms(1,2) ep, of x p] map_of_SomeD by fastforce
    then show ?thesis using False
      by (cases "map_of (dv_table d) x") (auto simp: heard_def refreshed_def nth_list_update)
  qed
qed

definition registered_at :: "'e endpoints \<Rightarrow> int \<Rightarrow> 'e \<Rightarrow> 'e directory \<Rightarrow> 'e directory" where
  "registered_at eps now e d =
     (let p = length (dv_peers d);
          h = dv_peers d @ [dpeer_new now (ep_text eps e) (ucast (ep_port eps e))]
      in d\<lparr>dv_peers := h, dv_table := bimap_insert h e p (dv_table d), dv_live := live_insert h p (dv_live d)\<rparr>)"

lemma new_peer_keys:
  assumes "ep_ok eps" and "dir_ok eps d" and "map_of (dv_table d) e = None"
    and h: "h = dv_peers d @ [dpeer_new now (ep_text eps e) (ucast (ep_port eps e))]"
    and fq: "(f, q) \<in> set (dv_table d)"
  shows "h ! q = dv_peers d ! q" "dkey (h ! q) = ep_key eps f" "dkey (h ! q) \<noteq> dkey (h ! length (dv_peers d))"
proof -
  show "h ! q = dv_peers d ! q" using dir_entry(1) [OF assms(2) fq] by (simp add: nth_append h)
  then show k: "dkey (h ! q) = ep_key eps f" using dir_entry(2) [OF assms(2) fq] by simp
  have "f \<noteq> e" using dir_entry(3) [OF assms(2) fq] assms(3) by auto
  then show "dkey (h ! q) \<noteq> dkey (h ! length (dv_peers d))"
    using k ep_key_inj [OF assms(1), of f e] by (auto simp: h ep_key_def dkey_def dpeer_new_def)
qed

lemma live_entry: "dir_ok eps d \<Longrightarrow> q \<in> set (dv_live d) \<Longrightarrow> \<exists>f. (f, q) \<in> set (dv_table d)"
  by (auto simp: dir_ok_def)

lemma registered_fields:
  assumes "ep_ok eps" and "dir_ok eps d" and "map_of (dv_table d) e = None"
    and h: "h = dv_peers d @ [dpeer_new now (ep_text eps e) (ucast (ep_port eps e))]"
  shows "dv_peers (registered_at eps now e d) = h"
    "dv_table (registered_at eps now e d) = dv_table d @ [(e, length (dv_peers d))]"
    "dv_live (registered_at eps now e d) = live_insert h (length (dv_peers d)) (dv_live d)"
proof -
  have "List.find (\<lambda>(f, q). same_key h (length (dv_peers d)) q) (dv_table d) = None"
    using new_peer_keys(3) [OF assms] by (force simp: find_None_iff same_key_iff)
  then show "dv_peers (registered_at eps now e d) = h"
      "dv_table (registered_at eps now e d) = dv_table d @ [(e, length (dv_peers d))]"
      "dv_live (registered_at eps now e d) = live_insert h (length (dv_peers d)) (dv_live d)"
    using assms(3) by (simp_all add: registered_at_def Let_def bimap_insert_def right_find_def flip: h)
qed

lemma registered_ok:
  assumes "ep_ok eps" and "dir_ok eps d" and "map_of (dv_table d) e = None"
  shows "dir_ok eps (registered_at eps now e d)"
proof -
  define h where "h = dv_peers d @ [dpeer_new now (ep_text eps e) (ucast (ep_port eps e))]"
  let ?p = "length (dv_peers d)"
  note old = new_peer_keys [OF assms h_def] and fields = registered_fields [OF assms h_def]
  have other: "dkey (h ! q) \<noteq> dkey (h ! ?p)" if "q \<in> set (dv_live d)" for q
    using live_entry [OF assms(2) that] old(3) by blast
  have "dkey (h ! q) = dkey (dv_peers d ! q)" if "q \<in> set (dv_live d)" for q
    using live_entry [OF assms(2) that] old(1) by auto
  then have "map (\<lambda>q. dkey (h ! q)) (dv_live d) = map (\<lambda>q. dkey (dv_peers d ! q)) (dv_live d)" by simp
  moreover have "sorted_wrt key_less (map (\<lambda>q. dkey (dv_peers d ! q)) (dv_live d))"
    using assms(2) by (simp add: dir_ok_def live_sorted_def sorted_wrt_map)
  ultimately have "live_sorted h (dv_live d)" by (metis live_sorted_def sorted_wrt_map)
  then have "live_sorted h (live_insert h ?p (dv_live d))" using other by (rule live_sorted_insert)
  moreover have "set (live_insert h ?p (dv_live d)) = insert ?p (set (dv_live d))"
    using other by (rule set_live_insert)
  moreover have "e \<notin> fst ` set (dv_table d)" using assms(3) by (simp add: map_of_eq_None_iff)
  moreover have "q < length h \<and> dkey (h ! q) = ep_key eps f" if "(f, q) \<in> set (dv_table d)" for f q
    using that old(2) dir_entry(1) [OF assms(2)] by (auto simp: h_def less_Suc_eq)
  moreover have "dkey (h ! ?p) = ep_key eps e" "?p < length h"
    by (simp_all add: h_def dkey_def ep_key_def dpeer_new_def)
  ultimately show ?thesis using assms(2) unfolding dir_ok_def fields by auto
qed

lemma registered_heard:
  assumes "ep_ok eps" and "dir_ok eps d" and "map_of (dv_table d) e = None"
  shows "heard (registered_at eps now e d) = (heard d)(e \<mapsto> now)"
proof
  fix x
  define h where "h = dv_peers d @ [dpeer_new now (ep_text eps e) (ucast (ep_port eps e))]"
  note old = new_peer_keys [OF assms h_def] and fields = registered_fields [OF assms h_def]
  show "heard (registered_at eps now e d) x = ((heard d)(e \<mapsto> now)) x"
  proof (cases "map_of (dv_table d) x")
    case None
    then show ?thesis by (auto simp: heard_def fields map_add_def h_def dpeer_new_def)
  next
    case (Some q)
    then have "h ! q = dv_peers d ! q" "x \<noteq> e" using old(1) assms(3) by (auto dest: map_of_SomeD)
    then show ?thesis using Some by (simp add: heard_def fields map_add_def)
  qed
qed

text \<open>Forgetting the dead.\<close>

definition forgotten :: "int \<Rightarrow> 'e directory \<Rightarrow> 'e directory" where
  "forgotten now d = d\<lparr>dv_live := filter (\<lambda>p. \<not> dead now (dv_peers d ! p)) (dv_live d),
     dv_table := filter (\<lambda>(e, p). \<not> dead now (dv_peers d ! p)) (dv_table d)\<rparr>"

lemma live_peers_eq:
  assumes "ep_ok eps" and "dir_ok eps d"
  shows "live_peers now d = (Inr (dv_live (forgotten now d)), forgotten now d)"
proof -
  have "(\<forall>p \<in> set (dv_live d). dead now (dv_peers d ! p) \<longrightarrow> \<not> same_key (dv_peers d) p q)
      \<longleftrightarrow> \<not> dead now (dv_peers d ! q)" if "(e, q) \<in> set (dv_table d)" for e q
    using that dir_entry(4) [OF assms(2) that] live_entry [OF assms(2)] entry_unique [OF assms _ that]
    by (metis same_key_iff)
  then have "filter (\<lambda>(e, q). \<forall>p \<in> set (dv_live d). dead now (dv_peers d ! p) \<longrightarrow> \<not> same_key (dv_peers d) p q)
      (dv_table d) = filter (\<lambda>(e, q). \<not> dead now (dv_peers d ! q)) (dv_table d)"
    by (intro filter_cong) auto
  then show ?thesis by (simp add: live_peers_def expire_eq forgotten_def)
qed

lemma forgotten_ok: "dir_ok eps d \<Longrightarrow> dir_ok eps (forgotten now d)"
  by (auto simp: dir_ok_def forgotten_def live_sorted_def sorted_wrt_filter distinct_map_filter
      distinct_map inj_on_def)

lemma map_of_filter_distinct:
  "distinct (map fst t) \<Longrightarrow> map_of (filter (\<lambda>(e, p). Q p) t) x =
     (case map_of t x of None \<Rightarrow> None | Some p \<Rightarrow> if Q p then Some p else None)"
  by (induction t) (auto split: option.splits simp: map_of_eq_None_iff image_iff dest: map_of_SomeD)

lemma forgotten_heard:
  "dir_ok eps d \<Longrightarrow> heard (forgotten now d) x = (case heard d x of
     None \<Rightarrow> None | Some t \<Rightarrow> if now - t > 30 then None else Some t)"
  by (auto simp: heard_def forgotten_def dir_ok_def dead_def
      map_of_filter_distinct [where Q = "\<lambda>p. \<not> dead now (dv_peers d ! p)", unfolded dead_def]
      split: option.splits)

text \<open>The answers: one datagram per listed peer, to the sender, and nothing else the directory looks at.\<close>

definition known_same :: "'e directory \<Rightarrow> 'e directory \<Rightarrow> bool" where
  "known_same d d' \<longleftrightarrow> dv_peers d' = dv_peers d \<and> dv_table d' = dv_table d \<and> dv_live d' = dv_live d"

lemma known_same_ok: "known_same d d' \<Longrightarrow> dir_ok eps d' = dir_ok eps d"
  by (simp add: known_same_def dir_ok_def)

lemma known_same_heard: "known_same d d' \<Longrightarrow> heard d' = heard d"
  by (simp add: known_same_def heard_def fun_eq_iff)

lemma remember_fields [simp]:
  "dv_peers (remember m d) = dv_peers d" "dv_table (remember m d) = dv_table d"
  "dv_live (remember m d) = dv_live d" "dv_texts (remember m d) = dv_texts d"
  "dv_sent (remember m d) = dv_sent d" "dv_receiving (remember m d) = dv_receiving d"
  by (simp_all add: remember_def split: option.splits)

lemma answers:
  assumes "right_find (dv_peers d) src (dv_table d) = Some e" and "dm_src msg = Some src"
  shows "\<exists>d'. for_each (answer_peer eps msg) ps d = (Inr (), d')
    \<and> known_same d d'
    \<and> dv_sent d' = dv_sent d @ map (\<lambda>p. (dpeer_to_string (dv_peers d ! p), e)) ps"
  using assms
proof (induction ps arbitrary: d)
  case Nil
  then show ?case by (simp add: act known_same_def)
next
  case (Cons p ps)
  let ?m = "prepare_empty_message\<lparr>dm_content := Some (length (dv_texts d)), dm_dst := dm_src msg\<rparr>"
  let ?t = "dpeer_to_string (dv_peers d ! p)"
  define d1 where "d1 = remember ?m (d\<lparr>dv_texts := dv_texts d @ [?t]\<rparr>)"
  define d2 where "d2 = d1\<lparr>dv_sent := dv_sent d1 @ [(dv_texts d1 ! length (dv_texts d), e)],
    dv_sending := dv_sending d1 @ [length (dv_texts d)]\<rparr>"
  have d2: "known_same d d2" "dv_sent d2 = dv_sent d @ [(?t, e)]"
    by (simp_all add: d2_def d1_def known_same_def)
  have "right_find (dv_peers d2) src (dv_table d2) = Some e"
    using d2(1) Cons.prems(1) by (simp add: known_same_def)
  then obtain d' where "for_each (answer_peer eps msg) ps d2 = (Inr (), d')" "known_same d2 d'" "dv_sent d' = dv_sent d2 @ map (\<lambda>p. (dpeer_to_string (dv_peers d2 ! p), e)) ps"
    using Cons.IH Cons.prems(2) by blast
  moreover have "answer_peer eps msg p d = (Inr (), d2)"
    using Cons.prems
    by (simp add: answer_peer_def new_text_def send_message_def act not_null_def dir_send_to_def d2_def d1_def)
  ultimately show ?case using d2 by (auto simp: act known_same_def)
qed

text \<open>The texts of a list of endpoints, as the directory answers them.\<close>

definition ep_address :: "'e endpoints \<Rightarrow> 'e \<Rightarrow> bytes" where
  "ep_address eps e = ep_text eps e @ [58] @ decimal (unat (ep_port eps e))"

lemma dpeer_to_string_key: "dkey p = ep_key eps e \<Longrightarrow> dpeer_to_string p = ep_address eps e"
  by (simp add: dpeer_to_string_def ep_address_def dkey_def ep_key_def)

text \<open>The live peers of a well-formed directory are its endpoints in key order.\<close>

lemma live_endpoints:
  assumes "ep_ok eps" and "dir_ok eps d"
  obtains xs where "set xs = dom (heard d)" and "sorted_wrt key_less (map (ep_key eps) xs)"
    and "map (\<lambda>p. dpeer_to_string (dv_peers d ! p)) (dv_live d) = map (ep_address eps) xs"
proof -
  define at where "at = (\<lambda>p. the (right_find (dv_peers d) p (dv_table d)))"
  have at: "(at p, p) \<in> set (dv_table d)" if p: "p \<in> set (dv_live d)" for p
  proof -
    obtain e where e: "(e, p) \<in> set (dv_table d)" using live_entry [OF assms(2) p] ..
    then show ?thesis using right_find_entry [OF assms e] by (simp add: at_def)
  qed
  then have key: "dkey (dv_peers d ! p) = ep_key eps (at p)" if "p \<in> set (dv_live d)" for p
    using dir_entry(2) [OF assms(2)] that by blast
  have at_of: "at p = e" "p \<in> set (dv_live d)" if "(e, p) \<in> set (dv_table d)" for e p
    using right_find_entry [OF assms that] dir_entry(4) [OF assms(2) that] by (simp_all add: at_def)
  show thesis
  proof
    show "set (map at (dv_live d)) = dom (heard d)"
    proof -
      have "dom (heard d) = fst ` set (dv_table d)" by (auto simp: heard_def dom_map_of_conv_image_fst [symmetric])
      moreover have "at ` set (dv_live d) = fst ` set (dv_table d)"
        using at at_of by (force simp: image_iff)
      ultimately show ?thesis by simp
    qed
    have "map (ep_key eps) (map at (dv_live d)) = map (\<lambda>p. dkey (dv_peers d ! p)) (dv_live d)"
      using key by simp
    moreover have "sorted_wrt key_less (map (\<lambda>p. dkey (dv_peers d ! p)) (dv_live d))"
      using assms(2) by (simp add: dir_ok_def live_sorted_def sorted_wrt_map)
    ultimately show "sorted_wrt key_less (map (ep_key eps) (map at (dv_live d)))" by (simp only:)
    show "map (\<lambda>p. dpeer_to_string (dv_peers d ! p)) (dv_live d) = map (ep_address eps) (map at (dv_live d))"
      by (simp add: dpeer_to_string_key [OF key])
  qed
qed

lemma request_answered:
  assumes eps: "ep_ok eps" and ok: "dir_ok eps d" and src: "dm_src msg = Some p"
    and ep: "(e, p) \<in> set (dv_table d)" and young: "\<not> dead now (dv_peers d ! p)"
  shows "\<exists>d'. handle_client_request eps now msg d = (Inr (), d') \<and> known_same (forgotten now d) d'
    \<and> dv_sent d' = dv_sent d @ map (\<lambda>q. (dpeer_to_string (dv_peers d ! q), e)) (dv_live (forgotten now d))"
proof -
  let ?d = "forgotten now d"
  have same: "dv_peers ?d = dv_peers d" "dv_sent ?d = dv_sent d" by (simp_all add: forgotten_def)
  have "(e, p) \<in> set (dv_table ?d)" using ep young by (simp add: forgotten_def)
  then have "right_find (dv_peers ?d) p (dv_table ?d) = Some e"
    by (rule right_find_entry [OF eps forgotten_ok [OF ok]])
  from answers [where d = ?d, OF this src] show ?thesis
    by (auto simp: handle_client_request_def act live_peers_eq [OF eps ok] same)
qed

text \<open>The sender is known and was heard now, whichever branch registered it.\<close>

lemma sender_noted:
  assumes eps: "ep_ok eps" and ok: "dir_ok eps d"
  obtains d1 p msg where "receive_handler eps now c e d = handle_client_request eps now msg d1"
    and "dm_src msg = Some p" and "dir_ok eps d1" and "map_of (dv_table d1) e = Some p"
    and "heard d1 = (heard d)(e \<mapsto> now)" and "dv_sent d1 = dv_sent d"
proof (cases "map_of (dv_table d) e")
  case None
  let ?p = "length (dv_peers d)"
  let ?m = "prepare_empty_message\<lparr>dm_content := Some c, dm_src := Some ?p\<rparr>"
  have "receive_handler eps now c e d = handle_client_request eps now ?m (registered_at eps now e d)"
    using None by (simp add: receive_handler_def Let_def act new_dpeer_def registered_at_def)
  moreover have "map_of (dv_table (registered_at eps now e d)) e = Some ?p"
    using None by (simp add: registered_fields(2) [OF eps ok None refl] map_add_def)
  ultimately show ?thesis
    using that registered_ok [OF eps ok None] registered_heard [OF eps ok None]
    by (simp add: registered_at_def Let_def)
next
  case (Some p)
  let ?m = "prepare_empty_message\<lparr>dm_content := Some c, dm_src := Some p\<rparr>"
  have "receive_handler eps now c e d = handle_client_request eps now ?m (refreshed now p d)"
    using Some by (simp add: receive_handler_def Let_def act refreshed_def)
  then show ?thesis
    using that refreshed_ok [OF ok] refreshed_heard [OF eps ok Some] Some by (simp add: refreshed_def)
qed

text \<open>One datagram: the refinement of \<^const>\<open>hear\<close>, and the answer.\<close>

definition listing :: "'e endpoints \<Rightarrow> 'e set \<Rightarrow> 'e list \<Rightarrow> bool" where
  "listing eps X xs \<longleftrightarrow> set xs = X \<and> sorted_wrt key_less (map (ep_key eps) xs)"

lemma receive_handler_hears:
  assumes eps: "ep_ok eps" and ok: "dir_ok eps d"
  shows "\<exists>d' xs. receive_handler eps now c e d = (Inr (), d') \<and> dir_ok eps d'
    \<and> heard d' = hear now e (heard d) \<and> listing eps (dom (heard d')) xs
    \<and> dv_sent d' = dv_sent d @ map (\<lambda>x. (ep_address eps x, e)) xs"
proof -
  obtain d1 p msg where d1: "receive_handler eps now c e d = handle_client_request eps now msg d1"
      "dm_src msg = Some p" "dir_ok eps d1" "map_of (dv_table d1) e = Some p"
      "heard d1 = (heard d)(e \<mapsto> now)" "dv_sent d1 = dv_sent d"
    using sender_noted [OF eps ok] by blast
  have "heard d1 e = Some now" by (simp add: d1(5))
  then have "\<not> dead now (dv_peers d1 ! p)" by (simp add: heard_def d1(4) dead_def)
  then obtain d' where d': "handle_client_request eps now msg d1 = (Inr (), d')"
      "known_same (forgotten now d1) d'"
      "dv_sent d' = dv_sent d1 @ map (\<lambda>q. (dpeer_to_string (dv_peers d1 ! q), e)) (dv_live (forgotten now d1))"
    using request_answered [OF eps d1(3,2) map_of_SomeD [OF d1(4)]] by blast
  have ok': "dir_ok eps d'" using known_same_ok [OF d'(2)] forgotten_ok [OF d1(3)] by simp
  have "heard d' = hear now e (heard d)"
    by (simp add: known_same_heard [OF d'(2)] forgotten_heard [OF d1(3)] hear_def d1(5) fun_eq_iff)
  moreover obtain xs where xs: "set xs = dom (heard d')" "sorted_wrt key_less (map (ep_key eps) xs)"
      "map (\<lambda>p. dpeer_to_string (dv_peers d' ! p)) (dv_live d') = map (ep_address eps) xs"
    using live_endpoints [OF eps ok'] by blast
  have "map (\<lambda>q. (dpeer_to_string (dv_peers d1 ! q), e)) (dv_live (forgotten now d1))
      = map (\<lambda>t. (t, e)) (map (\<lambda>q. dpeer_to_string (dv_peers d' ! q)) (dv_live d'))"
    using d'(2) by (simp add: known_same_def forgotten_def)
  then have "dv_sent d' = dv_sent d @ map (\<lambda>x. (ep_address eps x, e)) xs"
    unfolding d'(3) d1(6) xs(3) by simp
  ultimately show ?thesis using ok' d'(1) d1(1) xs(1,2) by (auto simp: listing_def)
qed

section \<open>Runs of the directory\<close>

datatype 'e dir_event = Datagram_from int bytes 'e | Send_done nat

fun on_dir_event :: "'e endpoints \<Rightarrow> 'e dir_event \<Rightarrow> ('e, unit) dir_action" where
  "on_dir_event eps (Datagram_from now data e) = dir_handle_receive eps now False data e"
| "on_dir_event eps (Send_done c) = dir_handle_send c"

text \<open>What the abstract directory does at an event.\<close>

fun spec_event :: "'e dir_event \<Rightarrow> ('e \<rightharpoonup> int) \<Rightarrow> ('e \<rightharpoonup> int)" where
  "spec_event (Datagram_from now data e) m = hear now e m"
| "spec_event (Send_done c) m = m"

lemma dir_receive_hears:
  assumes "ep_ok eps" and "dir_ok eps d"
  shows "\<exists>d' xs. dir_handle_receive eps now False data e d = (Inr (), d') \<and> dir_ok eps d'
    \<and> heard d' = hear now e (heard d) \<and> listing eps (dom (heard d')) xs \<and> dv_receiving d'
    \<and> dv_sent d' = dv_sent d @ map (\<lambda>x. (ep_address eps x, e)) xs"
proof -
  let ?c = "length (dv_texts d)"
  define d1 where "d1 = d\<lparr>dv_receiving := False, dv_texts := dv_texts d @ [take dir_buffer_size data]\<rparr>"
  have same: "known_same d d1" "dv_sent d1 = dv_sent d" by (simp_all add: d1_def known_same_def)
  then have "dir_ok eps d1" using assms(2) by (simp add: known_same_ok)
  then obtain d' xs where "receive_handler eps now ?c e d1 = (Inr (), d')" "dir_ok eps d'"
      "heard d' = hear now e (heard d1)" "listing eps (dom (heard d')) xs"
      "dv_sent d' = dv_sent d1 @ map (\<lambda>x. (ep_address eps x, e)) xs"
    using receive_handler_hears [OF assms(1)] by blast
  moreover have "known_same d' (d'\<lparr>dv_receiving := True\<rparr>)" by (simp add: known_same_def)
  ultimately show ?thesis
    using same known_same_ok [of d' "d'\<lparr>dv_receiving := True\<rparr>"] known_same_heard [of d' "d'\<lparr>dv_receiving := True\<rparr>"]
      known_same_heard [OF same(1)]
    by (auto simp: dir_handle_receive_def act new_text_def d1_def)
qed

lemma dir_send_same:
  "\<exists>d'. dir_handle_send c d = (Inr (), d') \<and> known_same d d' \<and> dv_receiving d' = dv_receiving d"
  by (auto simp: dir_handle_send_def send_handler_def act known_same_def split: option.splits)

lemma dir_event_refines:
  assumes "ep_ok eps" and "dir_ok eps d" and "dv_receiving d"
  shows "\<exists>d'. on_dir_event eps ev d = (Inr (), d') \<and> dir_ok eps d' \<and> dv_receiving d'
    \<and> heard d' = spec_event ev (heard d)"
proof (cases ev)
  case (Datagram_from now data e)
  then show ?thesis using dir_receive_hears [OF assms(1,2)] by simp blast
next
  case (Send_done c)
  then show ?thesis
    using dir_send_same [of c d] assms(2,3) by (auto simp: known_same_ok known_same_heard)
qed

lemma dir_run_refines:
  assumes "ep_ok eps"
  shows "dir_ok eps d \<Longrightarrow> dv_receiving d \<Longrightarrow> \<exists>d'. for_each (on_dir_event eps) evs d = (Inr (), d')
    \<and> dir_ok eps d' \<and> dv_receiving d' \<and> heard d' = fold spec_event evs (heard d)"
proof (induction evs arbitrary: d)
  case Nil
  then show ?case by (simp add: act)
next
  case (Cons ev evs)
  obtain d1 where "on_dir_event eps ev d = (Inr (), d1)" "dir_ok eps d1" "dv_receiving d1"
      "heard d1 = spec_event ev (heard d)"
    using dir_event_refines [OF assms Cons.prems] by blast
  then show ?case using Cons.IH [of d1] by (simp add: act)
qed

lemma directory_new_ok: "dir_ok eps directory_new" "dv_receiving directory_new" "heard directory_new = Map.empty"
  by (simp_all add: directory_new_def dir_ok_def live_sorted_def heard_def fun_eq_iff)

text \<open>
  C25: Over every run of datagrams and completed sends the directory server implements the abstract
  directory that remembers when each endpoint was heard last and forgets it after 30 seconds of
  silence: no event throws, reception goes on, and the next datagram is answered with one datagram
  per endpoint then known, the sender included, in the order of the keys.
\<close>

theorem directory_refines:
  assumes "ep_ok eps"
  shows "\<exists>d d' xs. for_each (on_dir_event eps) evs directory_new = (Inr (), d)
    \<and> heard d = fold spec_event evs Map.empty
    \<and> dir_handle_receive eps now False data e d = (Inr (), d') \<and> dv_receiving d'
    \<and> heard d' = hear now e (heard d) \<and> e \<in> set xs
    \<and> listing eps (dom (heard d')) xs
    \<and> dv_sent d' = dv_sent d @ map (\<lambda>x. (ep_address eps x, e)) xs"
proof -
  obtain d where d: "for_each (on_dir_event eps) evs directory_new = (Inr (), d)" "dir_ok eps d"
      "heard d = fold spec_event evs Map.empty"
    using dir_run_refines [OF assms directory_new_ok(1,2), of evs] unfolding directory_new_ok(3) by blast
  obtain d' xs where d': "dir_handle_receive eps now False data e d = (Inr (), d')"
      "heard d' = hear now e (heard d)" "listing eps (dom (heard d')) xs" "dv_receiving d'"
      "dv_sent d' = dv_sent d @ map (\<lambda>x. (ep_address eps x, e)) xs"
    using dir_receive_hears [OF assms d(2)] by blast
  have "e \<in> dom (heard d')" by (simp add: d'(2) hear_def dom_def)
  then have "e \<in> set xs" using d'(3) by (simp add: listing_def)
  then show ?thesis using d d' by blast
qed

text \<open>Endpoints that are an IP text and a port.\<close>

definition text_endpoints :: "(bytes \<times> u16) endpoints" where
  "text_endpoints = \<lparr>ep_text = fst, ep_port = snd, ep_make = (\<lambda>t p. Inr (t, p))\<rparr>"

lemma text_endpoints_ok: "ep_ok text_endpoints"
  by (simp add: ep_ok_def text_endpoints_def)

lemma directory_refines_witness:
  "\<exists>d d' xs. for_each (on_dir_event text_endpoints) [Datagram_from 0 [] (str ''a'', 1), Datagram_from 5 [] (str ''b'', 2)]
       directory_new = (Inr (), d)
    \<and> dir_handle_receive text_endpoints 33 False [] (str ''c'', 3) d = (Inr (), d')
    \<and> heard d' (str ''a'', 1) = None \<and> heard d' (str ''b'', 2) = Some 5 \<and> (str ''c'', 3) \<in> set xs
    \<and> dv_sent d' = dv_sent d @ map (\<lambda>x. (ep_address text_endpoints x, (str ''c'', 3))) xs"
proof -
  have ne: "str ''a'' \<noteq> str ''b''" "str ''a'' \<noteq> str ''c''" "str ''b'' \<noteq> str ''c''" by (simp_all add: str_def)
  from directory_refines [OF text_endpoints_ok,
      of "[Datagram_from 0 [] (str ''a'', 1), Datagram_from 5 [] (str ''b'', 2)]" 33 "[]" "(str ''c'', 3)"]
  show ?thesis using ne by (fastforce simp: hear_def)
qed

end
