(* ===== verification/Registry.thy ===== *)
theory Registry
  imports Std_Map Serial_Writer
begin

text \<open>
  \<^verbatim>\<open>grpc-server/GRPCServer.cpp\<close>: the registry server, a set of call objects driven by the
  completion queue of gRPC. Calls and writers are objects that delete themselves, so they live in
  stores and using one that is gone is \<open>Undefined\<close>; the peer records and the contexts of message
  streams are shared and never freed while a pointer to them is left. The gRPC runtime is third-party:
  an operation started with a tag is an entry of \<open>rg_pending\<close>, and its completion with the
  data the runtime has filled in is an event. SHA-1 is a parameter, the clock an argument.
\<close>

section \<open>Data\<close>

record rmessage =
  rm_peer :: bytes
  rm_type :: int
  rm_content :: bytes

record peer_info =
  pi_name :: bytes
  pi_last_active :: "64 word"
  pi_writer :: "nat option"

datatype rpc = HandleLogin | HandlePing | HandleListPeers | HandleSwitchMessages

datatype call_status = CREATE | RECEIVED_REQUEST | PROCESS | FINALLIZE

text \<open>The four handler classes; the metadata of a message stream is kept with its call, its only reader.\<close>

record call =
  cl_kind :: rpc
  cl_status :: call_status
  cl_token :: "bytes option"       \<comment> \<open>the metadata \<open>access-token\<close>\<close>
  cl_name :: bytes                 \<comment> \<open>\<open>request.name()\<close> of a login\<close>
  cl_ctx :: nat                    \<comment> \<open>\<open>ctx_\<close> of a message stream\<close>
  cl_msg :: rmessage               \<comment> \<open>\<open>msg_\<close>\<close>
  cl_peer :: "nat option"          \<comment> \<open>\<open>peer_\<close>\<close>

record switch_context =
  sc_peer :: "nat option"

record writer =
  wr_ctx :: nat
  wr_running :: bool
  wr_to_write :: "rmessage list"
  wr_sent :: "rmessage list"       \<comment> \<open>handed to the stream so far\<close>

datatype reply =
    Reply_token bytes
  | Reply_time "64 word"
  | Reply_peers "bytes list"
  | Reply_cancelled

datatype operation = Request rpc | Finish reply | Read | Write

record registry =
  rg_infos :: "peer_info list"
  rg_ids :: "(bytes, nat) std_map"       \<comment> \<open>\<open>peer_id_map_\<close>\<close>
  rg_names :: "(bytes, nat) std_map"     \<comment> \<open>\<open>peer_name_map_\<close>\<close>
  rg_ctxs :: "switch_context list"
  rg_calls :: "nat \<rightharpoonup> call"
  rg_writers :: "nat \<rightharpoonup> writer"
  rg_next :: nat
  rg_pending :: "(nat \<times> operation) list" \<comment> \<open>operations under way, with their tags\<close>

type_synonym 'a reg_action = "(registry, 'a) action"

section \<open>Objects\<close>

definition the_call :: "nat \<Rightarrow> call reg_action" where
  "the_call i = (\<lambda>r. case rg_calls r i of None \<Rightarrow> (Inl Undefined, r) | Some c \<Rightarrow> (Inr c, r))"

definition the_writer :: "nat \<Rightarrow> writer reg_action" where
  "the_writer i = (\<lambda>r. case rg_writers r i of None \<Rightarrow> (Inl Undefined, r) | Some w \<Rightarrow> (Inr w, r))"

definition set_call :: "nat \<Rightarrow> call \<Rightarrow> unit reg_action" where
  "set_call i c = modify (\<lambda>r. r\<lparr>rg_calls := (rg_calls r)(i \<mapsto> c)\<rparr>)"

definition set_writer :: "nat \<Rightarrow> writer \<Rightarrow> unit reg_action" where
  "set_writer i w = modify (\<lambda>r. r\<lparr>rg_writers := (rg_writers r)(i \<mapsto> w)\<rparr>)"

definition delete_call :: "nat \<Rightarrow> unit reg_action" where
  "delete_call i = modify (\<lambda>r. r\<lparr>rg_calls := (rg_calls r)(i := None)\<rparr>)"

definition delete_writer :: "nat \<Rightarrow> unit reg_action" where
  "delete_writer i = modify (\<lambda>r. r\<lparr>rg_writers := (rg_writers r)(i := None)\<rparr>)"

definition start_op :: "nat \<Rightarrow> operation \<Rightarrow> unit reg_action" where
  "start_op i op = modify (\<lambda>r. r\<lparr>rg_pending := rg_pending r @ [(i, op)]\<rparr>)"

definition fresh :: "nat reg_action" where
  "fresh = (\<lambda>r. (Inr (rg_next r), r\<lparr>rg_next := Suc (rg_next r)\<rparr>))"

definition set_info_writer :: "nat \<Rightarrow> nat option \<Rightarrow> unit reg_action" where
  "set_info_writer p w = modify (\<lambda>r. r\<lparr>rg_infos := (rg_infos r)[p := (rg_infos r ! p)\<lparr>pi_writer := w\<rparr>]\<rparr>)"

definition nonnull :: "nat option \<Rightarrow> nat reg_action" where
  "nonnull v = (case v of None \<Rightarrow> throw Null_deref | Some p \<Rightarrow> ret p)"

section \<open>Peers\<close>

definition peer_info_new :: "bytes \<Rightarrow> 64 word \<Rightarrow> peer_info" where
  "peer_info_new name now = \<lparr>pi_name = name, pi_last_active = now, pi_writer = None\<rparr>"

text \<open>\<^verbatim>\<open>std::hex\<close> prints a number without leading zeros.\<close>

definition hex_digit :: "nat \<Rightarrow> byte" where
  "hex_digit n = word_of_nat (if n < 10 then 48 + n else 87 + n)"

definition hex_byte :: "byte \<Rightarrow> bytes" where
  "hex_byte b = (let n = unat b in
     if n < 16 then [hex_digit n] else [hex_digit (n div 16), hex_digit (n mod 16)])"

definition access_token :: "(bytes \<Rightarrow> bytes) \<Rightarrow> bytes \<Rightarrow> bytes" where
  "access_token sha1 name = concat (map hex_byte (sha1 name))"

definition GetAccessToken :: "call \<Rightarrow> bytes" where
  "GetAccessToken c = (case cl_token c of None \<Rightarrow> [] | Some t \<Rightarrow> t)"

definition GetPeerInfo :: "call \<Rightarrow> registry \<Rightarrow> nat option" where
  "GetPeerInfo c r = map_of (rg_ids r) (GetAccessToken c)"

section \<open>Writers\<close>

text \<open>The two operations of \<^verbatim>\<open>PeerMessageWriter\<close> on its own members.\<close>

definition writer_put :: "rmessage \<Rightarrow> writer \<Rightarrow> writer" where
  "writer_put m w =
     (let w = w\<lparr>wr_to_write := wr_to_write w @ [m]\<rparr> in
      if \<not> wr_running w then w\<lparr>wr_sent := wr_sent w @ [hd (wr_to_write w)], wr_running := True\<rparr> else w)"

definition writer_done :: "writer \<Rightarrow> writer" where
  "writer_done w =
     (let w = w\<lparr>wr_to_write := tl (wr_to_write w)\<rparr> in
      if wr_to_write w \<noteq> [] then w\<lparr>wr_sent := wr_sent w @ [hd (wr_to_write w)]\<rparr>
      else w\<lparr>wr_running := False\<rparr>)"

text \<open>The context's peer is dereferenced for the log in every case.\<close>

definition writer_peer :: "writer \<Rightarrow> nat reg_action" where
  "writer_peer w = seq (gets (\<lambda>r. sc_peer (rg_ctxs r ! wr_ctx w))) nonnull"

definition writer_write :: "rmessage \<Rightarrow> nat \<Rightarrow> unit reg_action" where
  "writer_write m i = seq (the_writer i) (\<lambda>w. seq (writer_peer w) (\<lambda>p.
     andthen (set_writer i (writer_put m w)) (whenever (\<not> wr_running w) (start_op i Write))))"

text \<open>\<^verbatim>\<open>pop_front\<close> of an empty queue is undefined.\<close>

definition proceed_writer :: "bool \<Rightarrow> nat \<Rightarrow> unit reg_action" where
  "proceed_writer ok i = seq (the_writer i) (\<lambda>w. seq (writer_peer w) (\<lambda>p.
     if \<not> ok then andthen (set_info_writer p None) (delete_writer i)
     else if wr_to_write w = [] then throw Undefined
     else andthen (set_writer i (writer_done w))
            (whenever (wr_running (writer_done w)) (start_op i Write))))"

section \<open>Calls\<close>

definition call_new :: "rpc \<Rightarrow> nat \<Rightarrow> call" where
  "call_new k ctx = \<lparr>cl_kind = k, cl_status = CREATE, cl_token = None, cl_name = [], cl_ctx = ctx,
     cl_msg = \<lparr>rm_peer = [], rm_type = 0, rm_content = []\<rparr>, cl_peer = None\<rparr>"

definition new_context :: "nat reg_action" where
  "new_context = (\<lambda>r. (Inr (length (rg_ctxs r)), r\<lparr>rg_ctxs := rg_ctxs r @ [\<lparr>sc_peer = None\<rparr>]\<rparr>))"

text \<open>The constructors of the handlers; only a message stream makes a context.\<close>

definition login_new :: "nat reg_action" where
  "login_new = seq fresh (\<lambda>i. andthen (set_call i (call_new HandleLogin 0)) (ret i))"

definition ping_new :: "nat reg_action" where
  "ping_new = seq fresh (\<lambda>i. andthen (set_call i (call_new HandlePing 0)) (ret i))"

definition list_peers_new :: "nat reg_action" where
  "list_peers_new = seq fresh (\<lambda>i. andthen (set_call i (call_new HandleListPeers 0)) (ret i))"

definition switch_messages_new :: "nat reg_action" where
  "switch_messages_new = seq fresh (\<lambda>i. seq new_context (\<lambda>ctx.
     andthen (set_call i (call_new HandleSwitchMessages ctx)) (ret i)))"

text \<open>The virtual \<^verbatim>\<open>CreateInstance\<close> and \<^verbatim>\<open>RequestData\<close>, each the method of the handler's class.\<close>

definition create_instance :: "rpc \<Rightarrow> nat reg_action" where
  "create_instance k = (case k of
     HandleLogin \<Rightarrow> login_new
   | HandlePing \<Rightarrow> ping_new
   | HandleListPeers \<Rightarrow> list_peers_new
   | HandleSwitchMessages \<Rightarrow> switch_messages_new)"

definition set_status :: "nat \<Rightarrow> call_status \<Rightarrow> unit reg_action" where
  "set_status i st = seq (the_call i) (\<lambda>c. set_call i (c\<lparr>cl_status := st\<rparr>))"

definition login_request_data :: "nat \<Rightarrow> unit reg_action" where
  "login_request_data i = start_op i (Request HandleLogin)"

definition ping_request_data :: "nat \<Rightarrow> unit reg_action" where
  "ping_request_data i = start_op i (Request HandlePing)"

definition list_peers_request_data :: "nat \<Rightarrow> unit reg_action" where
  "list_peers_request_data i = start_op i (Request HandleListPeers)"

definition switch_request_data :: "nat \<Rightarrow> unit reg_action" where
  "switch_request_data i = start_op i (Request HandleSwitchMessages)"

definition request_data :: "nat \<Rightarrow> unit reg_action" where
  "request_data i = seq (the_call i) (\<lambda>c. case cl_kind c of
     HandleLogin \<Rightarrow> login_request_data i
   | HandlePing \<Rightarrow> ping_request_data i
   | HandleListPeers \<Rightarrow> list_peers_request_data i
   | HandleSwitchMessages \<Rightarrow> switch_request_data i)"

text \<open>What the dispatch comes to.\<close>

lemma create_instance_eq:
  "create_instance k = seq fresh (\<lambda>i.
     seq (if k = HandleSwitchMessages then new_context else ret 0) (\<lambda>ctx.
     andthen (set_call i (call_new k ctx)) (ret i)))"
  by (cases k) (simp_all add: create_instance_def login_new_def ping_new_def list_peers_new_def
      switch_messages_new_def fun_eq_iff act split: sum.split prod.split)

lemma request_data_eq: "request_data i = seq (the_call i) (\<lambda>c. start_op i (Request (cl_kind c)))"
proof -
  have "(case k of HandleLogin \<Rightarrow> login_request_data i | HandlePing \<Rightarrow> ping_request_data i
      | HandleListPeers \<Rightarrow> list_peers_request_data i | HandleSwitchMessages \<Rightarrow> switch_request_data i)
      = start_op i (Request k)" for k
    by (cases k) (simp_all add: login_request_data_def ping_request_data_def
        list_peers_request_data_def switch_request_data_def)
  then show ?thesis by (simp add: request_data_def)
qed

text \<open>\<^verbatim>\<open>Proceed(true)\<close> of a call in the state \<^verbatim>\<open>CREATE\<close>.\<close>

definition proceed_create :: "nat \<Rightarrow> unit reg_action" where
  "proceed_create i = andthen (set_status i RECEIVED_REQUEST) (request_data i)"

definition handle_login :: "(bytes \<Rightarrow> bytes) \<Rightarrow> 64 word \<Rightarrow> nat \<Rightarrow> call \<Rightarrow> bool reg_action" where
  "handle_login sha1 now i c =
     (let token = access_token sha1 (cl_name c) in
      andthen (modify (\<lambda>r. r\<lparr>rg_infos := rg_infos r @ [peer_info_new (cl_name c) now],
          rg_ids := map_insert token (length (rg_infos r)) (rg_ids r),
          rg_names := map_insert (cl_name c) (length (rg_infos r)) (rg_names r)\<rparr>))
      (andthen (start_op i (Finish (Reply_token token))) (ret True)))"

definition handle_ping :: "64 word \<Rightarrow> nat \<Rightarrow> call \<Rightarrow> bool reg_action" where
  "handle_ping now i c = seq (gets (GetPeerInfo c)) (\<lambda>peer. case peer of
     None \<Rightarrow> andthen (start_op i (Finish Reply_cancelled)) (ret True)
   | Some p \<Rightarrow>
       andthen (modify (\<lambda>r. r\<lparr>rg_infos := (rg_infos r)[p := (rg_infos r ! p)\<lparr>pi_last_active := now\<rparr>]\<rparr>))
       (andthen (start_op i (Finish (Reply_time now))) (ret True)))"

definition handle_list_peers :: "nat \<Rightarrow> call \<Rightarrow> bool reg_action" where
  "handle_list_peers i c = seq (gets (GetPeerInfo c)) (\<lambda>peer. case peer of
     None \<Rightarrow> andthen (start_op i (Finish Reply_cancelled)) (ret True)
   | Some p \<Rightarrow>
       seq (gets (\<lambda>r. map (\<lambda>(t, q). pi_name (rg_infos r ! q)) (rg_ids r))) (\<lambda>names.
       andthen (start_op i (Finish (Reply_peers names))) (ret True)))"

definition writer_new :: "nat \<Rightarrow> writer" where
  "writer_new ctx = \<lparr>wr_ctx = ctx, wr_running = False, wr_to_write = [], wr_sent = []\<rparr>"

declare writer_new_def [simp]

text \<open>The first round of a message stream makes the writer; the later ones pass a message on.\<close>

definition open_stream :: "nat \<Rightarrow> call \<Rightarrow> bool reg_action" where
  "open_stream i c = seq (gets (GetPeerInfo c)) (\<lambda>peer. case peer of
     None \<Rightarrow> andthen (start_op i (Finish Reply_cancelled)) (ret True)
   | Some p \<Rightarrow>
       andthen (set_call i (c\<lparr>cl_peer := Some p\<rparr>))
       (andthen (modify (\<lambda>r. r\<lparr>rg_ctxs := (rg_ctxs r)[cl_ctx c := \<lparr>sc_peer = Some p\<rparr>]\<rparr>))
       (seq fresh (\<lambda>w.
        andthen (set_writer w (writer_new (cl_ctx c)))
        (andthen (set_info_writer p (Some w))
        (andthen (start_op i Read) (ret False)))))))"

definition pass_message :: "nat \<Rightarrow> call \<Rightarrow> nat \<Rightarrow> bool reg_action" where
  "pass_message i c p =
     seq (gets (\<lambda>r. map_of (rg_names r) (rm_peer (cl_msg c)))) (\<lambda>dest.
     andthen
       (case dest of
          None \<Rightarrow> ret ()
        | Some q \<Rightarrow> seq (gets (\<lambda>r. pi_writer (rg_infos r ! q))) (\<lambda>w. case w of
            None \<Rightarrow> ret ()
          | Some v \<Rightarrow> seq (gets (\<lambda>r. pi_name (rg_infos r ! p))) (\<lambda>name.
              andthen (set_call i (c\<lparr>cl_msg := (cl_msg c)\<lparr>rm_peer := name\<rparr>\<rparr>))
                (writer_write ((cl_msg c)\<lparr>rm_peer := name\<rparr>) v))))
     (andthen (start_op i Read) (ret False)))"

definition handle_request :: "(bytes \<Rightarrow> bytes) \<Rightarrow> 64 word \<Rightarrow> nat \<Rightarrow> bool reg_action" where
  "handle_request sha1 now i = seq (the_call i) (\<lambda>c. case cl_kind c of
     HandleLogin \<Rightarrow> handle_login sha1 now i c
   | HandlePing \<Rightarrow> handle_ping now i c
   | HandleListPeers \<Rightarrow> handle_list_peers i c
   | HandleSwitchMessages \<Rightarrow> (case cl_peer c of
       None \<Rightarrow> open_stream i c
     | Some p \<Rightarrow> pass_message i c p))"

definition proceed_call :: "(bytes \<Rightarrow> bytes) \<Rightarrow> 64 word \<Rightarrow> bool \<Rightarrow> nat \<Rightarrow> unit reg_action" where
  "proceed_call sha1 now ok i = seq (the_call i) (\<lambda>c.
     if \<not> ok then andthen (seq (create_instance (cl_kind c)) proceed_create) (delete_call i)
     else (case cl_status c of
       CREATE \<Rightarrow> proceed_create i
     | RECEIVED_REQUEST \<Rightarrow>
         andthen (seq (create_instance (cl_kind c)) proceed_create)
         (seq (handle_request sha1 now i) (\<lambda>finished.
          set_status i (if finished then FINALLIZE else PROCESS)))
     | PROCESS \<Rightarrow> seq (handle_request sha1 now i) (\<lambda>finished.
         whenever finished (set_status i FINALLIZE))
     | FINALLIZE \<Rightarrow> delete_call i))"

section \<open>The server loop\<close>

text \<open>What the runtime stores when a request or a read completes.\<close>

record arrival =
  ar_token :: "bytes option"
  ar_name :: bytes
  ar_msg :: rmessage

definition fill :: "arrival \<Rightarrow> operation \<Rightarrow> call \<Rightarrow> call" where
  "fill a op c = (case op of
     Request k \<Rightarrow> c\<lparr>cl_token := ar_token a, cl_name := ar_name a\<rparr>
   | Read \<Rightarrow> c\<lparr>cl_msg := ar_msg a\<rparr>
   | _ \<Rightarrow> c)"

text \<open>One turn of the loop of \<^verbatim>\<open>RunServer\<close>: the \<open>n\<close>-th pending operation completes.\<close>

definition proceed :: "(bytes \<Rightarrow> bytes) \<Rightarrow> 64 word \<Rightarrow> bool \<Rightarrow> nat \<Rightarrow> unit reg_action" where
  "proceed sha1 now ok i = (\<lambda>r.
     if rg_calls r i \<noteq> None then proceed_call sha1 now ok i r else proceed_writer ok i r)"

definition complete_op :: "(bytes \<Rightarrow> bytes) \<Rightarrow> 64 word \<Rightarrow> bool \<Rightarrow> arrival \<Rightarrow> nat \<Rightarrow> unit reg_action" where
  "complete_op sha1 now ok a n = (\<lambda>r.
     if n < length (rg_pending r) then
       (let (i, op) = rg_pending r ! n;
            r = r\<lparr>rg_pending := take n (rg_pending r) @ drop (Suc n) (rg_pending r),
                  rg_calls := (if ok then (rg_calls r)(i := map_option (fill a op) (rg_calls r i)) else rg_calls r)\<rparr>
        in proceed sha1 now ok i r)
     else (Inr (), r))"

definition registry_new :: registry where
  "registry_new = \<lparr>rg_infos = [], rg_ids = [], rg_names = [], rg_ctxs = [], rg_calls = Map.empty,
     rg_writers = Map.empty, rg_next = 0, rg_pending = []\<rparr>"

definition run_server :: "unit reg_action" where
  "run_server = for_each (\<lambda>k. seq (create_instance k) proceed_create)
     [HandleLogin, HandleListPeers, HandleSwitchMessages]"

end
