(* ===== verification/Registry_Invariant.thy ===== *)
theory Registry_Invariant
  imports Registry
begin

text \<open>
  The invariant of the registry server: every pending operation belongs to a live object in the
  right state, every live call waits for an operation, every pointer leads to a live object. It
  makes the server memory safe, and always ready for the next call of each kind.
\<close>

section \<open>The invariant\<close>

definition tables_ok :: "registry \<Rightarrow> bool" where
  "tables_ok r \<longleftrightarrow> sorted_keys (rg_ids r) \<and> sorted_keys (rg_names r)
     \<and> (\<forall>k p. map_of (rg_ids r) k = Some p \<longrightarrow> p < length (rg_infos r))
     \<and> (\<forall>k p. map_of (rg_names r) k = Some p \<longrightarrow> p < length (rg_infos r))"

definition calls_ok :: "registry \<Rightarrow> bool" where
  "calls_ok r \<longleftrightarrow>
     (\<forall>i c. rg_calls r i = Some c \<longrightarrow> i < rg_next r \<and> rg_writers r i = None
        \<and> (cl_kind c = HandleSwitchMessages \<longrightarrow> cl_ctx c < length (rg_ctxs r))
        \<and> (\<forall>p. cl_peer c = Some p \<longrightarrow> p < length (rg_infos r)))
   \<and> (\<forall>i j c d. rg_calls r i = Some c \<and> rg_calls r j = Some d \<and> i \<noteq> j
        \<and> cl_kind c = HandleSwitchMessages \<and> cl_kind d = HandleSwitchMessages \<longrightarrow> cl_ctx c \<noteq> cl_ctx d)
   \<and> (\<forall>i c v w. rg_calls r i = Some c \<and> cl_kind c = HandleSwitchMessages \<and> cl_peer c = None
        \<and> rg_writers r v = Some w \<longrightarrow> wr_ctx w \<noteq> cl_ctx c)"

definition writers_ok :: "registry \<Rightarrow> bool" where
  "writers_ok r \<longleftrightarrow> (\<forall>i w. rg_writers r i = Some w \<longrightarrow> i < rg_next r \<and> wr_ctx w < length (rg_ctxs r)
     \<and> (\<exists>p. sc_peer (rg_ctxs r ! wr_ctx w) = Some p \<and> p < length (rg_infos r))
     \<and> (wr_running w \<longleftrightarrow> wr_to_write w \<noteq> []))"

definition infos_ok :: "registry \<Rightarrow> bool" where
  "infos_ok r \<longleftrightarrow> (\<forall>p v. p < length (rg_infos r) \<and> pi_writer (rg_infos r ! p) = Some v \<longrightarrow>
     (\<exists>w. rg_writers r v = Some w \<and> sc_peer (rg_ctxs r ! wr_ctx w) = Some p))"

fun op_ok :: "registry \<Rightarrow> nat \<Rightarrow> operation \<Rightarrow> bool" where
  "op_ok r i (Request k) = (case rg_calls r i of None \<Rightarrow> False
     | Some c \<Rightarrow> cl_kind c = k \<and> cl_status c = RECEIVED_REQUEST \<and> cl_peer c = None)"
| "op_ok r i (Finish x) = (case rg_calls r i of None \<Rightarrow> False | Some c \<Rightarrow> cl_status c = FINALLIZE)"
| "op_ok r i Read = (case rg_calls r i of None \<Rightarrow> False
     | Some c \<Rightarrow> cl_kind c = HandleSwitchMessages \<and> cl_status c = PROCESS \<and> cl_peer c \<noteq> None)"
| "op_ok r i Write = (case rg_writers r i of None \<Rightarrow> False | Some w \<Rightarrow> wr_running w)"

text \<open>\<open>X\<close> holds the tag whose completion is being handled, for which the conditions are suspended.\<close>

definition ops_ok :: "nat set \<Rightarrow> registry \<Rightarrow> bool" where
  "ops_ok X r \<longleftrightarrow> distinct (map fst (rg_pending r))
     \<and> (\<forall>(i, op) \<in> set (rg_pending r). i < rg_next r \<and> (i \<notin> X \<longrightarrow> op_ok r i op))
     \<and> (\<forall>i c. rg_calls r i = Some c \<and> i \<notin> X \<longrightarrow> i \<in> fst ` set (rg_pending r))
     \<and> (\<forall>i w. rg_writers r i = Some w \<and> i \<notin> X \<longrightarrow> (wr_running w \<longleftrightarrow> i \<in> fst ` set (rg_pending r)))"

definition reg_inv :: "nat set \<Rightarrow> registry \<Rightarrow> bool" where
  "reg_inv X r \<longleftrightarrow> tables_ok r \<and> calls_ok r \<and> writers_ok r \<and> infos_ok r \<and> ops_ok X r"

lemma reg_invD:
  assumes "reg_inv X r"
  shows "tables_ok r" "calls_ok r" "writers_ok r" "infos_ok r" "ops_ok X r"
  using assms by (simp_all add: reg_inv_def)

lemmas reg_parts = tables_ok_def calls_ok_def writers_ok_def infos_ok_def ops_ok_def

lemma wp_the_call [wps]: "wp (the_call i) Q E r \<longleftrightarrow>
    (case rg_calls r i of None \<Rightarrow> E Undefined r | Some c \<Rightarrow> Q c r)"
  by (simp add: wp_def the_call_def split: option.splits)

lemma wp_the_writer [wps]: "wp (the_writer i) Q E r \<longleftrightarrow>
    (case rg_writers r i of None \<Rightarrow> E Undefined r | Some w \<Rightarrow> Q w r)"
  by (simp add: wp_def the_writer_def split: option.splits)

lemma wp_fresh [wps]: "wp fresh Q E r \<longleftrightarrow> Q (rg_next r) (r\<lparr>rg_next := Suc (rg_next r)\<rparr>)"
  by (simp add: wp_def fresh_def)

lemma wp_new_context [wps]: "wp new_context Q E r \<longleftrightarrow>
    Q (length (rg_ctxs r)) (r\<lparr>rg_ctxs := rg_ctxs r @ [\<lparr>sc_peer = None\<rparr>]\<rparr>)"
  by (simp add: wp_def new_context_def)

lemma wp_nonnull [wps]: "wp (nonnull v) Q E r \<longleftrightarrow> (case v of None \<Rightarrow> E Null_deref r | Some p \<Rightarrow> Q p r)"
  by (simp add: nonnull_def wps split: option.splits)

lemmas reg_ops = set_call_def set_writer_def delete_call_def delete_writer_def start_op_def
  set_info_writer_def set_status_def request_data_eq proceed_create_def writer_peer_def

lemma call_okD:
  assumes "calls_ok r" and "rg_calls r i = Some c"
  shows "i < rg_next r" "rg_writers r i = None"
    "cl_kind c = HandleSwitchMessages \<Longrightarrow> cl_ctx c < length (rg_ctxs r)"
    "cl_peer c = Some p \<Longrightarrow> p < length (rg_infos r)"
  using assms unfolding calls_ok_def by blast+

lemma call_ctx_distinct:
  assumes "calls_ok r" and "rg_calls r i = Some c" and "rg_calls r j = Some d" and "i \<noteq> j"
    and "cl_kind c = HandleSwitchMessages" and "cl_kind d = HandleSwitchMessages"
  shows "cl_ctx c \<noteq> cl_ctx d"
  using assms unfolding calls_ok_def by blast

lemma call_ctx_unused:
  assumes "calls_ok r" and "rg_calls r i = Some c" and "cl_kind c = HandleSwitchMessages"
    and "cl_peer c = None" and "rg_writers r v = Some w"
  shows "wr_ctx w \<noteq> cl_ctx c"
  using assms unfolding calls_ok_def by blast

lemma calls_okI:
  assumes "\<And>i c. rg_calls r i = Some c \<Longrightarrow> i < rg_next r \<and> rg_writers r i = None
      \<and> (cl_kind c = HandleSwitchMessages \<longrightarrow> cl_ctx c < length (rg_ctxs r))
      \<and> (\<forall>p. cl_peer c = Some p \<longrightarrow> p < length (rg_infos r))"
    and "\<And>i j c d. rg_calls r i = Some c \<Longrightarrow> rg_calls r j = Some d \<Longrightarrow> i \<noteq> j \<Longrightarrow>
      cl_kind c = HandleSwitchMessages \<Longrightarrow> cl_kind d = HandleSwitchMessages \<Longrightarrow> cl_ctx c \<noteq> cl_ctx d"
    and "\<And>i c v w. rg_calls r i = Some c \<Longrightarrow> cl_kind c = HandleSwitchMessages \<Longrightarrow> cl_peer c = None \<Longrightarrow>
      rg_writers r v = Some w \<Longrightarrow> wr_ctx w \<noteq> cl_ctx c"
  shows "calls_ok r"
  using assms unfolding calls_ok_def by blast

lemma writer_okD:
  assumes "writers_ok r" and "rg_writers r i = Some w"
  shows "i < rg_next r" "wr_ctx w < length (rg_ctxs r)" "wr_running w \<longleftrightarrow> wr_to_write w \<noteq> []"
    "\<exists>p. sc_peer (rg_ctxs r ! wr_ctx w) = Some p \<and> p < length (rg_infos r)"
  using assms unfolding writers_ok_def by blast+

lemma writers_okI:
  assumes "\<And>i w. rg_writers r i = Some w \<Longrightarrow> i < rg_next r \<and> wr_ctx w < length (rg_ctxs r)
      \<and> (\<exists>p. sc_peer (rg_ctxs r ! wr_ctx w) = Some p \<and> p < length (rg_infos r))
      \<and> (wr_running w \<longleftrightarrow> wr_to_write w \<noteq> [])"
  shows "writers_ok r"
  using assms unfolding writers_ok_def by blast

lemma info_okD:
  assumes "infos_ok r" and "p < length (rg_infos r)" and "pi_writer (rg_infos r ! p) = Some v"
  obtains w where "rg_writers r v = Some w" and "sc_peer (rg_ctxs r ! wr_ctx w) = Some p"
  using assms unfolding infos_ok_def by blast

lemma infos_okI:
  assumes "\<And>p v. p < length (rg_infos r) \<Longrightarrow> pi_writer (rg_infos r ! p) = Some v \<Longrightarrow>
    \<exists>w. rg_writers r v = Some w \<and> sc_peer (rg_ctxs r ! wr_ctx w) = Some p"
  shows "infos_ok r"
  using assms unfolding infos_ok_def by blast

lemma op_okD:
  assumes "ops_ok X r" and "(i, op) \<in> set (rg_pending r)"
  shows "i < rg_next r" "i \<notin> X \<Longrightarrow> op_ok r i op"
  using assms unfolding ops_ok_def by blast+

lemma ops_okI:
  assumes "distinct (map fst (rg_pending r))"
    and "\<And>i op. (i, op) \<in> set (rg_pending r) \<Longrightarrow> i < rg_next r \<and> (i \<notin> X \<longrightarrow> op_ok r i op)"
    and "\<And>i c. rg_calls r i = Some c \<Longrightarrow> i \<notin> X \<Longrightarrow> i \<in> fst ` set (rg_pending r)"
    and "\<And>i w. rg_writers r i = Some w \<Longrightarrow> i \<notin> X \<Longrightarrow> wr_running w \<longleftrightarrow> i \<in> fst ` set (rg_pending r)"
  shows "ops_ok X r"
  using assms unfolding ops_ok_def by blast

lemma ops_distinct: "ops_ok X r \<Longrightarrow> distinct (map fst (rg_pending r))"
  unfolding ops_ok_def by blast

lemma call_waits: "ops_ok X r \<Longrightarrow> rg_calls r i = Some c \<Longrightarrow> i \<notin> X \<Longrightarrow> i \<in> fst ` set (rg_pending r)"
  unfolding ops_ok_def by blast

lemma writer_waits:
  "ops_ok X r \<Longrightarrow> rg_writers r i = Some w \<Longrightarrow> i \<notin> X \<Longrightarrow> wr_running w \<longleftrightarrow> i \<in> fst ` set (rg_pending r)"
  unfolding ops_ok_def by blast

section \<open>A new call waits for its request\<close>

definition with_call :: "rpc \<Rightarrow> registry \<Rightarrow> registry" where
  "with_call k r = r\<lparr>rg_next := Suc (rg_next r),
     rg_ctxs := (if k = HandleSwitchMessages then rg_ctxs r @ [\<lparr>sc_peer = None\<rparr>] else rg_ctxs r),
     rg_calls := (rg_calls r)(rg_next r \<mapsto>
       (call_new k (if k = HandleSwitchMessages then length (rg_ctxs r) else 0))\<lparr>cl_status := RECEIVED_REQUEST\<rparr>),
     rg_pending := rg_pending r @ [(rg_next r, Request k)]\<rparr>"

lemma create_call: "seq (create_instance k) proceed_create r = (Inr (), with_call k r)"
  by (rule wp_run) (simp add: create_instance_eq reg_ops wps with_call_def call_new_def)

lemma with_call_fields [simp]:
  "rg_infos (with_call k r) = rg_infos r" "rg_ids (with_call k r) = rg_ids r"
  "rg_names (with_call k r) = rg_names r" "rg_writers (with_call k r) = rg_writers r"
  "rg_next (with_call k r) = Suc (rg_next r)"
  "rg_pending (with_call k r) = rg_pending r @ [(rg_next r, Request k)]"
  "j < length (rg_ctxs r) \<Longrightarrow> rg_ctxs (with_call k r) ! j = rg_ctxs r ! j"
  "j < length (rg_ctxs r) \<Longrightarrow> j < length (rg_ctxs (with_call k r))"
  by (simp_all add: with_call_def nth_append)

lemma with_call_others: "i \<noteq> rg_next r \<Longrightarrow> rg_calls (with_call k r) i = rg_calls r i"
  by (simp add: with_call_def)

lemma fresh_tag:
  assumes "reg_inv X r" and "\<forall>x\<in>X. x < rg_next r"
  shows "rg_calls r (rg_next r) = None" "rg_writers r (rg_next r) = None"
    "rg_next r \<notin> fst ` set (rg_pending r)" "rg_next r \<notin> X"
proof -
  note inv = reg_invD [OF assms(1)]
  show "rg_calls r (rg_next r) = None" "rg_writers r (rg_next r) = None"
    using call_okD(1) [OF inv(2), of "rg_next r"] writer_okD(1) [OF inv(3), of "rg_next r"] by fastforce+
  show "rg_next r \<notin> fst ` set (rg_pending r)" "rg_next r \<notin> X"
    using op_okD(1) [OF inv(5), of "rg_next r"] assms(2) by fastforce+
qed

lemma with_call_calls:
  assumes "calls_ok r" and "writers_ok r" and "rg_calls r (rg_next r) = None" "rg_writers r (rg_next r) = None"
  shows "calls_ok (with_call k r)"
proof (rule calls_okI, goal_cases)
  case (1 i c)
  then show ?case using call_okD [OF assms(1), of i c] assms(3,4)
    by (auto simp: with_call_def call_new_def split: if_splits)
next
  case (2 i j c d)
  then show ?case using call_ctx_distinct [OF assms(1), of i c j d] call_okD(3) [OF assms(1), of i c]
      call_okD(3) [OF assms(1), of j d]
    by (auto simp: with_call_def call_new_def split: if_splits)
next
  case (3 i c v w)
  then show ?case using call_ctx_unused [OF assms(1), of i c v w] writer_okD(2) [OF assms(2), of v w]
    by (auto simp: with_call_def call_new_def split: if_splits)
qed

lemma with_call_ops:
  assumes "reg_inv X r" and "\<forall>x\<in>X. x < rg_next r"
  shows "ops_ok X (with_call k r)"
proof -
  note fresh = fresh_tag [OF assms] and ops = reg_invD(5) [OF assms(1)]
  have ok: "op_ok (with_call k r) i op" if "op_ok r i op" for i op
    using that fresh(1) by (cases op) (auto simp: with_call_def split: option.splits)
  show ?thesis
  proof (rule ops_okI, goal_cases)
    case 1
    then show ?case using ops_distinct [OF ops] fresh(3) by simp
  next
    case (2 i op)
    then consider "(i, op) \<in> set (rg_pending r)" | "i = rg_next r" "op = Request k" by auto
    then show ?case
      by cases (use op_okD [OF ops] ok in \<open>auto simp: with_call_def call_new_def less_Suc_eq\<close>)
  next
    case (3 i c)
    then show ?case using call_waits [OF ops, of i c] by (auto simp: with_call_def split: if_splits)
  next
    case (4 i w)
    then show ?case using writer_waits [OF ops, of i w] fresh(2) by auto
  qed
qed

lemma with_call_inv:
  assumes "reg_inv X r" and "\<forall>x\<in>X. x < rg_next r"
  shows "reg_inv X (with_call k r)"
proof -
  note inv = reg_invD [OF assms(1)]
  have "tables_ok (with_call k r)" using inv(1) by (simp add: tables_ok_def)
  moreover have "writers_ok (with_call k r)"
    by (rule writers_okI) (use writer_okD [OF inv(3)] in \<open>auto simp: less_Suc_eq\<close>)
  moreover have "infos_ok (with_call k r)"
  proof (rule infos_okI)
    fix p v
    assume "p < length (rg_infos (with_call k r))" "pi_writer (rg_infos (with_call k r) ! p) = Some v"
    then obtain w where "rg_writers r v = Some w" "sc_peer (rg_ctxs r ! wr_ctx w) = Some p"
      using info_okD [OF inv(4), of p v] by auto
    then show "\<exists>w. rg_writers (with_call k r) v = Some w \<and> sc_peer (rg_ctxs (with_call k r) ! wr_ctx w) = Some p"
      using writer_okD(2) [OF inv(3)] by simp
  qed
  ultimately show ?thesis
    using with_call_calls [OF inv(2,3) fresh_tag(1,2) [OF assms]] with_call_ops [OF assms]
    by (simp add: reg_inv_def)
qed

section \<open>Parking and deleting the call that was handled\<close>

text \<open>The call \<open>i\<close> starts its next operation and is stored in its next state.\<close>

definition parked :: "nat \<Rightarrow> call \<Rightarrow> operation \<Rightarrow> registry \<Rightarrow> registry" where
  "parked i c op r = r\<lparr>rg_pending := rg_pending r @ [(i, op)], rg_calls := (rg_calls r)(i \<mapsto> c)\<rparr>"

lemma op_ok_other:
  "op_ok r j op \<Longrightarrow> rg_calls r' j = rg_calls r j \<Longrightarrow> rg_writers r' j = rg_writers r j \<Longrightarrow> op_ok r' j op"
  by (cases op) (auto split: option.splits)

lemma same_call_calls:
  assumes "calls_ok r" and "rg_calls r i = Some c" and "cl_kind c' = cl_kind c" "cl_ctx c' = cl_ctx c" "cl_peer c' = cl_peer c"
  shows "calls_ok (r\<lparr>rg_pending := ps, rg_calls := (rg_calls r)(i \<mapsto> c')\<rparr>)"
proof (rule calls_okI, goal_cases)
  case (1 j d)
  then show ?case using call_okD [OF assms(1)] assms by (auto split: if_splits)
next
  case (2 j k d e)
  then show ?case using call_ctx_distinct [OF assms(1)] assms by (simp split: if_splits)
next
  case (3 j d v w)
  then show ?case using call_ctx_unused [OF assms(1), of _ _ v w] assms by (auto split: if_splits)
qed

lemma parked_inv:
  assumes "reg_inv {i} r" and "rg_calls r i = Some c" and "i \<notin> fst ` set (rg_pending r)"
    and "cl_kind c' = cl_kind c" "cl_ctx c' = cl_ctx c" "cl_peer c' = cl_peer c"
    and "op_ok (parked i c' op r) i op"
  shows "reg_inv {} (parked i c' op r)"
proof -
  note inv = reg_invD [OF assms(1)]
  have "tables_ok (parked i c' op r)" "writers_ok (parked i c' op r)" "infos_ok (parked i c' op r)"
    using inv(1,3,4) by (simp_all add: parked_def tables_ok_def writers_ok_def infos_ok_def)
  moreover have "calls_ok (parked i c' op r)"
    unfolding parked_def by (rule same_call_calls [OF inv(2) assms(2,4,5,6)])
  moreover have "ops_ok {} (parked i c' op r)"
  proof (rule ops_okI, goal_cases)
    case 1
    then show ?case using ops_distinct [OF inv(5)] assms(3) by (simp add: parked_def)
  next
    case (2 j op')
    then consider "j \<noteq> i" "(j, op') \<in> set (rg_pending r)" | "j = i" "op' = op"
      using assms(3) by (force simp: parked_def)
    then show ?case
      by cases (use op_okD [OF inv(5)] op_ok_other [of r j op' "parked i c' op r"] assms(7)
          call_okD(1) [OF inv(2) assms(2)] in \<open>auto simp: parked_def\<close>)
  next
    case (3 j d)
    then show ?case using call_waits [OF inv(5), of j] by (auto simp: parked_def split: if_splits)
  next
    case (4 j w)
    then have "rg_writers r j = Some w" "j \<noteq> i"
      using call_okD(2) [OF inv(2) assms(2)] by (auto simp: parked_def)
    then show ?case using writer_waits [OF inv(5), of j w] by (simp add: parked_def)
  qed
  ultimately show ?thesis by (simp add: reg_inv_def)
qed

lemma deleted_call_inv:
  assumes "reg_inv {i} r" and "i \<notin> fst ` set (rg_pending r)" and "rg_writers r i = None"
  shows "reg_inv {} (r\<lparr>rg_calls := (rg_calls r)(i := None)\<rparr>)" (is "reg_inv {} ?r")
proof -
  note inv = reg_invD [OF assms(1)]
  have "tables_ok ?r" "writers_ok ?r" "infos_ok ?r"
    using inv(1,3,4) by (simp_all add: tables_ok_def writers_ok_def infos_ok_def)
  moreover have "calls_ok ?r"
  proof (rule calls_okI, goal_cases)
    case (1 j d)
    then show ?case using call_okD [OF inv(2), of j d] by (auto split: if_splits)
  next
    case (2 j k d e)
    then show ?case using call_ctx_distinct [OF inv(2), of j d k e] by (auto split: if_splits)
  next
    case (3 j d v w)
    then show ?case using call_ctx_unused [OF inv(2), of j d v w] by (auto split: if_splits)
  qed
  moreover have "ops_ok {} ?r"
  proof (rule ops_okI, goal_cases)
    case (2 j op)
    then have "j \<noteq> i" using assms(2) by force
    with 2 show ?case using op_okD [OF inv(5), of j op] op_ok_other [of r j op ?r] by auto
  next
    case (4 j w)
    then have "j \<noteq> i" using assms(3) by auto
    with 4 show ?case using writer_waits [OF inv(5), of j w] by simp
  qed (use ops_distinct [OF inv(5)] call_waits [OF inv(5)] in \<open>auto split: if_splits\<close>)
  ultimately show ?thesis by (simp add: reg_inv_def)
qed

section \<open>Writers\<close>

interpretation mw: serial_writer writer_put writer_done wr_running wr_sent
    "\<lambda>w. if wr_running w then tl (wr_to_write w) else wr_to_write w" "\<lambda>m. m"
    "\<lambda>w. wr_running w \<longleftrightarrow> wr_to_write w \<noteq> []"
proof (unfold_locales, goal_cases)
  case (3 w m)
  then show ?case by (cases "wr_to_write w") (auto simp: writer_put_def Let_def)
next
  case (4 w)
  then show ?case by (cases "wr_to_write w"; cases "tl (wr_to_write w)") (auto simp: writer_done_def Let_def)
next
  case (6 w x xs)
  then show ?case by (auto simp: writer_done_def Let_def)
qed (auto simp: writer_put_def writer_done_def Let_def)

lemma writer_fields [simp]:
  "wr_ctx (writer_put m w) = wr_ctx w" "wr_ctx (writer_done w) = wr_ctx w" "wr_running (writer_put m w)"
  by (simp_all add: writer_put_def writer_done_def Let_def)

text \<open>A writer is replaced by one with the same context and, if it runs, an operation under way.\<close>

definition with_writer :: "nat \<Rightarrow> writer \<Rightarrow> bool \<Rightarrow> registry \<Rightarrow> registry" where
  "with_writer v w starts r = r\<lparr>rg_writers := (rg_writers r)(v \<mapsto> w),
     rg_pending := (if starts then rg_pending r @ [(v, Write)] else rg_pending r)\<rparr>"

lemma with_writer_calls:
  assumes "calls_ok r" and "rg_writers r v = Some w" and "wr_ctx w' = wr_ctx w"
  shows "calls_ok (with_writer v w' starts r)"
proof (rule calls_okI, goal_cases)
  case (1 i c)
  then show ?case using call_okD [OF assms(1), of i c] assms(2) by (auto simp: with_writer_def)
next
  case (2 i j c d)
  then show ?case using call_ctx_distinct [OF assms(1), of i c j d] by (simp add: with_writer_def)
next
  case (3 i c u x)
  then show ?case using call_ctx_unused [OF assms(1), of i c] assms(2,3)
    by (auto simp: with_writer_def split: if_splits)
qed

lemma with_writer_inv:
  assumes "reg_inv X r" and "rg_writers r v = Some w" and "wr_ctx w' = wr_ctx w"
    and "wr_running w' \<longleftrightarrow> wr_to_write w' \<noteq> []"
    and "starts \<or> v \<in> X \<Longrightarrow> v \<notin> fst ` set (rg_pending r)"
    and "wr_running w' \<longleftrightarrow> starts \<or> v \<in> fst ` set (rg_pending r)"
  shows "reg_inv (X - {v}) (with_writer v w' starts r)"
proof -
  note inv = reg_invD [OF assms(1)]
  have "tables_ok (with_writer v w' starts r)" using inv(1) by (simp add: tables_ok_def with_writer_def)
  moreover have "writers_ok (with_writer v w' starts r)"
    by (rule writers_okI) (use writer_okD [OF inv(3)] assms(2,3,4) in \<open>auto simp: with_writer_def split: if_splits\<close>)
  moreover have "infos_ok (with_writer v w' starts r)"
  proof (rule infos_okI, goal_cases)
    case (1 p u)
    then obtain x where "rg_writers r u = Some x" "sc_peer (rg_ctxs r ! wr_ctx x) = Some p"
      using info_okD [OF inv(4), of p u] by (auto simp: with_writer_def)
    then show ?case using assms(2,3) by (auto simp: with_writer_def)
  qed
  moreover have "ops_ok (X - {v}) (with_writer v w' starts r)"
  proof (rule ops_okI, goal_cases)
    case 1
    then show ?case using ops_distinct [OF inv(5)] assms(5) by (auto simp: with_writer_def)
  next
    case (2 j op)
    show ?case
    proof (cases "j = v")
      case True
      have "op = Write" if p: "(v, op) \<in> set (rg_pending r)"
      proof -
        have "v \<notin> X" using assms(5) p by force
        then show ?thesis
          using op_okD(2) [OF inv(5) p] call_okD(2) [OF inv(2), of v] assms(2)
          by (cases op) (auto split: option.splits)
      qed
      moreover have "starts \<or> v \<in> fst ` set (rg_pending r)" "(v, op) \<in> set (rg_pending r) \<or> op = Write"
        using 2 True by (force simp: with_writer_def split: if_splits)+
      ultimately show ?thesis
        using assms(6) True writer_okD(1) [OF inv(3) assms(2)] by (auto simp: with_writer_def)
    next
      case False
      then have "(j, op) \<in> set (rg_pending r)" using 2 by (auto simp: with_writer_def split: if_splits)
      then show ?thesis
        using op_okD [OF inv(5)] op_ok_other [of r j op "with_writer v w' starts r"] False
        by (simp add: with_writer_def)
    qed
  next
    case (3 j c)
    then show ?case using call_waits [OF inv(5), of j c] call_okD(2) [OF inv(2), of j c] assms(2)
      by (auto simp: with_writer_def)
  next
    case (4 j x)
    then show ?case using writer_waits [OF inv(5), of j x] assms(6)
      by (auto simp: with_writer_def split: if_splits)
  qed
  ultimately show ?thesis using with_writer_calls [OF inv(2) assms(2,3)] by (simp add: reg_inv_def)
qed

lemma writer_write_inv:
  fixes m :: rmessage
  assumes "reg_inv X r" and "rg_writers r v = Some w" and "v \<notin> X"
  defines "r' \<equiv> with_writer v (writer_put m w) (\<not> wr_running w) r"
  shows "writer_write m v r = (Inr (), r')" "reg_inv X r'"
proof -
  note inv = reg_invD [OF assms(1)]
  obtain p where "sc_peer (rg_ctxs r ! wr_ctx w) = Some p" using writer_okD(4) [OF inv(3) assms(2)] by blast
  then show "writer_write m v r = (Inr (), r')" unfolding r'_def
    by (intro wp_run) (simp add: writer_write_def wps reg_ops assms(2) with_writer_def)
  have waits: "wr_running w \<longleftrightarrow> v \<in> fst ` set (rg_pending r)" using writer_waits [OF inv(5) assms(2,3)] .
  have "reg_inv (X - {v}) r'" unfolding r'_def
    by (rule with_writer_inv [OF assms(1,2)])
      (use assms(3) waits mw.ok_put [OF writer_okD(3) [OF inv(3) assms(2)], of m] in auto)
  then show "reg_inv X r'" using assms(3) by simp
qed

text \<open>The write of the writer \<open>v\<close> has completed.\<close>

lemma proceed_writer_ok:
  assumes "reg_inv {v} r" and "rg_writers r v = Some w" and "wr_running w" and "v \<notin> fst ` set (rg_pending r)"
  defines "r' \<equiv> with_writer v (writer_done w) (wr_running (writer_done w)) r"
  shows "proceed_writer True v r = (Inr (), r')" "reg_inv {} r'"
proof -
  note inv = reg_invD [OF assms(1)]
  obtain p where "sc_peer (rg_ctxs r ! wr_ctx w) = Some p" using writer_okD(4) [OF inv(3) assms(2)] by blast
  moreover have w: "wr_running w \<longleftrightarrow> wr_to_write w \<noteq> []" using writer_okD(3) [OF inv(3) assms(2)] .
  ultimately show "proceed_writer True v r = (Inr (), r')" unfolding r'_def
    using assms(3) by (intro wp_run) (simp add: proceed_writer_def wps reg_ops assms(2) with_writer_def)
  have "reg_inv ({v} - {v}) r'" unfolding r'_def
    by (rule with_writer_inv [OF assms(1,2)]) (use assms(4) mw.ok_complete [OF w assms(3)] in auto)
  then show "reg_inv {} r'" by simp
qed

text \<open>A write has failed: the writer deletes itself, whoever is its peer's writer by now.\<close>

definition without_writer :: "nat \<Rightarrow> nat \<Rightarrow> registry \<Rightarrow> registry" where
  "without_writer v p r = r\<lparr>rg_infos := (rg_infos r)[p := (rg_infos r ! p)\<lparr>pi_writer := None\<rparr>],
     rg_writers := (rg_writers r)(v := None)\<rparr>"

lemma without_writer_inv:
  assumes "reg_inv {v} r" and "rg_writers r v = Some w" and "v \<notin> fst ` set (rg_pending r)"
    and p: "sc_peer (rg_ctxs r ! wr_ctx w) = Some p"
  shows "reg_inv {} (without_writer v p r)" (is "reg_inv {} ?r")
proof -
  note inv = reg_invD [OF assms(1)]
  have len: "length (rg_infos ?r) = length (rg_infos r)" by (simp add: without_writer_def)
  have "tables_ok ?r" using inv(1) by (simp add: tables_ok_def without_writer_def)
  moreover have "writers_ok ?r"
    by (rule writers_okI) (use writer_okD [OF inv(3)] in \<open>auto simp: without_writer_def split: if_splits\<close>)
  moreover have "infos_ok ?r"
  proof (rule infos_okI, goal_cases)
    case (1 q u)
    then have q: "q < length (rg_infos r)" and
        u: "pi_writer ((rg_infos r)[p := (rg_infos r ! p)\<lparr>pi_writer := None\<rparr>] ! q) = Some u"
      by (simp_all add: without_writer_def)
    have "q \<noteq> p" using q u by (cases "q = p") auto
    then have q: "q \<noteq> p" "q < length (rg_infos r)" "pi_writer (rg_infos r ! q) = Some u" using q u by simp_all
    then obtain x where "rg_writers r u = Some x" "sc_peer (rg_ctxs r ! wr_ctx x) = Some q"
      using info_okD [OF inv(4)] by blast
    then show ?case using q(1) p assms(2) by (auto simp: without_writer_def)
  qed
  moreover have "calls_ok ?r"
  proof (rule calls_okI, goal_cases)
    case (1 i c)
    then show ?case using call_okD [OF inv(2), of i c] by (auto simp: without_writer_def)
  next
    case (2 i j c d)
    then show ?case using call_ctx_distinct [OF inv(2), of i c j d] by (simp add: without_writer_def)
  next
    case (3 i c u x)
    then show ?case using call_ctx_unused [OF inv(2), of i c u x] by (auto simp: without_writer_def split: if_splits)
  qed
  moreover have "ops_ok {} ?r"
  proof (rule ops_okI, goal_cases)
    case (2 j op)
    then have "j \<noteq> v" using assms(3) by (force simp: without_writer_def)
    with 2 show ?case using op_okD [OF inv(5), of j op] op_ok_other [of r j op ?r]
      by (simp add: without_writer_def)
  next
    case (3 j c)
    then have "j \<noteq> v" using call_okD(2) [OF inv(2), of j c] assms(2) by (auto simp: without_writer_def)
    with 3 show ?case using call_waits [OF inv(5), of j c] by (simp add: without_writer_def)
  qed (use ops_distinct [OF inv(5)] writer_waits [OF inv(5)] in
      \<open>auto simp: without_writer_def split: if_splits\<close>)
  ultimately show ?thesis by (simp add: reg_inv_def)
qed

end
