(* ===== verification/Registry_Facts.thy ===== *)
theory Registry_Facts
  imports Registry_Invariant
begin

text \<open>
  The handlers of the registry server keep the invariant of \<open>Registry_Invariant\<close>, so the server
  loop never touches a deleted object; the properties of logins, message routing and writers.
\<close>

section \<open>The handlers\<close>

lemma ops_frame:
  assumes "ops_ok X r" and "rg_pending r' = rg_pending r" "rg_calls r' = rg_calls r"
    "rg_writers r' = rg_writers r" "rg_next r' = rg_next r"
  shows "ops_ok X r'"
proof (rule ops_okI, goal_cases)
  case (2 i op)
  then show ?case using op_okD [OF assms(1), of i op] op_ok_other [of r i op r'] assms(2-5) by simp
next
  case (4 i w)
  then show ?case using writer_waits [OF assms(1), of i w] assms(2-5) by simp
qed (use ops_distinct [OF assms(1)] call_waits [OF assms(1)] assms(2-5) in auto)

lemma calls_frame:
  assumes "calls_ok r" and "rg_calls r' = rg_calls r" "rg_writers r' = rg_writers r" "rg_next r' = rg_next r"
    "rg_ctxs r' = rg_ctxs r" "length (rg_infos r) \<le> length (rg_infos r')"
  shows "calls_ok r'"
proof (rule calls_okI, goal_cases)
  case (1 i c)
  then show ?case using call_okD [OF assms(1), of i c] assms(2-6) by (auto intro: less_le_trans)
next
  case (2 i j c d)
  then show ?case using call_ctx_distinct [OF assms(1), of i c j d] assms(2-5) by simp
next
  case (3 i c v w)
  then show ?case using call_ctx_unused [OF assms(1), of i c v w] assms(2-5) by simp
qed

lemma writers_frame:
  assumes "writers_ok r" and "rg_writers r' = rg_writers r" "rg_next r' = rg_next r"
    "rg_ctxs r' = rg_ctxs r" "length (rg_infos r) \<le> length (rg_infos r')"
  shows "writers_ok r'"
proof (rule writers_okI, goal_cases)
  case (1 i w)
  then have w: "rg_writers r i = Some w" using assms(2) by simp
  obtain p where "sc_peer (rg_ctxs r ! wr_ctx w) = Some p" "p < length (rg_infos r)"
    using writer_okD(4) [OF assms(1) w] by blast
  then show ?case using writer_okD(1,2,3) [OF assms(1) w] assms(3-5) by auto
qed

definition logged_in :: "bytes \<Rightarrow> bytes \<Rightarrow> 64 word \<Rightarrow> registry \<Rightarrow> registry" where
  "logged_in token name now r = r\<lparr>rg_infos := rg_infos r @ [peer_info_new name now],
     rg_ids := map_insert token (length (rg_infos r)) (rg_ids r),
     rg_names := map_insert name (length (rg_infos r)) (rg_names r)\<rparr>"

lemma logged_in_inv:
  assumes "reg_inv X r"
  shows "reg_inv X (logged_in token name now r)" (is "reg_inv X ?r")
proof -
  note inv = reg_invD [OF assms]
  have "tables_ok ?r"
    using inv(1) unfolding tables_ok_def
    by (auto simp: logged_in_def smap.ok_insert smap.find_insert less_SucI split: if_splits)
  moreover have "writers_ok ?r" using inv(3) by (rule writers_frame) (simp_all add: logged_in_def)
  moreover have "infos_ok ?r"
  proof (rule infos_okI, goal_cases)
    case (1 q u)
    then have "q < length (rg_infos r)" "pi_writer (rg_infos r ! q) = Some u"
      by (auto simp: logged_in_def nth_append peer_info_new_def less_Suc_eq split: if_splits)
    then obtain x where "rg_writers r u = Some x" "sc_peer (rg_ctxs r ! wr_ctx x) = Some q"
      using info_okD [OF inv(4)] by blast
    then show ?case by (simp add: logged_in_def)
  qed
  moreover have "calls_ok ?r" using inv(2) by (rule calls_frame) (simp_all add: logged_in_def)
  moreover have "ops_ok X ?r" using inv(5) by (rule ops_frame) (simp_all add: logged_in_def)
  ultimately show ?thesis by (simp add: reg_inv_def)
qed

definition beaten :: "nat \<Rightarrow> 64 word \<Rightarrow> registry \<Rightarrow> registry" where
  "beaten p now r = r\<lparr>rg_infos := (rg_infos r)[p := (rg_infos r ! p)\<lparr>pi_last_active := now\<rparr>]\<rparr>"

lemma beaten_writer: "pi_writer (rg_infos (beaten p now r) ! q) = pi_writer (rg_infos r ! q)"
  by (cases "p < length (rg_infos r)") (auto simp: beaten_def nth_list_update list_update_beyond)

lemma beaten_inv:
  assumes "reg_inv X r"
  shows "reg_inv X (beaten p now r)" (is "reg_inv X ?r")
proof -
  note inv = reg_invD [OF assms]
  have "tables_ok ?r" "writers_ok ?r"
    using inv(1,3) by (simp_all add: tables_ok_def writers_ok_def beaten_def)
  moreover have "infos_ok ?r"
    using inv(4) unfolding infos_ok_def beaten_writer by (simp add: beaten_def)
  moreover have "calls_ok ?r" using inv(2) by (rule calls_frame) (simp_all add: beaten_def)
  moreover have "ops_ok X ?r" using inv(5) by (rule ops_frame) (simp_all add: beaten_def)
  ultimately show ?thesis by (simp add: reg_inv_def)
qed

text \<open>Opening a message stream for the peer \<open>p\<close> makes a new writer, the peer's from now on.\<close>

definition opened :: "nat \<Rightarrow> call \<Rightarrow> nat \<Rightarrow> registry \<Rightarrow> registry" where
  "opened i c p r = r\<lparr>rg_calls := (rg_calls r)(i \<mapsto> c\<lparr>cl_peer := Some p\<rparr>),
     rg_ctxs := (rg_ctxs r)[cl_ctx c := \<lparr>sc_peer = Some p\<rparr>], rg_next := Suc (rg_next r),
     rg_writers := (rg_writers r)(rg_next r \<mapsto>
       \<lparr>wr_ctx = cl_ctx c, wr_running = False, wr_to_write = [], wr_sent = []\<rparr>),
     rg_infos := (rg_infos r)[p := (rg_infos r ! p)\<lparr>pi_writer := Some (rg_next r)\<rparr>]\<rparr>"

lemma opened_calls:
  assumes "calls_ok r" and c: "rg_calls r i = Some c" "cl_kind c = HandleSwitchMessages" "cl_peer c = None"
    and "p < length (rg_infos r)" and "rg_calls r (rg_next r) = None"
  shows "calls_ok (opened i c p r)"
proof (rule calls_okI, goal_cases)
  case (1 j d)
  then show ?case using call_okD [OF assms(1), of j] call_okD [OF assms(1) c(1)] assms(5,6) c
    by (auto simp: opened_def split: if_splits)
next
  case (2 j k d e)
  then show ?case using call_ctx_distinct [OF assms(1), of j _ k] c
    by (auto simp: opened_def split: if_splits)
next
  case (3 j d v w)
  then have d: "rg_calls r j = Some d" "j \<noteq> i" by (auto simp: opened_def split: if_splits)
  with 3 have "cl_ctx d \<noteq> cl_ctx c" using call_ctx_distinct [OF assms(1) d(1) c(1) d(2)] c by simp
  with 3 d show ?case using call_ctx_unused [OF assms(1) d(1), of v w]
    by (auto simp: opened_def split: if_splits)
qed

lemma opened_inv:
  assumes "reg_inv {i} r" and "i < rg_next r" and c: "rg_calls r i = Some c" "cl_kind c = HandleSwitchMessages"
    "cl_peer c = None" and p: "p < length (rg_infos r)"
  shows "reg_inv {i} (opened i c p r)" (is "reg_inv {i} ?r")
proof -
  note inv = reg_invD [OF assms(1)]
  have fresh: "rg_calls r (rg_next r) = None" "rg_writers r (rg_next r) = None"
      "rg_next r \<notin> fst ` set (rg_pending r)" "rg_next r \<noteq> i"
    using fresh_tag [OF assms(1)] assms(2) by auto
  have ctx: "cl_ctx c < length (rg_ctxs r)" using call_okD(3) [OF inv(2) c(1)] c(2) .
  have other: "wr_ctx w \<noteq> cl_ctx c" if "rg_writers r v = Some w" for v w
    using call_ctx_unused [OF inv(2) c that] .
  have "tables_ok ?r" using inv(1) by (simp add: tables_ok_def opened_def)
  moreover have "writers_ok ?r"
  proof (rule writers_okI, goal_cases)
    case (1 v w)
    then consider "v = rg_next r" "wr_ctx w = cl_ctx c" "\<not> wr_running w" "wr_to_write w = []"
      | "rg_writers r v = Some w" by (auto simp: opened_def split: if_splits)
    then show ?case
    proof cases
      case 1
      then show ?thesis using ctx p by (simp add: opened_def)
    next
      case 2
      then show ?thesis using writer_okD [OF inv(3) 2] other [OF 2] by (simp add: opened_def)
    qed
  qed
  moreover have "infos_ok ?r"
  proof (rule infos_okI, goal_cases)
    case (1 q u)
    show ?case
    proof (cases "q = p")
      case True
      then show ?thesis using 1 ctx p by (auto simp: opened_def)
    next
      case False
      then obtain x where x: "rg_writers r u = Some x" "sc_peer (rg_ctxs r ! wr_ctx x) = Some q"
        using 1 info_okD [OF inv(4), of q u] by (auto simp: opened_def)
      then show ?thesis using other [OF x(1)] fresh(2) by (auto simp: opened_def)
    qed
  qed
  moreover have "ops_ok {i} ?r"
  proof (rule ops_okI, goal_cases)
    case (2 j op)
    then have "(j, op) \<in> set (rg_pending r)" "j \<noteq> rg_next r" using fresh(3) by (force simp: opened_def)+
    then show ?case using op_okD [OF inv(5), of j op] op_ok_other [of r j op ?r]
      by (auto simp: opened_def less_SucI)
  next
    case (4 j w)
    then show ?case using writer_waits [OF inv(5), of j w] fresh(3) by (auto simp: opened_def split: if_splits)
  qed (use ops_distinct [OF inv(5)] call_waits [OF inv(5)] in \<open>auto simp: opened_def split: if_splits\<close>)
  ultimately show ?thesis
    using opened_calls [OF inv(2) c p fresh(1)] by (simp add: reg_inv_def)
qed

section \<open>An operation completes\<close>

definition taken :: "bool \<Rightarrow> arrival \<Rightarrow> nat \<Rightarrow> nat \<Rightarrow> operation \<Rightarrow> registry \<Rightarrow> registry" where
  "taken ok a n i op r = r\<lparr>
     rg_pending := take n (rg_pending r) @ drop (Suc n) (rg_pending r),
     rg_calls := (if ok then (rg_calls r)(i := map_option (fill a op) (rg_calls r i)) else rg_calls r)\<rparr>"

lemma complete_taken:
  "n < length (rg_pending r) \<Longrightarrow> rg_pending r ! n = (i, op) \<Longrightarrow>
   complete_op sha1 now ok a n r = proceed sha1 now ok i (taken ok a n i op r)"
  by (simp add: complete_op_def taken_def)

lemma fill_fields [simp]:
  "cl_kind (fill a op c) = cl_kind c" "cl_status (fill a op c) = cl_status c"
  "cl_ctx (fill a op c) = cl_ctx c" "cl_peer (fill a op c) = cl_peer c"
  by (simp_all add: fill_def split: operation.splits)

lemma taken_op: "op_ok r j op' \<Longrightarrow> op_ok (taken ok a n i op r) j op'"
  by (cases op') (auto simp: taken_def split: option.splits)

lemma taken_calls: "calls_ok r \<Longrightarrow> calls_ok (taken ok a n i op r)"
proof (cases "ok \<and> rg_calls r i \<noteq> None")
  case True
  assume "calls_ok r"
  moreover obtain c where "rg_calls r i = Some c" using True by auto
  ultimately show ?thesis using True same_call_calls [of r i c "fill a op c"] by (simp add: taken_def)
next
  case False
  assume "calls_ok r"
  moreover have "rg_calls (taken ok a n i op r) = rg_calls r"
    using False by (auto simp: taken_def fun_upd_idem)
  ultimately show ?thesis by (rule calls_frame) (simp_all add: taken_def)
qed

lemma taken_inv:
  assumes "reg_inv {} r" and n: "n < length (rg_pending r)" "rg_pending r ! n = (i, op)"
    and r': "r' = taken ok a n i op r"
  shows "reg_inv {i} r'" "i \<notin> fst ` set (rg_pending r')" "op_ok r' i op" "i < rg_next r'"
proof -
  note inv = reg_invD [OF assms(1)] and rest = remove_nth_tag [OF ops_distinct [OF reg_invD(5) [OF assms(1)]] n]
  have mem: "(i, op) \<in> set (rg_pending r)" using n by (metis nth_mem)
  show "i \<notin> fst ` set (rg_pending r')" using rest(2) by (simp add: r' taken_def)
  show "op_ok r' i op" using op_okD(2) [OF inv(5) mem] by (simp add: r' taken_op)
  show "i < rg_next r'" using op_okD(1) [OF inv(5) mem] by (simp add: r' taken_def)
  have pend: "rg_pending r' = take n (rg_pending r) @ drop (Suc n) (rg_pending r)" by (simp add: r' taken_def)
  have tags: "j \<in> fst ` set (rg_pending r') \<longleftrightarrow> j \<in> fst ` set (rg_pending r)" if "j \<noteq> i" for j
    using that by (simp add: pend rest(3))
  have "ops_ok {i} r'"
  proof (rule ops_okI, goal_cases)
    case 1
    then show ?case using rest(1) by (simp add: pend)
  next
    case (2 j op')
    then have "(j, op') \<in> set (rg_pending r)" by (simp add: pend rest(3))
    then show ?case using op_okD [OF inv(5), of j op'] taken_op [of r j op'] by (auto simp: r' taken_def)
  next
    case (3 j c)
    then show ?case using call_waits [OF inv(5), of j] tags [of j] by (auto simp: r' taken_def split: if_splits)
  next
    case (4 j w)
    then show ?case using writer_waits [OF inv(5), of j w] tags [of j] by (simp add: r' taken_def)
  qed
  moreover have "tables_ok r'" using inv(1) by (simp add: tables_ok_def r' taken_def)
  moreover have "writers_ok r'" "infos_ok r'" using inv(3,4) by (simp_all add: writers_ok_def infos_ok_def r' taken_def)
  ultimately show "reg_inv {i} r'" using taken_calls [OF inv(2)] by (simp add: reg_inv_def r')
qed

lemma proceed_writer_fail:
  assumes "reg_inv {v} r" and "rg_writers r v = Some w" and "v \<notin> fst ` set (rg_pending r)"
    and p: "sc_peer (rg_ctxs r ! wr_ctx w) = Some p"
  shows "proceed_writer False v r = (Inr (), without_writer v p r)"
  by (rule wp_run) (simp add: proceed_writer_def wps reg_ops assms(2) p without_writer_def)

text \<open>A handler that finishes its call, in the state \<open>r'\<close> it leaves.\<close>

lemma finished_inv:
  assumes "reg_inv {i} r" and "rg_calls r i = Some c" and "i \<notin> fst ` set (rg_pending r)"
  shows "reg_inv {} (parked i (c\<lparr>cl_status := FINALLIZE\<rparr>) (Finish x) r)"
  by (rule parked_inv [OF assms]) (simp_all add: parked_def)

text \<open>The states a login and a listing leave.\<close>

lemma login_state:
  assumes "rg_calls r i = Some c" and "cl_kind c = HandleLogin"
  shows "seq (handle_request sha1 now i) (\<lambda>finished. set_status i (if finished then FINALLIZE else PROCESS)) r =
    (Inr (), parked i (c\<lparr>cl_status := FINALLIZE\<rparr>) (Finish (Reply_token (access_token sha1 (cl_name c))))
      (logged_in (access_token sha1 (cl_name c)) (cl_name c) now r))"
  by (rule wp_run) (simp add: handle_request_def handle_login_def wps reg_ops assms parked_def logged_in_def Let_def)

lemma list_state:
  assumes "rg_calls r i = Some c" and "cl_kind c = HandleListPeers"
  shows "seq (handle_request sha1 now i) (\<lambda>finished. set_status i (if finished then FINALLIZE else PROCESS)) r =
    (Inr (), parked i (c\<lparr>cl_status := FINALLIZE\<rparr>) (Finish (case GetPeerInfo c r of
        None \<Rightarrow> Reply_cancelled | Some p \<Rightarrow> Reply_peers (map (\<lambda>(t, q). pi_name (rg_infos r ! q)) (rg_ids r)))) r)"
  by (rule wp_run) (simp add: handle_request_def handle_list_peers_def wps reg_ops assms parked_def split: option.splits)

lemma handle_unary:
  assumes "reg_inv {i} r" and c: "rg_calls r i = Some c" and "i \<notin> fst ` set (rg_pending r)"
    and k: "cl_kind c \<noteq> HandleSwitchMessages"
  shows "\<exists>r'. seq (handle_request sha1 now i) (\<lambda>finished.
      set_status i (if finished then FINALLIZE else PROCESS)) r = (Inr (), r') \<and> reg_inv {} r'"
proof -
  let ?run = "seq (handle_request sha1 now i) (\<lambda>finished.
      set_status i (if finished then FINALLIZE else PROCESS))"
  have fin: "reg_inv {} (parked i (c\<lparr>cl_status := FINALLIZE\<rparr>) (Finish x) s)"
    if "reg_inv {i} s" "rg_calls s i = Some c" "rg_pending s = rg_pending r" for s x
    using finished_inv [OF that(1,2)] assms(3) that(3) by simp
  consider "cl_kind c = HandleLogin" | "cl_kind c = HandlePing" | "cl_kind c = HandleListPeers"
    using k by (cases "cl_kind c") auto
  then show ?thesis
  proof cases
    case 1
    let ?t = "access_token sha1 (cl_name c)"
    let ?s = "logged_in ?t (cl_name c) now r"
    have "?run r = (Inr (), parked i (c\<lparr>cl_status := FINALLIZE\<rparr>) (Finish (Reply_token ?t)) ?s)"
      by (rule login_state [OF c 1])
    then show ?thesis using fin [OF logged_in_inv [OF assms(1)]] c by (auto simp: logged_in_def)
  next
    case 2
    show ?thesis
    proof (cases "GetPeerInfo c r")
      case None
      have "?run r = (Inr (), parked i (c\<lparr>cl_status := FINALLIZE\<rparr>) (Finish Reply_cancelled) r)"
        by (rule wp_run) (simp add: handle_request_def handle_ping_def wps reg_ops c 2 None parked_def)
      then show ?thesis using fin [OF assms(1) c] by auto
    next
      case (Some p)
      have "?run r = (Inr (), parked i (c\<lparr>cl_status := FINALLIZE\<rparr>) (Finish (Reply_time now)) (beaten p now r))"
        by (rule wp_run) (simp add: handle_request_def handle_ping_def wps reg_ops c 2 Some parked_def beaten_def)
      then show ?thesis using fin [OF beaten_inv [OF assms(1)]] c by (auto simp: beaten_def)
    qed
  next
    case 3
    then show ?thesis using fin [OF assms(1) c] list_state [OF c 3] by auto
  qed
qed

lemma open_state:
  assumes "rg_calls r i = Some c" and "cl_kind c = HandleSwitchMessages" "cl_peer c = None" "GetPeerInfo c r = Some p"
  shows "seq (handle_request sha1 now i) (\<lambda>finished. set_status i (if finished then FINALLIZE else PROCESS)) r =
    (Inr (), parked i (c\<lparr>cl_peer := Some p, cl_status := PROCESS\<rparr>) Read (opened i c p r))"
  by (rule wp_run) (simp add: handle_request_def open_stream_def wps reg_ops assms parked_def opened_def)

lemma handle_open:
  assumes "reg_inv {i} r" and c: "rg_calls r i = Some c" and "i \<notin> fst ` set (rg_pending r)"
    and k: "cl_kind c = HandleSwitchMessages" "cl_peer c = None"
  shows "\<exists>r'. seq (handle_request sha1 now i) (\<lambda>finished.
      set_status i (if finished then FINALLIZE else PROCESS)) r = (Inr (), r') \<and> reg_inv {} r'"
    (is "\<exists>r'. ?run r = _ \<and> _")
proof (cases "GetPeerInfo c r")
  case None
  have "?run r = (Inr (), parked i (c\<lparr>cl_status := FINALLIZE\<rparr>) (Finish Reply_cancelled) r)"
    by (rule wp_run) (simp add: handle_request_def open_stream_def wps reg_ops c k None parked_def)
  then show ?thesis using finished_inv [OF assms(1-3)] by auto
next
  case (Some p)
  note inv = reg_invD [OF assms(1)]
  let ?c = "c\<lparr>cl_peer := Some p\<rparr>" and ?s = "opened i c p r"
  have "?run r = (Inr (), parked i (?c\<lparr>cl_status := PROCESS\<rparr>) Read ?s)"
    using open_state [OF c k Some] by simp
  moreover have "p < length (rg_infos r)" using Some inv(1) by (auto simp: GetPeerInfo_def tables_ok_def)
  then have "reg_inv {i} ?s" by (rule opened_inv [OF assms(1) call_okD(1) [OF inv(2) c] c k])
  then have "reg_inv {} (parked i (?c\<lparr>cl_status := PROCESS\<rparr>) Read ?s)"
    by (rule parked_inv [where c = ?c]) (use assms(3) k in \<open>auto simp: opened_def parked_def\<close>)
  ultimately show ?thesis by auto
qed

text \<open>Where a message of the call \<open>c\<close> goes: the writer of the peer it is addressed to.\<close>

definition target :: "call \<Rightarrow> registry \<Rightarrow> nat option" where
  "target c r = (case map_of (rg_names r) (rm_peer (cl_msg c)) of
     None \<Rightarrow> None | Some q \<Rightarrow> pi_writer (rg_infos r ! q))"

definition relabelled :: "nat \<Rightarrow> call \<Rightarrow> registry \<Rightarrow> rmessage" where
  "relabelled p c r = (cl_msg c)\<lparr>rm_peer := pi_name (rg_infos r ! p)\<rparr>"

lemma target_live:
  assumes "reg_inv X r" and "target c r = Some v"
  obtains w where "rg_writers r v = Some w"
proof -
  note inv = reg_invD [OF assms(1)]
  obtain q where q: "map_of (rg_names r) (rm_peer (cl_msg c)) = Some q" "pi_writer (rg_infos r ! q) = Some v"
    using assms(2) by (auto simp: target_def split: option.splits)
  then have "q < length (rg_infos r)" using inv(1) by (auto simp: tables_ok_def)
  then show thesis using info_okD [OF inv(4) _ q(2)] that by blast
qed

lemma calls_last:
  "r\<lparr>rg_calls := a, rg_writers := b\<rparr> = r\<lparr>rg_writers := b, rg_calls := a\<rparr>"
  "r\<lparr>rg_calls := a, rg_pending := d\<rparr> = r\<lparr>rg_pending := d, rg_calls := a\<rparr>"
  by simp_all

lemma handle_pass:
  assumes "reg_inv {i} r" and c: "rg_calls r i = Some c" and i: "i \<notin> fst ` set (rg_pending r)"
    and k: "cl_kind c = HandleSwitchMessages" "cl_peer c = Some p" "cl_status c = PROCESS"
  shows "\<exists>r'. handle_request sha1 now i r = (Inr False, r') \<and> reg_inv {} r'
    \<and> (case target c r of
         None \<Rightarrow> r' = parked i c Read r
       | Some v \<Rightarrow> \<exists>w. rg_writers r v = Some w \<and> r' = parked i (c\<lparr>cl_msg := relabelled p c r\<rparr>) Read
           (with_writer v (writer_put (relabelled p c r) w) (\<not> wr_running w) r))"
proof (cases "target c r")
  case None
  have "handle_request sha1 now i r = (Inr False, parked i c Read r)"
    by (rule wp_run) (use None in \<open>auto simp: handle_request_def pass_message_def wps reg_ops c k parked_def
        target_def fun_upd_idem split: option.splits\<close>)
  moreover have "reg_inv {} (parked i c Read r)"
    by (rule parked_inv [OF assms(1) c i]) (simp_all add: parked_def k)
  ultimately show ?thesis using None by simp
next
  case (Some v)
  obtain w where w: "rg_writers r v = Some w" using target_live [OF assms(1) Some] .
  let ?m = "relabelled p c r"
  let ?c = "c\<lparr>cl_msg := ?m\<rparr>" and ?s = "with_writer v (writer_put ?m w) (\<not> wr_running w) r"
  have vi: "v \<noteq> i" using w call_okD(2) [OF reg_invD(2) [OF assms(1)] c] by auto
  obtain q where "sc_peer (rg_ctxs r ! wr_ctx w) = Some q"
    using writer_okD(4) [OF reg_invD(3) [OF assms(1)] w] by blast
  then have "handle_request sha1 now i r = (Inr False, parked i ?c Read ?s)"
    by (intro wp_run) (use Some w in \<open>auto simp: handle_request_def pass_message_def writer_write_def wps reg_ops c k
        parked_def with_writer_def target_def relabelled_def calls_last split: option.splits\<close>)
  moreover have "reg_inv {i} ?s" using writer_write_inv(2) [OF assms(1) w] vi by simp
  then have "reg_inv {} (parked i ?c Read ?s)"
    by (rule parked_inv) (use i vi c k in \<open>auto simp: with_writer_def parked_def\<close>)
  ultimately show ?thesis using Some w by auto
qed

section \<open>The server loop is safe\<close>

lemma proceed_call_inv:
  assumes "reg_inv {i} r" and c: "rg_calls r i = Some c" and i: "i \<notin> fst ` set (rg_pending r)"
    and op: "op_ok r i op" and next_i: "i < rg_next r"
  shows "\<exists>r'. proceed_call sha1 now ok i r = (Inr (), r') \<and> reg_inv {} r'"
proof (cases ok)
  case False
  let ?r = "with_call (cl_kind c) r"
  have "proceed_call sha1 now False i r = (Inr (), ?r\<lparr>rg_calls := (rg_calls ?r)(i := None)\<rparr>)"
    using c create_call [of "cl_kind c" r] by (simp add: proceed_call_def the_call_def delete_call_def act)
  moreover have "reg_inv {i} ?r" using with_call_inv [OF assms(1)] next_i by simp
  then have "reg_inv {} (?r\<lparr>rg_calls := (rg_calls ?r)(i := None)\<rparr>)"
    by (rule deleted_call_inv) (use i next_i call_okD(2) [OF reg_invD(2) [OF assms(1)] c] in auto)
  ultimately show ?thesis using False by auto
next
  case True
  have op_c: "cl_status c = RECEIVED_REQUEST \<and> cl_peer c = None \<or> cl_status c = FINALLIZE
      \<or> cl_status c = PROCESS \<and> cl_kind c = HandleSwitchMessages \<and> cl_peer c \<noteq> None"
    using op c call_okD(2) [OF reg_invD(2) [OF assms(1)] c] by (cases op) auto
  then consider (request) "cl_status c = RECEIVED_REQUEST" "cl_peer c = None" | (fin) "cl_status c = FINALLIZE"
    | (stream) p where "cl_status c = PROCESS" "cl_kind c = HandleSwitchMessages" "cl_peer c = Some p" by auto
  then show ?thesis
  proof cases
    case request
    let ?r = "with_call (cl_kind c) r"
    let ?run = "seq (handle_request sha1 now i) (\<lambda>finished. set_status i (if finished then FINALLIZE else PROCESS))"
    have r: "reg_inv {i} ?r" "rg_calls ?r i = Some c" "i \<notin> fst ` set (rg_pending ?r)"
      using with_call_inv [OF assms(1)] with_call_others [of i r] c i next_i by auto
    have "\<exists>r'. ?run ?r = (Inr (), r') \<and> reg_inv {} r'"
      using handle_unary [OF r] handle_open [OF r _ request(2)] by blast
    moreover have "proceed_call sha1 now True i r = ?run ?r"
      using c create_call [of "cl_kind c" r] request(1) by (simp add: proceed_call_def the_call_def act)
    ultimately show ?thesis using True by simp
  next
    case fin
    have "proceed_call sha1 now True i r = (Inr (), r\<lparr>rg_calls := (rg_calls r)(i := None)\<rparr>)"
      using c fin by (simp add: proceed_call_def the_call_def delete_call_def act)
    then show ?thesis
      using True deleted_call_inv [OF assms(1) i call_okD(2) [OF reg_invD(2) [OF assms(1)] c]] by simp
  next
    case stream
    obtain r' where "handle_request sha1 now i r = (Inr False, r')" "reg_inv {} r'"
      using handle_pass [OF assms(1) c i stream(2,3,1)] by blast
    then have "proceed_call sha1 now True i r = (Inr (), r')"
      using c stream(1) by (simp add: proceed_call_def the_call_def act)
    then show ?thesis using True \<open>reg_inv {} r'\<close> by simp
  qed
qed

lemma complete_op_inv:
  assumes "reg_inv {} r"
  shows "\<exists>r'. complete_op sha1 now ok a n r = (Inr (), r') \<and> reg_inv {} r'"
proof (cases "n < length (rg_pending r)")
  case False
  then show ?thesis using assms by (simp add: complete_op_def)
next
  case True
  obtain i op where n: "rg_pending r ! n = (i, op)" by fastforce
  let ?r = "taken ok a n i op r"
  note r = taken_inv [OF assms True n refl, of ok a]
  show ?thesis
  proof (cases "rg_calls ?r i")
    case (Some c)
    then show ?thesis
      using proceed_call_inv [OF r(1) Some r(2,3,4)] complete_taken [OF True n] by (simp add: proceed_def)
  next
    case None
    then obtain w where w: "rg_writers ?r i = Some w" "wr_running w"
      using r(3) by (cases op) (auto split: option.splits)
    obtain p where p: "sc_peer (rg_ctxs ?r ! wr_ctx w) = Some p"
      using writer_okD(4) [OF reg_invD(3) [OF r(1)] w(1)] by blast
    show ?thesis
      using proceed_writer_ok [OF r(1) w r(2)] proceed_writer_fail [OF r(1) w(1) r(2) p]
        without_writer_inv [OF r(1) w(1) r(2) p] complete_taken [OF True n] None
      by (cases ok) (simp_all add: proceed_def)
  qed
qed

lemma run_server_state:
  "run_server registry_new = (Inr (), with_call HandleSwitchMessages (with_call HandleListPeers (with_call HandleLogin registry_new)))"
  unfolding run_server_def by (simp add: andthen_apply create_call ret_apply)

lemma run_server_inv: "reg_inv {} (snd (run_server registry_new))"
proof -
  have "reg_inv {} registry_new" by (simp add: reg_inv_def reg_parts registry_new_def)
  then show ?thesis by (simp add: run_server_state with_call_inv)
qed

section \<open>What the handlers leave alone\<close>

text \<open>
  A preorder on server states that the basic actions respect is respected by every handler; only
  setting up a new call is not among the basic actions.
\<close>

locale registry_frame =
  fixes R :: "registry \<Rightarrow> registry \<Rightarrow> bool"
  assumes rel: "reflp R" "transp R"
    and objects: "moves R (set_call i c)" "moves R (set_writer i w)" "moves R (delete_call i)" "moves R (delete_writer i)"
    and counts: "moves R fresh" "moves R (set_info_writer p v)"
    and starts: "\<forall>k. op \<noteq> Request k \<Longrightarrow> moves R (start_op i op)"
    and logs_in: "R r (r\<lparr>rg_infos := rg_infos r @ [x], rg_ids := map_insert t m (rg_ids r), rg_names := ns\<rparr>)"
    and beats: "R r (r\<lparr>rg_infos := (rg_infos r)[p := (rg_infos r ! p)\<lparr>pi_last_active := now\<rparr>]\<rparr>)"
    and contexts: "R r (r\<lparr>rg_ctxs := cs\<rparr>)"
begin

lemma looks: "moves R (the_call i)" "moves R (the_writer i)" "moves R (nonnull v)"
  using rel(1) by (auto simp: moves_def the_call_def the_writer_def nonnull_def act reflp_def split: option.splits)

lemmas frame_rules = looks objects counts starts moves_option moves_if moves_gets moves_trans moves_refl rel

lemma frame_writer: "moves R (writer_write m v)" "moves R (proceed_writer ok v)"
  unfolding writer_write_def proceed_writer_def writer_peer_def by (intro frame_rules; simp)+

lemma frame_handle: "moves R (handle_request sha1 now i)"
proof -
  have "moves R (handle_login sha1 now i c)" "moves R (handle_ping now i c)" "moves R (handle_list_peers i c)"
      "moves R (open_stream i c)" "moves R (pass_message i c p)" for c p
    unfolding handle_login_def Let_def handle_ping_def handle_list_peers_def open_stream_def pass_message_def
    by (intro frame_rules frame_writer moves_modify logs_in beats contexts; simp)+
  then show ?thesis unfolding handle_request_def
    by (intro moves_seq rel looks) (simp split: rpc.split option.split)
qed

lemma frame_status: "moves R (set_status i st)"
  unfolding set_status_def by (intro frame_rules)

lemma frame_request:
  "moves R (seq (handle_request sha1 now i) (\<lambda>finished. set_status i (if finished then FINALLIZE else PROCESS)))"
  "moves R (seq (handle_request sha1 now i) (\<lambda>finished. whenever finished (set_status i FINALLIZE)))"
  by (intro frame_rules frame_handle frame_status)+

end

section \<open>Calls that wait for a request\<close>

definition waiting :: "rpc \<Rightarrow> registry \<Rightarrow> nat" where
  "waiting k r = length (filter (\<lambda>(i, op). op = Request k) (rg_pending r))"

definition same_waiting :: "registry \<Rightarrow> registry \<Rightarrow> bool" where
  "same_waiting r r' \<longleftrightarrow> (\<forall>k. waiting k r' = waiting k r)"

lemma same_waiting_rel: "reflp same_waiting" "transp same_waiting"
  by (auto simp: same_waiting_def reflp_def transp_def)

lemma waiting_step [intro]:
  "rg_pending r' = rg_pending r \<Longrightarrow> same_waiting r r'"
  "\<forall>k. op \<noteq> Request k \<Longrightarrow> same_waiting r (r\<lparr>rg_pending := rg_pending r @ [(i, op)]\<rparr>)"
  by (simp_all add: same_waiting_def waiting_def)

interpretation waiting: registry_frame same_waiting
  by unfold_locales (auto simp: moves_def fresh_def reg_ops act same_waiting_rel)

lemma waiting_with_call: "waiting k (with_call k' r) = waiting k r + (if k = k' then 1 else 0)"
  by (simp add: waiting_def)

lemma waiting_taken:
  assumes "n < length (rg_pending r)" and "rg_pending r ! n = (i, op)"
  shows "waiting k r = waiting k (taken ok a n i op r) + (if op = Request k then 1 else 0)"
proof -
  have "rg_pending r = take n (rg_pending r) @ (i, op) # drop (Suc n) (rg_pending r)"
    using id_take_nth_drop [OF assms(1)] assms(2) by simp
  then have "length (filter (\<lambda>(i, op). op = Request k) (rg_pending r)) = length (filter (\<lambda>(i, op). op = Request k)
      (take n (rg_pending r) @ (i, op) # drop (Suc n) (rg_pending r)))" by simp
  then show ?thesis by (simp add: waiting_def taken_def)
qed

lemma moves_state: "moves R m \<Longrightarrow> R r (snd (m r))"
  by (simp add: moves_def)

lemma proceed_call_waiting:
  assumes "rg_calls r i = Some c" and "op_ok r i op" and "rg_writers r i = None" and "i < rg_next r"
  shows "waiting k (snd (proceed_call sha1 now ok i r)) =
    waiting k r + (if (\<not> ok \<or> op = Request (cl_kind c)) \<and> k = cl_kind c then 1 else 0)"
proof -
  have op: "op = Request (cl_kind c) \<longleftrightarrow> cl_status c = RECEIVED_REQUEST" "cl_status c \<noteq> CREATE"
    using assms(1-3) by (cases op; auto)+
  have new: "proceed_call sha1 now ok i r = m (with_call (cl_kind c) r) \<Longrightarrow> moves same_waiting m \<Longrightarrow>
      waiting k (snd (proceed_call sha1 now ok i r)) = waiting k r + (if k = cl_kind c then 1 else 0)" for m
    using moves_state [of same_waiting m "with_call (cl_kind c) r"] by (simp add: same_waiting_def waiting_with_call)
  have old: "proceed_call sha1 now ok i r = m r \<Longrightarrow> moves same_waiting m \<Longrightarrow>
      waiting k (snd (proceed_call sha1 now ok i r)) = waiting k r" for m
    using moves_state [of same_waiting m r] by (simp add: same_waiting_def)
  show ?thesis
  proof (cases ok)
    case False
    then show ?thesis
      using new [of "delete_call i"] assms(1) waiting.objects(3) create_call [of "cl_kind c" r]
      by (simp add: proceed_call_def the_call_def act)
  next
    case True
    let ?next = "seq (handle_request sha1 now i) (\<lambda>finished. set_status i (if finished then FINALLIZE else PROCESS))"
    let ?more = "seq (handle_request sha1 now i) (\<lambda>finished. whenever finished (set_status i FINALLIZE))"
    note waiting.frame_request [of sha1 now i]
    then show ?thesis
      using True op new [of ?next] old [of ?more] old [of "delete_call i"] waiting.objects(3)
        assms(1) create_call [of "cl_kind c" r]
      by (cases "cl_status c") (simp_all add: proceed_call_def the_call_def act)
  qed
qed

lemma complete_op_waiting:
  assumes "reg_inv {} r" and n: "n < length (rg_pending r)" "rg_pending r ! n = (i, op)"
  shows "waiting k (snd (complete_op sha1 now ok a n r)) = waiting k r +
    (if \<not> ok \<and> (\<exists>c. rg_calls r i = Some c \<and> cl_kind c = k) \<and> op \<noteq> Request k then 1 else 0)"
proof -
  let ?r = "taken ok a n i op r"
  note inv = taken_inv [OF assms refl, of ok a]
  have taken: "waiting k r = waiting k ?r + (if op = Request k then 1 else 0)" by (rule waiting_taken [OF n])
  show ?thesis
  proof (cases "rg_calls r i")
    case (Some c)
    obtain c' where c': "rg_calls ?r i = Some c'" "cl_kind c' = cl_kind c"
      using Some by (cases ok) (auto simp: taken_def)
    have "op = Request k \<Longrightarrow> k = cl_kind c" using inv(3) c' by simp
    moreover have "snd (complete_op sha1 now ok a n r) = snd (proceed_call sha1 now ok i ?r)"
      using c'(1) by (simp add: complete_taken [OF n] proceed_def)
    moreover have "waiting k (snd (proceed_call sha1 now ok i ?r)) =
        waiting k ?r + (if (\<not> ok \<or> op = Request (cl_kind c)) \<and> k = cl_kind c then 1 else 0)"
      using proceed_call_waiting [OF c'(1) inv(3) call_okD(2) [OF reg_invD(2) [OF inv(1)] c'(1)] inv(4)]
      by (simp add: c'(2))
    ultimately show ?thesis using taken Some by (cases "k = cl_kind c") auto
  next
    case None
    then have none: "rg_calls ?r i = None" by (simp add: taken_def)
    then have "op \<noteq> Request k" using inv(3) by auto
    then show ?thesis
      using None none taken complete_taken [OF n] moves_state [OF waiting.frame_writer(2), of ?r ok i]
      by (simp add: proceed_def same_waiting_def)
  qed
qed

section \<open>Properties\<close>

record completion =
  cp_now :: "64 word"
  cp_ok :: bool
  cp_arrival :: arrival
  cp_index :: nat

definition on_completion :: "(bytes \<Rightarrow> bytes) \<Rightarrow> completion \<Rightarrow> unit reg_action" where
  "on_completion sha1 e = complete_op sha1 (cp_now e) (cp_ok e) (cp_arrival e) (cp_index e)"

definition server_run :: "(bytes \<Rightarrow> bytes) \<Rightarrow> completion list \<Rightarrow> unit reg_action" where
  "server_run sha1 es = andthen run_server (for_each (on_completion sha1) es)"

lemma server_waits:
  assumes "k \<noteq> HandlePing"
  shows "1 \<le> waiting k (snd (run_server registry_new))"
  using assms by (cases k) (simp_all add: run_server_state waiting_with_call)

lemma completions_safe:
  "reg_inv {} r \<Longrightarrow> \<exists>r'. for_each (on_completion sha1) es r = (Inr (), r') \<and> reg_inv {} r'
     \<and> (\<forall>k. waiting k r \<le> waiting k r')"
proof (induction es arbitrary: r)
  case Nil
  then show ?case by (simp add: act)
next
  case (Cons e es)
  obtain r1 where r1: "on_completion sha1 e r = (Inr (), r1)" "reg_inv {} r1"
    using complete_op_inv [OF Cons.prems] unfolding on_completion_def by blast
  have "waiting k r \<le> waiting k r1" for k
  proof (cases "cp_index e < length (rg_pending r)")
    case True
    obtain i op where "rg_pending r ! cp_index e = (i, op)" by fastforce
    from complete_op_waiting [OF Cons.prems True this, of k sha1 "cp_now e" "cp_ok e" "cp_arrival e"]
    show ?thesis using r1(1) by (simp add: on_completion_def)
  next
    case False
    then show ?thesis using r1(1) by (simp add: on_completion_def complete_op_def)
  qed
  moreover obtain r' where "for_each (on_completion sha1) es r1 = (Inr (), r')" "reg_inv {} r'"
      "\<forall>k. waiting k r1 \<le> waiting k r'"
    using Cons.IH [OF r1(2)] by blast
  ultimately show ?case using r1(1) by (auto simp: act intro: le_trans)
qed

lemma server_run_safe:
  "\<exists>r. server_run sha1 es registry_new = (Inr (), r) \<and> reg_inv {} r
     \<and> (\<forall>k. waiting k (snd (run_server registry_new)) \<le> waiting k r)"
  using completions_safe [OF run_server_inv, of sha1 es]
  by (simp add: server_run_def act run_server_state)

lemma server_run_inv: "server_run sha1 es registry_new = (Inr (), r) \<Longrightarrow> reg_inv {} r"
  using server_run_safe [of sha1 es] by auto

text \<open>
  C27: Whatever operations complete, with whatever outcome, data and order, the registry server uses
  no deleted object, follows no null pointer and pops no empty queue: every turn of its loop
  returns, every pending operation has a live object in the matching state as its tag, and a call
  of each kind the server starts is always waiting for the next request.
\<close>

theorem registry_life_safe:
  "\<exists>r. server_run sha1 es registry_new = (Inr (), r) \<and> reg_inv {} r
    \<and> 1 \<le> waiting HandleLogin r \<and> 1 \<le> waiting HandleListPeers r \<and> 1 \<le> waiting HandleSwitchMessages r"
proof -
  obtain r where r: "server_run sha1 es registry_new = (Inr (), r)" "reg_inv {} r"
      "\<And>k. waiting k (snd (run_server registry_new)) \<le> waiting k r"
    using server_run_safe [of sha1 es] by blast
  show ?thesis
    using r(1,2) order_trans [OF server_waits r(3)] by (intro exI [of _ r]) simp
qed

text \<open>
  An operation that fails adds a waiting call of its kind unless it was itself the wait for a
  request: every message stream that breaks, and every reply that cannot be sent, leaves one more
  call waiting for good; nothing else changes how many wait.
\<close>

theorem failed_operation_adds_call:
  assumes "server_run sha1 es registry_new = (Inr (), r)"
    and "n < length (rg_pending r)" and "rg_pending r ! n = (i, op)"
  shows "waiting k (snd (complete_op sha1 now ok a n r)) = waiting k r +
    (if \<not> ok \<and> (\<exists>c. rg_calls r i = Some c \<and> cl_kind c = k) \<and> op \<noteq> Request k then 1 else 0)"
  by (rule complete_op_waiting [OF server_run_inv [OF assms(1)] assms(2,3)])

text \<open>A message has been read from a stream: the state after its read has completed.\<close>

lemma read_passes:
  assumes "reg_inv {} r" and n: "n < length (rg_pending r)" "rg_pending r ! n = (i, Read)"
  obtains c p r' where "rg_calls r i = Some c" "cl_peer c = Some p"
    "complete_op sha1 now True a n r = (Inr (), r')"
    "case target (c\<lparr>cl_msg := ar_msg a\<rparr>) r of
       None \<Rightarrow> r' = parked i (c\<lparr>cl_msg := ar_msg a\<rparr>) Read (taken True a n i Read r)
     | Some v \<Rightarrow> \<exists>w. rg_writers r v = Some w \<and> r' = parked i
         (c\<lparr>cl_msg := relabelled p (c\<lparr>cl_msg := ar_msg a\<rparr>) r\<rparr>) Read
         (with_writer v (writer_put (relabelled p (c\<lparr>cl_msg := ar_msg a\<rparr>) r) w) (\<not> wr_running w)
           (taken True a n i Read r))"
proof -
  let ?r = "taken True a n i Read r"
  note inv = taken_inv [OF assms(1) n refl, of True a]
  obtain c' where c': "rg_calls ?r i = Some c'" "cl_kind c' = HandleSwitchMessages" "cl_status c' = PROCESS"
      "cl_peer c' \<noteq> None" using inv(3) by (auto split: option.splits)
  then obtain p where p: "cl_peer c' = Some p" by auto
  obtain c where c: "rg_calls r i = Some c" "c' = c\<lparr>cl_msg := ar_msg a\<rparr>"
    using c'(1) by (auto simp: taken_def fill_def)
  have fields: "target d ?r = target d r" "relabelled q d ?r = relabelled q d r" "rg_writers ?r = rg_writers r" for d q
    by (simp_all add: taken_def target_def relabelled_def split: option.splits)
  obtain r' where r': "handle_request sha1 now i ?r = (Inr False, r')" "case target c' ?r of
         None \<Rightarrow> r' = parked i c' Read ?r
       | Some v \<Rightarrow> \<exists>w. rg_writers ?r v = Some w \<and> r' = parked i (c'\<lparr>cl_msg := relabelled p c' ?r\<rparr>) Read
           (with_writer v (writer_put (relabelled p c' ?r) w) (\<not> wr_running w) ?r)"
    using handle_pass [OF inv(1) c'(1) inv(2) c'(2) p c'(3)] by blast
  have "complete_op sha1 now True a n r = (Inr (), r')"
    using r'(1) c' by (simp add: complete_taken [OF n] proceed_def proceed_call_def the_call_def act)
  moreover have "cl_peer c = Some p" using p c(2) by simp
  moreover have "c\<lparr>cl_msg := ar_msg a, cl_msg := m\<rparr> = c\<lparr>cl_msg := m\<rparr>" for m by simp
  ultimately show thesis using that [OF c(1)] r'(2) unfolding c(2) fields by presburger
qed

text \<open>
  When the next message of a stream has been read, it is put on the queue of the writer of the
  peer it names, with the sender's name in place of the receiver's and the contents unchanged; no
  other writer, no peer record and no table changes, a message to an unknown name or to a peer
  without a stream is dropped, and the stream is read on in each case.
\<close>

theorem registry_routes:
  assumes "server_run sha1 es registry_new = (Inr (), r)"
    and n: "n < length (rg_pending r)" "rg_pending r ! n = (i, Read)"
  shows "\<exists>c p r'. rg_calls r i = Some c \<and> cl_peer c = Some p
    \<and> complete_op sha1 now True a n r = (Inr (), r') \<and> (i, Read) \<in> set (rg_pending r')
    \<and> rg_infos r' = rg_infos r \<and> rg_ids r' = rg_ids r \<and> rg_names r' = rg_names r
    \<and> (case map_of (rg_names r) (rm_peer (ar_msg a)) of
         None \<Rightarrow> rg_writers r' = rg_writers r
       | Some q \<Rightarrow> (case pi_writer (rg_infos r ! q) of
           None \<Rightarrow> rg_writers r' = rg_writers r
         | Some v \<Rightarrow> \<exists>w. rg_writers r v = Some w \<and> rg_writers r' = (rg_writers r)(v \<mapsto>
             writer_put ((ar_msg a)\<lparr>rm_peer := pi_name (rg_infos r ! p)\<rparr>) w)))"
proof -
  obtain c p r' where r': "rg_calls r i = Some c" "cl_peer c = Some p"
      "complete_op sha1 now True a n r = (Inr (), r')"
      "case target (c\<lparr>cl_msg := ar_msg a\<rparr>) r of
         None \<Rightarrow> r' = parked i (c\<lparr>cl_msg := ar_msg a\<rparr>) Read (taken True a n i Read r)
       | Some v \<Rightarrow> \<exists>w. rg_writers r v = Some w \<and> r' = parked i
           (c\<lparr>cl_msg := relabelled p (c\<lparr>cl_msg := ar_msg a\<rparr>) r\<rparr>) Read
           (with_writer v (writer_put (relabelled p (c\<lparr>cl_msg := ar_msg a\<rparr>) r) w) (\<not> wr_running w)
             (taken True a n i Read r))"
    using read_passes [OF server_run_inv [OF assms(1)] n] by blast
  then show ?thesis
    by (intro exI [of _ c] exI [of _ p] exI [of _ r'])
      (auto simp: target_def relabelled_def parked_def with_writer_def taken_def split: option.splits)
qed

text \<open>A run: a peer named \<open>a\<close> logs in and opens a message stream, sends to itself, opens another.\<close>

definition sample_run :: "nat \<Rightarrow> completion list" where
  "sample_run n = (let arrive = (\<lambda>t nm m. \<lparr>ar_token = t, ar_name = nm, ar_msg = m\<rparr>);
       empty = \<lparr>rm_peer = [], rm_type = 0, rm_content = []\<rparr>;
       event = (\<lambda>a k. \<lparr>cp_now = 5, cp_ok = True, cp_arrival = a, cp_index = k\<rparr>)
     in take n [event (arrive None [97] empty) 0, event (arrive (Some [54, 49]) [] empty) 1,
          event (arrive None [] \<lparr>rm_peer = [97], rm_type = 0, rm_content = [1, 2]\<rparr>) 4,
          event (arrive (Some [54, 49]) [] empty) 3])"

definition sample_state :: "nat \<Rightarrow> registry" where
  "sample_state n = snd (server_run (\<lambda>nm. nm) (sample_run n) registry_new)"

lemma sample_state_run: "server_run (\<lambda>nm. nm) (sample_run n) registry_new = (Inr (), sample_state n)"
  using server_run_safe [of "\<lambda>nm. nm" "sample_run n"] by (auto simp: sample_state_def)

lemma sample_two:
  "rg_pending (sample_state 2) = [(1, Request HandleListPeers), (3, Request HandleLogin),
     (0, Finish (Reply_token [54, 49])), (4, Request HandleSwitchMessages), (2, Read)]"
  "map_option cl_kind (rg_calls (sample_state 2) 2) = Some HandleSwitchMessages"
  "rg_names (sample_state 2) = [([97], 0)]" "map pi_writer (rg_infos (sample_state 2)) = [Some 5]"
  "map pi_name (rg_infos (sample_state 2)) = [[97]]"
  by code_simp+

lemma failed_operation_adds_call_witness:
  "waiting HandleSwitchMessages (sample_state 2) = 1
   \<and> waiting HandleSwitchMessages (snd (complete_op (\<lambda>nm. nm) 9 False
       \<lparr>ar_token = None, ar_name = [], ar_msg = \<lparr>rm_peer = [], rm_type = 0, rm_content = []\<rparr>\<rparr> 4 (sample_state 2))) = 2"
proof -
  have n: "4 < length (rg_pending (sample_state 2))" "rg_pending (sample_state 2) ! 4 = (2, Read)"
    by (simp_all add: sample_two)
  have "\<exists>c. rg_calls (sample_state 2) 2 = Some c \<and> cl_kind c = HandleSwitchMessages"
    using sample_two(2) by auto
  moreover have "waiting HandleSwitchMessages (sample_state 2) = 1" by (simp add: waiting_def sample_two)
  ultimately show ?thesis
    using failed_operation_adds_call [OF sample_state_run n, of HandleSwitchMessages 9 False] by simp
qed

lemma registry_routes_witness:
  "let a = \<lparr>ar_token = None, ar_name = [], ar_msg = \<lparr>rm_peer = [97], rm_type = 0, rm_content = [1, 2]\<rparr>\<rparr>;
       r' = snd (complete_op (\<lambda>nm. nm) 5 True a 4 (sample_state 2))
   in (2, Read) \<in> set (rg_pending r') \<and> rg_names r' = [([97], 0)]
    \<and> (\<exists>w p. rg_writers (sample_state 2) 5 = Some w \<and> rg_writers r' = (rg_writers (sample_state 2))(5 \<mapsto>
        writer_put \<lparr>rm_peer = pi_name (rg_infos (sample_state 2) ! p), rm_type = 0, rm_content = [1, 2]\<rparr> w))"
proof -
  have n: "4 < length (rg_pending (sample_state 2))" "rg_pending (sample_state 2) ! 4 = (2, Read)"
    by (simp_all add: sample_two)
  have "pi_writer (rg_infos (sample_state 2) ! 0) = Some 5"
    using sample_two(4) by (metis length_map length_Cons list.size(3) nth_Cons_0 nth_map zero_less_Suc)
  then show ?thesis
    using registry_routes [OF sample_state_run n, of 5
        "\<lparr>ar_token = None, ar_name = [], ar_msg = \<lparr>rm_peer = [97], rm_type = 0, rm_content = [1, 2]\<rparr>\<rparr>"]
    by (auto simp: sample_two Let_def)
qed

text \<open>
  A writer hands its messages to the stream in the order they were put, one at a time, and as
  many completions as it holds messages leave it idle with all of them sent.
\<close>

theorem registry_writer_in_order:
  assumes "w = fold (serial_step writer_put writer_done wr_running) es
      \<lparr>wr_ctx = ctx, wr_running = False, wr_to_write = [], wr_sent = []\<rparr>"
  shows "wr_sent w @ tl (wr_to_write w) = puts es \<and> (wr_running w \<longleftrightarrow> wr_to_write w \<noteq> [])
    \<and> \<not> wr_running ((writer_done ^^ length (wr_to_write w)) w)
    \<and> wr_sent ((writer_done ^^ length (wr_to_write w)) w) = puts es"
proof -
  let ?n = "\<lparr>wr_ctx = ctx, wr_running = False, wr_to_write = [], wr_sent = []\<rparr>"
  have "wr_running ?n \<longleftrightarrow> wr_to_write ?n \<noteq> []" by simp
  from mw.run_keeps [OF this, of es]
  have ok: "wr_running w \<longleftrightarrow> wr_to_write w \<noteq> []"
    and all: "wr_sent w @ (if wr_running w then tl (wr_to_write w) else wr_to_write w) = puts es"
    unfolding assms [symmetric] by (auto split: if_splits)
  show ?thesis
  proof (cases "wr_running w")
    case True
    then have "length (wr_to_write w) = Suc (length (tl (wr_to_write w)))" using ok by simp
    then show ?thesis
      using mw.completions_drain [OF ok True] True all ok by simp
  next
    case False
    then show ?thesis using ok all by simp
  qed
qed

lemma registry_writer_in_order_witness:
  "let m = (\<lambda>n. \<lparr>rm_peer = [n], rm_type = 0, rm_content = []\<rparr>);
       w = fold (serial_step writer_put writer_done wr_running) [Put (m 1), Put (m 2), Done, Put (m 3)]
         \<lparr>wr_ctx = 0, wr_running = False, wr_to_write = [], wr_sent = []\<rparr>
   in wr_sent ((writer_done ^^ length (wr_to_write w)) w) = [m 1, m 2, m 3]"
  using registry_writer_in_order [OF refl, of "[Put \<lparr>rm_peer = [1], rm_type = 0, rm_content = []\<rparr>,
      Put \<lparr>rm_peer = [2], rm_type = 0, rm_content = []\<rparr>, Done, Put \<lparr>rm_peer = [3], rm_type = 0, rm_content = []\<rparr>]" 0]
  by (simp add: Let_def)

text \<open>
  When a peer has opened a second message stream and the last write on its first one fails
  after that, the peer loses the writer of the second stream: it stays alive but no pointer
  leads to it, and messages to the peer are dropped from then on.
\<close>

theorem stale_writer_disconnects:
  assumes "server_run sha1 es registry_new = (Inr (), r)"
    and n: "n < length (rg_pending r)" "rg_pending r ! n = (v, Write)"
    and w: "rg_writers r v = Some w" "sc_peer (rg_ctxs r ! wr_ctx w) = Some p"
    and v': "pi_writer (rg_infos r ! p) = Some v'" "v' \<noteq> v"
  shows "\<exists>r' w'. complete_op sha1 now False a n r = (Inr (), r') \<and> rg_writers r' v' = Some w'
    \<and> pi_writer (rg_infos r' ! p) = None
    \<and> (map_of (rg_names r') (rm_peer (cl_msg c)) = Some p \<longrightarrow> target c r' = None)"
proof -
  let ?r = "taken False a n v Write r"
  note inv = taken_inv [OF server_run_inv [OF assms(1)] n refl, of False a]
  have same: "rg_writers ?r = rg_writers r" "rg_ctxs ?r = rg_ctxs r" "rg_infos ?r = rg_infos r"
    by (simp_all add: taken_def)
  have wr: "rg_writers ?r v = Some w" "sc_peer (rg_ctxs ?r ! wr_ctx w) = Some p" using w by (simp_all add: same)
  have none: "rg_calls ?r v = None" using call_okD(2) [OF reg_invD(2) [OF inv(1)], of v] wr(1) by fastforce
  have p: "p < length (rg_infos r)" using writer_okD(4) [OF reg_invD(3) [OF inv(1)] wr(1)] wr(2) same by auto
  then obtain w' where "rg_writers r v' = Some w'"
    using info_okD [OF reg_invD(4) [OF server_run_inv [OF assms(1)]] p v'(1)] by blast
  moreover have "complete_op sha1 now False a n r = (Inr (), without_writer v p ?r)"
    using proceed_writer_fail [OF inv(1) wr(1) inv(2) wr(2)] none by (simp add: complete_taken [OF n] proceed_def)
  ultimately show ?thesis using v'(2) p
    by (auto simp: without_writer_def target_def same)
qed

text \<open>A peer opens a message stream: the state after its request has completed.\<close>

lemma request_opens:
  assumes n: "n < length (rg_pending r)" "rg_pending r ! n = (i, Request HandleSwitchMessages)"
    and c: "rg_calls r i = Some c" "cl_kind c = HandleSwitchMessages" "cl_status c = RECEIVED_REQUEST" "cl_peer c = None"
    and p: "map_of (rg_ids r) t = Some p" and "ar_token a = Some t" and next_i: "i < rg_next r"
  defines "c' \<equiv> fill a (Request HandleSwitchMessages) c"
    and "r1 \<equiv> with_call HandleSwitchMessages (taken True a n i (Request HandleSwitchMessages) r)"
  shows "complete_op sha1 now True a n r =
    (Inr (), parked i (c'\<lparr>cl_peer := Some p, cl_status := PROCESS\<rparr>) Read (opened i c' p r1))"
proof -
  let ?r = "taken True a n i (Request HandleSwitchMessages) r"
  have c': "rg_calls ?r i = Some c'" "cl_kind c' = HandleSwitchMessages" "cl_status c' = RECEIVED_REQUEST"
      "cl_peer c' = None" "i \<noteq> rg_next ?r"
    using c next_i by (auto simp: taken_def c'_def)
  have "GetPeerInfo c' r1 = Some p"
    using assms(7,8) by (simp add: GetPeerInfo_def GetAccessToken_def c'_def fill_def r1_def taken_def)
  moreover have "rg_calls r1 i = Some c'" using c'(1,5) by (simp add: r1_def with_call_others)
  ultimately show ?thesis
    using open_state [of r1 i c' p sha1 now] c' create_call [of HandleSwitchMessages ?r]
    by (simp add: complete_taken [OF n] proceed_def proceed_call_def the_call_def act r1_def)
qed

lemma sample_state_Suc:
  assumes "sample_run (Suc n) = sample_run n @ [e]"
  shows "sample_state (Suc n) = snd (on_completion (\<lambda>nm. nm) e (sample_state n))"
proof -
  have "for_each f (xs @ [x]) s = andthen (for_each f xs) (f x) s" for f :: "completion \<Rightarrow> unit reg_action" and xs x s
    by (induction xs arbitrary: s) (auto simp: act split: prod.splits sum.splits)
  then have "server_run (\<lambda>nm. nm) (sample_run (Suc n)) registry_new = on_completion (\<lambda>nm. nm) e (sample_state n)"
    using sample_state_run [of n] by (simp add: server_run_def assms act run_server_state)
  then show ?thesis by (simp add: sample_state_def [of "Suc n"])
qed

lemma sample_two_more:
  "map_option (\<lambda>c. (cl_kind c, cl_status c, cl_peer c, cl_ctx c)) (rg_calls (sample_state 2) 4)
     = Some (HandleSwitchMessages, RECEIVED_REQUEST, None, 1)"
  "map_option (\<lambda>w. (wr_ctx w, wr_running w)) (rg_writers (sample_state 2) 5) = Some (0, False)"
  "map_of (rg_ids (sample_state 2)) [54, 49] = Some 0"
  "rg_ctxs (sample_state 2) = [\<lparr>sc_peer = Some 0\<rparr>, \<lparr>sc_peer = None\<rparr>]" "rg_next (sample_state 2) = 6"
  by code_simp+

lemma sample_infos: "length (rg_infos (sample_state 2)) = 1" "pi_writer (rg_infos (sample_state 2) ! 0) = Some 5"
proof -
  show "length (rg_infos (sample_state 2)) = 1" using arg_cong [OF sample_two(4), of length] by simp
  then show "pi_writer (rg_infos (sample_state 2) ! 0) = Some 5"
    using nth_map [of 0 "rg_infos (sample_state 2)" pi_writer] by (simp add: sample_two)
qed

lemma sample_three:
  "rg_pending (sample_state 3) = [(1, Request HandleListPeers), (3, Request HandleLogin),
     (0, Finish (Reply_token [54, 49])), (4, Request HandleSwitchMessages), (5, Write), (2, Read)]"
  "rg_calls (sample_state 3) 4 = rg_calls (sample_state 2) 4" "map_option wr_ctx (rg_writers (sample_state 3) 5) = Some 0"
  "rg_ids (sample_state 3) = rg_ids (sample_state 2)" "rg_ctxs (sample_state 3) = rg_ctxs (sample_state 2)"
  "rg_next (sample_state 3) = 6" "length (rg_infos (sample_state 3)) = 1"
proof -
  let ?a = "\<lparr>ar_token = None, ar_name = [], ar_msg = \<lparr>rm_peer = [97], rm_type = 0, rm_content = [1, 2]\<rparr>\<rparr>"
  let ?s = "sample_state 2"
  have n: "4 < length (rg_pending ?s)" "rg_pending ?s ! 4 = (2, Read)" by (simp_all add: sample_two)
  have three: "sample_state 3 = snd (complete_op (\<lambda>nm. nm) 5 True ?a 4 ?s)"
    using sample_state_Suc [of 2] by (simp add: sample_run_def Let_def on_completion_def)
  obtain w where w: "rg_writers ?s 5 = Some w" "wr_ctx w = 0" "\<not> wr_running w" using sample_two_more(2) by auto
  have to: "target (c\<lparr>cl_msg := ar_msg ?a\<rparr>) ?s = Some 5" for c by (simp add: target_def sample_two sample_infos)
  obtain c p r' where r': "complete_op (\<lambda>nm. nm) 5 True ?a 4 ?s = (Inr (), r')"
      "\<exists>w. rg_writers ?s 5 = Some w \<and> r' = parked 2
         (c\<lparr>cl_msg := relabelled p (c\<lparr>cl_msg := ar_msg ?a\<rparr>) ?s\<rparr>) Read
         (with_writer 5 (writer_put (relabelled p (c\<lparr>cl_msg := ar_msg ?a\<rparr>) ?s) w) (\<not> wr_running w)
           (taken True ?a 4 2 Read ?s))"
    by (rule read_passes [OF server_run_inv [OF sample_state_run] n, of "\<lambda>nm. nm" 5 ?a])
      (simp only: to option.case)
  have "sample_state 3 = parked 2 (c\<lparr>cl_msg := relabelled p (c\<lparr>cl_msg := ar_msg ?a\<rparr>) ?s\<rparr>) Read
      (with_writer 5 (writer_put (relabelled p (c\<lparr>cl_msg := ar_msg ?a\<rparr>) ?s) w) True (taken True ?a 4 2 Read ?s))"
    using r' w(1,3) three by simp
  then show "rg_pending (sample_state 3) = [(1, Request HandleListPeers), (3, Request HandleLogin),
       (0, Finish (Reply_token [54, 49])), (4, Request HandleSwitchMessages), (5, Write), (2, Read)]"
    "rg_calls (sample_state 3) 4 = rg_calls (sample_state 2) 4" "map_option wr_ctx (rg_writers (sample_state 3) 5) = Some 0"
    "rg_ids (sample_state 3) = rg_ids (sample_state 2)" "rg_ctxs (sample_state 3) = rg_ctxs (sample_state 2)"
    "rg_next (sample_state 3) = 6" "length (rg_infos (sample_state 3)) = 1"
    by (simp_all add: parked_def with_writer_def taken_def sample_two sample_two_more sample_infos w(2))
qed

lemma sample_four:
  "rg_pending (sample_state 4) ! 3 = (5, Write)" "3 < length (rg_pending (sample_state 4))"
  "map_option wr_ctx (rg_writers (sample_state 4) 5) = Some 0" "rg_ctxs (sample_state 4) ! 0 = \<lparr>sc_peer = Some 0\<rparr>"
  "pi_writer (rg_infos (sample_state 4) ! 0) = Some 7"
proof -
  let ?a = "\<lparr>ar_token = Some [54, 49], ar_name = [], ar_msg = \<lparr>rm_peer = [], rm_type = 0, rm_content = []\<rparr>\<rparr>"
  let ?s = "sample_state 3"
  obtain c where c: "rg_calls ?s 4 = Some c" "cl_kind c = HandleSwitchMessages" "cl_status c = RECEIVED_REQUEST"
      "cl_peer c = None" "cl_ctx c = 1" using sample_two_more(1) sample_three(2) by auto
  have n: "3 < length (rg_pending ?s)" "rg_pending ?s ! 3 = (4, Request HandleSwitchMessages)"
    by (simp_all add: sample_three)
  have id: "map_of (rg_ids ?s) [54, 49] = Some 0" "ar_token ?a = Some [54, 49]" "4 < rg_next ?s"
    by (simp_all add: sample_three sample_two_more)
  have four: "sample_state 4 = snd (complete_op (\<lambda>nm. nm) 5 True ?a 3 ?s)"
    using sample_state_Suc [of 3] by (simp add: sample_run_def Let_def on_completion_def)
  show "rg_pending (sample_state 4) ! 3 = (5, Write)" "3 < length (rg_pending (sample_state 4))"
      "map_option wr_ctx (rg_writers (sample_state 4) 5) = Some 0" "rg_ctxs (sample_state 4) ! 0 = \<lparr>sc_peer = Some 0\<rparr>"
      "pi_writer (rg_infos (sample_state 4) ! 0) = Some 7"
    unfolding four request_opens [OF n c(1-4) id]
    using c(5) by (simp_all add: sample_three sample_two_more parked_def opened_def with_call_def taken_def)
qed

lemma stale_writer_disconnects_witness:
  "\<exists>r' w'. complete_op (\<lambda>nm. nm) 9 False
       \<lparr>ar_token = None, ar_name = [], ar_msg = \<lparr>rm_peer = [], rm_type = 0, rm_content = []\<rparr>\<rparr> 3 (sample_state 4) = (Inr (), r')
     \<and> rg_writers r' 7 = Some w' \<and> pi_writer (rg_infos r' ! 0) = None"
proof -
  obtain w where w: "rg_writers (sample_state 4) 5 = Some w" "wr_ctx w = 0" using sample_four(3) by auto
  have p: "sc_peer (rg_ctxs (sample_state 4) ! wr_ctx w) = Some 0" by (simp add: w(2) sample_four(4))
  have ne: "(7::nat) \<noteq> 5" by simp
  show ?thesis
    using stale_writer_disconnects [OF sample_state_run sample_four(2,1) w(1) p sample_four(5) ne] by blast
qed

text \<open>
  The token prints the bytes of the digest without padding, so different digests can give the
  same token; of two peers whose digests do, the one that logs in second is handed the token of
  the first, and whoever presents it acts under the first one's name.
\<close>

theorem token_collision:
  assumes "server_run sha1 es registry_new = (Inr (), r)"
    and a: "cl_name c = a" "sha1 a = [1, 17] @ ds" and b: "cl_name d = b" "sha1 b = [17, 1] @ ds"
    and "map_of (rg_ids r) (access_token sha1 a) = None"
    and r2: "r2 = snd (handle_login sha1 later j d (snd (handle_login sha1 now i c r)))"
    and e: "cl_token e = Some (access_token sha1 b)"
  shows "sha1 a \<noteq> sha1 b \<and> access_token sha1 a = access_token sha1 b
    \<and> (\<exists>p. GetPeerInfo e r2 = Some p \<and> pi_name (rg_infos r2 ! p) = a)"
proof -
  have same: "access_token sha1 a = access_token sha1 b"
    using a(2) b(2) by (simp add: access_token_def hex_byte_def Let_def)
  have "sorted_keys (rg_ids r)" using reg_invD(1) [OF server_run_inv [OF assms(1)]] by (simp add: tables_ok_def)
  then have "GetPeerInfo e r2 = Some (length (rg_infos r))"
    using assms(6) same a(1) b(1) e
    by (simp add: r2 handle_login_def Let_def act start_op_def GetPeerInfo_def GetAccessToken_def
        smap.find_insert smap.ok_insert)
  moreover have "pi_name (rg_infos r2 ! length (rg_infos r)) = a"
    using a(1) by (simp add: r2 handle_login_def Let_def act start_op_def nth_append peer_info_new_def)
  ultimately show ?thesis using same a(2) b(2) by simp
qed

lemma token_collision_witness:
  "let sha1 = (\<lambda>nm. if nm = [97] then [1, 17] else [17, 1] :: bytes);
       c = (\<lambda>nm. (call_new HandleLogin 0)\<lparr>cl_name := nm\<rparr>);
       r2 = snd (handle_login sha1 2 8 (c [98]) (snd (handle_login sha1 1 7 (c [97]) (snd (run_server registry_new)))))
   in \<exists>p. GetPeerInfo ((call_new HandleListPeers 0)\<lparr>cl_token := Some (access_token sha1 [98])\<rparr>) r2 = Some p
     \<and> pi_name (rg_infos r2 ! p) = [97]"
proof -
  let ?sha1 = "\<lambda>nm. if nm = [97] then [1, 17] else [17, 1] :: bytes"
  have run: "server_run ?sha1 [] registry_new = (Inr (), snd (run_server registry_new))"
    by (simp add: server_run_def act run_server_state)
  have ids: "map_of (rg_ids (snd (run_server registry_new))) (access_token ?sha1 [97]) = None"
    by (simp add: run_server_state) (simp add: registry_new_def)
  show ?thesis
    using token_collision [OF run _ _ _ _ ids refl, of "(call_new HandleLogin 0)\<lparr>cl_name := [97]\<rparr>" "[]"
        "(call_new HandleLogin 0)\<lparr>cl_name := [98]\<rparr>" "[98]"
        "(call_new HandleListPeers 0)\<lparr>cl_token := Some (access_token ?sha1 [98])\<rparr>" 2 8 1 7]
    by (simp add: Let_def)
qed

end
