(* ===== verification/Rpc_Client.thy ===== *)
theory Rpc_Client
  imports Serial_Writer
begin

text \<open>
  \<^verbatim>\<open>client/GRPCClient.hpp\<close> and \<^verbatim>\<open>GRPCClient.cpp\<close>: the gRPC client of the registry. The call
  objects delete themselves and live in a store; using one that is gone is \<open>Undefined\<close>. As in the
  registry server the gRPC runtime is the list of pending operations with their tags, and a
  completion with the data the runtime has filled in is an event. Qt's signals are a list; its
  strings are bytes.
\<close>

section \<open>Data\<close>

record gmessage =
  gm_peer :: bytes
  gm_bytes :: bytes

text \<open>\<^verbatim>\<open>Context\<close>; the last two fields record what was handed to the stream and how many writes are under way.\<close>

record gcontext =
  gx_token :: bytes
  gx_msg_q :: "gmessage list"
  gx_running :: bool
  gx_sender :: "nat option"
  gx_sent :: "gmessage list"
  gx_writes :: nat

datatype switch_state = INIT | READY | READING

datatype gcall =
    LoginCall bytes
  | ListPeerCall bytes
  | SwitchMessagesCall nat switch_state
  | MessageSender nat

datatype gop =
    Login_finish bytes
  | List_finish bytes
  | Stream_start bytes
  | Stream_read
  | Stream_write gmessage

datatype gsignal = OnLogin bytes | OnListPeers "bytes list" | OnMessageReceived gmessage

record gclient =
  gc_token :: bytes
  gc_ctx :: "nat option"
  gc_ctxs :: "gcontext list"
  gc_calls :: "nat \<rightharpoonup> gcall"
  gc_next :: nat
  gc_pending :: "(nat \<times> gop) list"
  gc_signals :: "gsignal list"

type_synonym 'a gaction = "(gclient, 'a) action"

definition gclient_new :: gclient where
  "gclient_new = \<lparr>gc_token = [], gc_ctx = None, gc_ctxs = [], gc_calls = Map.empty, gc_next = 0,
     gc_pending = [], gc_signals = []\<rparr>"

section \<open>The message queue of a stream\<close>

definition context_new :: "bytes \<Rightarrow> gcontext" where
  "context_new token = \<lparr>gx_token = token, gx_msg_q = [], gx_running = False, gx_sender = None, gx_sent = [],
     gx_writes = 0\<rparr>"

definition dequeue :: "gcontext \<Rightarrow> gmessage option \<times> gcontext" where
  "dequeue x = (case gx_msg_q x of
     [] \<Rightarrow> (None, x\<lparr>gx_running := False\<rparr>)
   | m # ms \<Rightarrow> (Some m, x\<lparr>gx_msg_q := ms\<rparr>))"

text \<open>One round of the sender: take a message and write it, or sleep.\<close>

definition sender_round :: "gcontext \<Rightarrow> gmessage option \<times> gcontext" where
  "sender_round x = (case dequeue x of
     (None, x) \<Rightarrow> (None, x)
   | (Some m, x) \<Rightarrow> (Some m, x\<lparr>gx_sent := gx_sent x @ [m], gx_writes := Suc (gx_writes x)\<rparr>))"

text \<open>\<^verbatim>\<open>Enqueue\<close> on the members of the context; whether it runs the sender.\<close>

definition enqueue :: "gmessage \<Rightarrow> gcontext \<Rightarrow> bool \<times> gcontext" where
  "enqueue m x =
     (let x = x\<lparr>gx_msg_q := gx_msg_q x @ [m]\<rparr> in
      if \<not> gx_running x \<and> gx_sender x \<noteq> None then (True, x\<lparr>gx_running := True\<rparr>) else (False, x))"

section \<open>The calls\<close>

definition new_call :: "gcall \<Rightarrow> nat gaction" where
  "new_call c = (\<lambda>g. (Inr (gc_next g), g\<lparr>gc_calls := (gc_calls g)(gc_next g \<mapsto> c), gc_next := Suc (gc_next g)\<rparr>))"

definition set_gcall :: "nat \<Rightarrow> gcall \<Rightarrow> unit gaction" where
  "set_gcall i c = modify (\<lambda>g. g\<lparr>gc_calls := (gc_calls g)(i \<mapsto> c)\<rparr>)"

definition delete_gcall :: "nat \<Rightarrow> unit gaction" where
  "delete_gcall i = modify (\<lambda>g. g\<lparr>gc_calls := (gc_calls g)(i := None)\<rparr>)"

definition begin_op :: "nat \<Rightarrow> gop \<Rightarrow> unit gaction" where
  "begin_op i op = modify (\<lambda>g. g\<lparr>gc_pending := gc_pending g @ [(i, op)]\<rparr>)"

definition emit_signal :: "gsignal \<Rightarrow> unit gaction" where
  "emit_signal s = modify (\<lambda>g. g\<lparr>gc_signals := gc_signals g @ [s]\<rparr>)"

definition on_context :: "nat \<Rightarrow> (gcontext \<Rightarrow> 'a \<times> gcontext) \<Rightarrow> 'a gaction" where
  "on_context k f = (\<lambda>g. case f (gc_ctxs g ! k) of (a, x) \<Rightarrow> (Inr a, g\<lparr>gc_ctxs := (gc_ctxs g)[k := x]\<rparr>))"

text \<open>\<^verbatim>\<open>MessageSender::Proceed(true)\<close>, also run by the constructor and by \<^verbatim>\<open>Enqueue\<close>.\<close>

definition run_sender :: "nat \<Rightarrow> nat \<Rightarrow> unit gaction" where
  "run_sender s k = seq (on_context k sender_round) (\<lambda>v. case v of
     None \<Rightarrow> ret ()
   | Some m \<Rightarrow> begin_op s (Stream_write m))"

definition sender_proceed :: "bool \<Rightarrow> nat \<Rightarrow> unit gaction" where
  "sender_proceed ok s = (\<lambda>g. case gc_calls g s of
     Some (MessageSender k) \<Rightarrow> (if \<not> ok then delete_gcall s else run_sender s k) g
   | _ \<Rightarrow> (Inl Undefined, g))"

definition switch_start :: "nat \<Rightarrow> nat \<Rightarrow> unit gaction" where
  "switch_start i k = seq (gets (\<lambda>g. gx_token (gc_ctxs g ! k))) (\<lambda>token.
     andthen (begin_op i (Stream_start token)) (set_gcall i (SwitchMessagesCall k READY)))"

text \<open>The constructors run the first step of a call at once.\<close>

definition start_message_transmitting :: "unit gaction" where
  "start_message_transmitting =
     seq (gets gc_token) (\<lambda>token.
     seq (gets (\<lambda>g. length (gc_ctxs g))) (\<lambda>k.
     andthen (modify (\<lambda>g. g\<lparr>gc_ctxs := gc_ctxs g @ [context_new token], gc_ctx := Some k\<rparr>))
     (seq (new_call (SwitchMessagesCall k INIT)) (\<lambda>i. switch_start i k))))"

definition login :: "bytes \<Rightarrow> unit gaction" where
  "login cred = seq (new_call (LoginCall cred)) (\<lambda>i. begin_op i (Login_finish cred))"

definition list_peers :: "unit gaction" where
  "list_peers = seq (gets gc_token) (\<lambda>token.
     seq (new_call (ListPeerCall token)) (\<lambda>i. begin_op i (List_finish token)))"

definition send_message_on :: "gmessage \<Rightarrow> nat \<Rightarrow> unit gaction" where
  "send_message_on m k = seq (on_context k (enqueue m)) (\<lambda>trigger.
     whenever trigger (seq (gets (\<lambda>g. gx_sender (gc_ctxs g ! k))) (\<lambda>s.
       case s of None \<Rightarrow> throw Null_deref | Some i \<Rightarrow> sender_proceed True i)))"

definition client_send :: "gmessage \<Rightarrow> unit gaction" where
  "client_send m = seq (gets gc_ctx) (\<lambda>v. case v of
     None \<Rightarrow> throw Null_deref | Some k \<Rightarrow> send_message_on m k)"

text \<open>What the runtime fills in: the status and the response of a call, or the message read.\<close>

record garrival =
  ga_status :: bool
  ga_token :: bytes
  ga_peers :: "bytes list"
  ga_msg :: gmessage

definition login_proceed :: "garrival \<Rightarrow> nat \<Rightarrow> unit gaction" where
  "login_proceed a i =
     andthen (whenever (ga_status a)
       (andthen (modify (\<lambda>g. g\<lparr>gc_token := ga_token a\<rparr>))
       (andthen start_message_transmitting
         (emit_signal (OnLogin (ga_token a))))))
     (delete_gcall i)"

definition list_peer_proceed :: "garrival \<Rightarrow> nat \<Rightarrow> unit gaction" where
  "list_peer_proceed a i =
     andthen (whenever (ga_status a) (emit_signal (OnListPeers (ga_peers a)))) (delete_gcall i)"

text \<open>
  \<^verbatim>\<open>fromStdString\<close> is static and returns the string: the id of the message handed on stays empty.
\<close>

definition switch_proceed :: "bool \<Rightarrow> garrival \<Rightarrow> nat \<Rightarrow> nat \<Rightarrow> switch_state \<Rightarrow> unit gaction" where
  "switch_proceed ok a i k st = (case st of
     INIT \<Rightarrow> switch_start i k
   | READY \<Rightarrow>
       (if \<not> ok then delete_gcall i
        else seq (new_call (MessageSender k)) (\<lambda>s.
          andthen (run_sender s k)
          (andthen (on_context k (\<lambda>x. ((), x\<lparr>gx_sender := Some s\<rparr>)))
          (andthen (begin_op i Stream_read)
            (set_gcall i (SwitchMessagesCall k READING))))))
   | READING \<Rightarrow>
       (if \<not> ok then delete_gcall i
        else andthen (emit_signal (OnMessageReceived \<lparr>gm_peer = [], gm_bytes = gm_bytes (ga_msg a)\<rparr>))
          (begin_op i Stream_read)))"

text \<open>\<^verbatim>\<open>HandleEvent\<close> with the tag of a completed operation; a finished write is no longer under way.\<close>

definition note_write :: "nat \<Rightarrow> gop \<Rightarrow> gclient \<Rightarrow> gclient" where
  "note_write i op g = (case (op, gc_calls g i) of
     (Stream_write m, Some (MessageSender k)) \<Rightarrow>
       g\<lparr>gc_ctxs := (gc_ctxs g)[k := (gc_ctxs g ! k)\<lparr>gx_writes := gx_writes (gc_ctxs g ! k) - 1\<rparr>]\<rparr>
   | _ \<Rightarrow> g)"

definition handle_event :: "bool \<Rightarrow> garrival \<Rightarrow> nat \<Rightarrow> unit gaction" where
  "handle_event ok a i = (\<lambda>g. case gc_calls g i of
     None \<Rightarrow> (Inl Undefined, g)
   | Some (LoginCall cred) \<Rightarrow> login_proceed a i g
   | Some (ListPeerCall token) \<Rightarrow> list_peer_proceed a i g
   | Some (SwitchMessagesCall k st) \<Rightarrow> switch_proceed ok a i k st g
   | Some (MessageSender k) \<Rightarrow> sender_proceed ok i g)"

definition client_completes :: "bool \<Rightarrow> garrival \<Rightarrow> nat \<Rightarrow> unit gaction" where
  "client_completes ok a n = (\<lambda>g.
     if n < length (gc_pending g) then
       (let (i, op) = gc_pending g ! n;
            g = note_write i op (g\<lparr>gc_pending := take n (gc_pending g) @ drop (Suc n) (gc_pending g)\<rparr>)
        in handle_event ok a i g)
     else (Inr (), g))"

definition client_run :: "bytes \<Rightarrow> unit gaction" where
  "client_run cred = login cred"

section \<open>The sender is a serial writer\<close>

text \<open>Accepting a message and finishing a write, while the sender exists.\<close>

definition ctx_put :: "gmessage \<Rightarrow> gcontext \<Rightarrow> gcontext" where
  "ctx_put m x = (case enqueue m x of (trigger, x) \<Rightarrow> if trigger then snd (sender_round x) else x)"

definition ctx_done :: "gcontext \<Rightarrow> gcontext" where
  "ctx_done x = snd (sender_round (x\<lparr>gx_writes := gx_writes x - 1\<rparr>))"

definition sender_ok :: "gcontext \<Rightarrow> bool" where
  "sender_ok x \<longleftrightarrow> gx_sender x \<noteq> None \<and> gx_writes x = (if gx_running x then 1 else 0)
     \<and> (\<not> gx_running x \<longrightarrow> gx_msg_q x = [])"

lemmas sender_defs = ctx_put_def ctx_done_def enqueue_def sender_round_def dequeue_def sender_ok_def Let_def

interpretation cw: serial_writer ctx_put ctx_done gx_running gx_sent gx_msg_q "\<lambda>m. m" sender_ok
  by unfold_locales (auto simp: sender_defs split: list.splits if_splits)

end
