(* ===== verification/Client_Threads.thy ===== *)
theory Client_Threads
  imports Rpc_Client
begin

text \<open>
  The two threads of \<^verbatim>\<open>client/GRPCClient.cpp\<close>: the user interface calls \<^verbatim>\<open>SendMessage\<close> while the
  completion thread runs the sender of the same stream. \<^verbatim>\<open>HandleEvent\<close> takes the mutex and
  \<^verbatim>\<open>SendMessage\<close> does not, so the accesses to \<^verbatim>\<open>msg_q_\<close>, \<^verbatim>\<open>running_\<close> and \<^verbatim>\<open>sender_\<close> interleave. Each
  access is one step here, in the order of the source; the position of each thread is a program
  counter. (That an access is itself indivisible is more than C++ promises for a data race.) When a write fails the
  sender deletes itself; using it afterwards is undefined.
\<close>

section \<open>The steps\<close>

text \<open>\<^verbatim>\<open>MessageSender::Proceed(true)\<close> from the test of the queue on; what \<^verbatim>\<open>Dequeue\<close> took is in the counter.\<close>

datatype proceed_pc = At_empty | At_clear | At_pop | At_write gmessage

fun proceed_step :: "proceed_pc \<Rightarrow> (gcontext, proceed_pc option) action" where
  "proceed_step At_empty = seq (gets gx_msg_q) (\<lambda>q. ret (Some (if q = [] then At_clear else At_pop)))"
| "proceed_step At_clear = andthen (modify (\<lambda>x. x\<lparr>gx_running := False\<rparr>)) (ret None)"
| "proceed_step At_pop = seq (gets gx_msg_q) (\<lambda>q. case q of
     [] \<Rightarrow> throw Undefined
   | m # ms \<Rightarrow> andthen (modify (\<lambda>x. x\<lparr>gx_msg_q := ms\<rparr>)) (ret (Some (At_write m))))"
| "proceed_step (At_write m) =
     andthen (modify (\<lambda>x. x\<lparr>gx_sent := gx_sent x @ [m], gx_writes := Suc (gx_writes x)\<rparr>)) (ret None)"

text \<open>\<^verbatim>\<open>Enqueue\<close> in the thread of the user interface.\<close>

datatype ui_pc = U_idle | U_push gmessage | U_running | U_sender | U_set | U_proceed proceed_pc

fun ui_step :: "ui_pc \<Rightarrow> (gcontext, ui_pc) action" where
  "ui_step U_idle = ret U_idle"
| "ui_step (U_push m) = andthen (modify (\<lambda>x. x\<lparr>gx_msg_q := gx_msg_q x @ [m]\<rparr>)) (ret U_running)"
| "ui_step U_running = seq (gets gx_running) (\<lambda>r. ret (if \<not> r then U_sender else U_idle))"
| "ui_step U_sender = seq (gets gx_sender) (\<lambda>s. ret (if s \<noteq> None then U_set else U_idle))"
| "ui_step U_set = andthen (modify (\<lambda>x. x\<lparr>gx_running := True\<rparr>)) (ret (U_proceed At_empty))"
| "ui_step (U_proceed p) = seq (proceed_step p) (\<lambda>v. ret (case v of None \<Rightarrow> U_idle | Some p \<Rightarrow> U_proceed p))"

text \<open>
  The completion thread: it waits, runs the sender after a write, or, when the stream gets ready,
  the constructor of the sender and then the assignment of \<^verbatim>\<open>sender_\<close>.
\<close>

datatype cq_pc = C_idle | C_proceed proceed_pc | C_construct proceed_pc | C_assign

fun cq_step :: "nat \<Rightarrow> cq_pc \<Rightarrow> (gcontext, cq_pc) action" where
  "cq_step s C_idle = ret C_idle"
| "cq_step s (C_proceed p) = seq (proceed_step p) (\<lambda>v. ret (case v of None \<Rightarrow> C_idle | Some p \<Rightarrow> C_proceed p))"
| "cq_step s (C_construct p) = seq (proceed_step p) (\<lambda>v. ret (case v of None \<Rightarrow> C_assign | Some p \<Rightarrow> C_construct p))"
| "cq_step s C_assign = andthen (modify (\<lambda>x. x\<lparr>gx_sender := Some s\<rparr>)) (ret C_idle)"

record threads =
  th_ctx :: gcontext
  th_ui :: ui_pc
  th_cq :: cq_pc
  th_said :: "gmessage list"   \<comment> \<open>what the user interface has put on the queue\<close>
  th_freed :: bool             \<comment> \<open>the sender has deleted itself\<close>

fun says :: "ui_pc \<Rightarrow> gmessage list" where
  "says (U_push m) = [m]"
| "says _ = []"

text \<open>Which thread runs the sender.\<close>

fun ui_proceeds :: "ui_pc \<Rightarrow> proceed_pc option" where
  "ui_proceeds (U_proceed p) = Some p"
| "ui_proceeds _ = None"

fun cq_proceeds :: "cq_pc \<Rightarrow> proceed_pc option" where
  "cq_proceeds (C_proceed p) = Some p"
| "cq_proceeds (C_construct p) = Some p"
| "cq_proceeds _ = None"

definition ui_moves :: "threads \<Rightarrow> err + threads" where
  "ui_moves t = (if th_freed t \<and> ui_proceeds (th_ui t) \<noteq> None then Inl Undefined
     else case ui_step (th_ui t) (th_ctx t) of
       (Inl e, x) \<Rightarrow> Inl e
     | (Inr p, x) \<Rightarrow> Inr (t\<lparr>th_ctx := x, th_ui := p, th_said := th_said t @ says (th_ui t)\<rparr>))"

definition cq_moves :: "nat \<Rightarrow> threads \<Rightarrow> err + threads" where
  "cq_moves s t = (if th_freed t \<and> cq_proceeds (th_cq t) \<noteq> None then Inl Undefined
     else case cq_step s (th_cq t) (th_ctx t) of
       (Inl e, x) \<Rightarrow> Inl e
     | (Inr p, x) \<Rightarrow> Inr (t\<lparr>th_ctx := x, th_cq := p\<rparr>))"

text \<open>
  The user sends a message, or a write completes: a thread that waits goes on. After a failed write
  the sender deletes itself and leaves \<^verbatim>\<open>running_\<close> and \<^verbatim>\<open>sender_\<close> as they are.
\<close>

definition user_sends :: "gmessage \<Rightarrow> threads \<Rightarrow> threads" where
  "user_sends m t = t\<lparr>th_ui := U_push m\<rparr>"

definition write_ends :: "threads \<Rightarrow> threads" where
  "write_ends t = t\<lparr>th_ctx := (th_ctx t)\<lparr>gx_writes := gx_writes (th_ctx t) - 1\<rparr>, th_cq := C_proceed At_empty\<rparr>"

definition write_fails :: "threads \<Rightarrow> threads" where
  "write_fails t = t\<lparr>th_ctx := (th_ctx t)\<lparr>gx_writes := gx_writes (th_ctx t) - 1\<rparr>, th_freed := True\<rparr>"

inductive thread_step :: "nat \<Rightarrow> threads \<Rightarrow> threads \<Rightarrow> bool" for s where
  User: "th_ui t = U_idle \<Longrightarrow> thread_step s t (user_sends m t)"
| Ui: "th_ui t \<noteq> U_idle \<Longrightarrow> ui_moves t = Inr t' \<Longrightarrow> thread_step s t t'"
| Written: "th_cq t = C_idle \<Longrightarrow> 0 < gx_writes (th_ctx t) \<Longrightarrow> thread_step s t (write_ends t)"
| Failed: "th_cq t = C_idle \<Longrightarrow> 0 < gx_writes (th_ctx t) \<Longrightarrow> thread_step s t (write_fails t)"
| Cq: "th_cq t \<noteq> C_idle \<Longrightarrow> cq_moves s t = Inr t' \<Longrightarrow> thread_step s t t'"

inductive thread_run :: "nat \<Rightarrow> threads \<Rightarrow> threads \<Rightarrow> bool" for s t where
  Begin: "thread_run s t t"
| Go: "thread_run s t u \<Longrightarrow> thread_step s u v \<Longrightarrow> thread_run s t v"

text \<open>A stream with its sender, and one whose sender is just being constructed.\<close>

definition threads_ready :: "bytes \<Rightarrow> nat \<Rightarrow> threads" where
  "threads_ready token s = \<lparr>th_ctx = (context_new token)\<lparr>gx_sender := Some s\<rparr>, th_ui = U_idle,
     th_cq = C_idle, th_said = [], th_freed = False\<rparr>"

definition threads_starting :: "bytes \<Rightarrow> threads" where
  "threads_starting token = \<lparr>th_ctx = context_new token, th_ui = U_idle, th_cq = C_construct At_empty,
     th_said = [], th_freed = False\<rparr>"

section \<open>The invariant\<close>

fun taken :: "proceed_pc \<Rightarrow> gmessage list" where
  "taken (At_write m) = [m]"
| "taken _ = []"

text \<open>The message the thread that runs the sender has taken from the queue.\<close>

definition in_hand :: "threads \<Rightarrow> gmessage list" where
  "in_hand t = (case ui_proceeds (th_ui t) of Some p \<Rightarrow> taken p | None \<Rightarrow>
     (case cq_proceeds (th_cq t) of Some p \<Rightarrow> taken p | None \<Rightarrow> []))"

text \<open>
  The user interface is past the test of \<^verbatim>\<open>running_\<close> only while the completion thread waits and no
  write is under way; the flag is set while a write is under way or the sender runs, and stays set once the
  sender has deleted itself.
\<close>

fun pops :: "proceed_pc \<Rightarrow> gcontext \<Rightarrow> bool" where
  "pops At_pop x = (gx_msg_q x \<noteq> [])"
| "pops _ x = True"

definition threads_ok :: "threads \<Rightarrow> bool" where
  "threads_ok t \<longleftrightarrow> gx_sender (th_ctx t) \<noteq> None
     \<and> gx_sent (th_ctx t) @ in_hand t @ gx_msg_q (th_ctx t) = th_said t
     \<and> (case th_cq t of
          C_idle \<Rightarrow> (case th_ui t of
            U_sender \<Rightarrow> gx_writes (th_ctx t) = 0 \<and> \<not> gx_running (th_ctx t) \<and> \<not> th_freed t
          | U_set \<Rightarrow> gx_writes (th_ctx t) = 0 \<and> \<not> gx_running (th_ctx t) \<and> \<not> th_freed t
          | U_proceed p \<Rightarrow> gx_writes (th_ctx t) = 0 \<and> gx_running (th_ctx t) \<and> pops p (th_ctx t) \<and> \<not> th_freed t
          | _ \<Rightarrow> gx_writes (th_ctx t) = (if gx_running (th_ctx t) \<and> \<not> th_freed t then 1 else 0)
              \<and> (th_freed t \<longrightarrow> gx_running (th_ctx t)))
        | C_proceed p \<Rightarrow> (case th_ui t of U_sender \<Rightarrow> False | U_set \<Rightarrow> False | U_proceed _ \<Rightarrow> False | _ \<Rightarrow> True)
            \<and> gx_writes (th_ctx t) = 0 \<and> gx_running (th_ctx t) \<and> pops p (th_ctx t) \<and> \<not> th_freed t
        | _ \<Rightarrow> False)"

lemma proceed_step_cases:
  "proceed_step p x = (r, x') \<Longrightarrow>
   (p = At_empty \<and> x' = x \<and> r = Inr (Some (if gx_msg_q x = [] then At_clear else At_pop)))
   \<or> (p = At_clear \<and> r = Inr None \<and> x' = x\<lparr>gx_running := False\<rparr>)
   \<or> (p = At_pop \<and> gx_msg_q x = [] \<and> r = Inl Undefined \<and> x' = x)
   \<or> (\<exists>m ms. p = At_pop \<and> gx_msg_q x = m # ms \<and> r = Inr (Some (At_write m)) \<and> x' = x\<lparr>gx_msg_q := ms\<rparr>)
   \<or> (\<exists>m. p = At_write m \<and> r = Inr None \<and> x' = x\<lparr>gx_sent := gx_sent x @ [m], gx_writes := Suc (gx_writes x)\<rparr>)"
  by (cases p) (auto simp: act split: list.splits)

text \<open>Every step of either thread goes through and keeps the invariant.\<close>

definition fine :: "err + threads \<Rightarrow> bool" where
  "fine r = (case r of Inl _ \<Rightarrow> False | Inr t \<Rightarrow> threads_ok t)"

lemmas threads_defs = fine_def ui_moves_def cq_moves_def threads_ok_def in_hand_def act

lemma ui_moves_ok:
  assumes "threads_ok t" shows "fine (ui_moves t)"
proof (cases "th_ui t")
  case (U_proceed p)
  obtain r x where p: "proceed_step p (th_ctx t) = (r, x)" by fastforce
  then have "p = At_pop \<Longrightarrow> gx_msg_q (th_ctx t) \<noteq> []" and idle: "th_cq t = C_idle"
    using assms U_proceed by (auto simp: threads_ok_def split: cq_pc.splits)
  then show ?thesis
    using assms U_proceed by (cases p) (auto simp: threads_defs split: list.split)
next
  case U_running
  then show ?thesis using assms by (cases "th_cq t") (auto simp: threads_defs)
next
  case (U_push m)
  then show ?thesis using assms
    by (cases "th_cq t") (auto simp: threads_defs elim: pops.elims)
next
  case U_sender
  then show ?thesis using assms by (cases "th_cq t") (auto simp: threads_defs)
qed (use assms in \<open>cases "th_cq t"; simp add: threads_defs\<close>)+

lemma cq_moves_ok:
  assumes "threads_ok t" shows "fine (cq_moves s t)"
proof (cases "th_cq t")
  case (C_proceed p)
  then have ui: "ui_proceeds (th_ui t) = None" and free: "th_ui t \<notin> {U_sender, U_set}"
    and rest: "gx_sender (th_ctx t) \<noteq> None" "gx_writes (th_ctx t) = 0" "gx_running (th_ctx t)" "pops p (th_ctx t)" "\<not> th_freed t"
      "gx_sent (th_ctx t) @ taken p @ gx_msg_q (th_ctx t) = th_said t"
    using assms by (cases "th_ui t"; auto simp: threads_ok_def in_hand_def)+
  have "gx_msg_q (th_ctx t) = m # ms \<Longrightarrow> p = At_pop \<Longrightarrow> ?thesis" for m ms
    using C_proceed ui free rest by (cases "th_ui t") (auto simp: threads_defs)
  then show ?thesis
    using C_proceed ui free rest
    by (cases p; cases "th_ui t") (auto simp: threads_defs neq_Nil_conv)
qed (use assms in \<open>cases "th_ui t"; simp add: threads_defs\<close>)+

lemma threads_ok_step:
  assumes "threads_ok t" and "thread_step s t t'"
  shows "threads_ok t'"
  using assms(2)
proof (cases rule: thread_step.cases)
  case (User m)
  then show ?thesis
    using assms(1) by (cases "th_cq t") (simp_all add: threads_ok_def in_hand_def user_sends_def)
next
  case Ui
  then show ?thesis using ui_moves_ok [OF assms(1)] by (simp add: fine_def)
next
  case Written
  then show ?thesis
    using assms(1)
    by (cases "th_ui t") (auto simp: threads_ok_def in_hand_def write_ends_def split: if_splits)
next
  case Failed
  then show ?thesis
    using assms(1)
    by (cases "th_ui t") (auto simp: threads_ok_def in_hand_def write_fails_def split: if_splits)
next
  case Cq
  then show ?thesis using cq_moves_ok [OF assms(1), of s] by (simp add: fine_def)
qed

lemma threads_ok_run:
  assumes "thread_run s t u" and "threads_ok t"
  shows "threads_ok u"
  using assms by (induction rule: thread_run.induct) (auto intro: threads_ok_step)

lemma threads_ok_ready: "threads_ok (threads_ready token s)"
  by (simp add: threads_ok_def threads_ready_def in_hand_def context_new_def)

lemma threads_ok_exclusive:
  assumes "threads_ok t"
  shows "ui_proceeds (th_ui t) = None \<or> cq_proceeds (th_cq t) = None" and "gx_writes (th_ctx t) \<le> 1"
    and "th_freed t \<Longrightarrow> ui_proceeds (th_ui t) = None \<and> cq_proceeds (th_cq t) = None"
  using assms by (cases "th_cq t"; cases "th_ui t"; simp add: threads_ok_def)+

text \<open>
  C29: From the moment on at which the sender has been published with nothing queued before, without a lock and
  however the accesses of the two threads interleave, writes that fail included: the threads are never
  both inside its \<^verbatim>\<open>Proceed\<close>, at most one write is under way, the messages handed to the stream, taken and waiting are
  those sent, in order, a sender that has deleted itself is not run again, and no access goes wrong.
\<close>

theorem threads_exclude:
  assumes "thread_run s (threads_ready token s) t"
  shows "(ui_proceeds (th_ui t) = None \<or> cq_proceeds (th_cq t) = None) \<and> gx_writes (th_ctx t) \<le> 1
    \<and> gx_sent (th_ctx t) @ in_hand t @ gx_msg_q (th_ctx t) = th_said t
    \<and> (th_freed t \<longrightarrow> ui_proceeds (th_ui t) = None \<and> cq_proceeds (th_cq t) = None)
    \<and> (\<exists>u. ui_moves t = Inr u) \<and> (\<exists>u. cq_moves s t = Inr u)"
proof -
  have ok: "threads_ok t" by (rule threads_ok_run [OF assms threads_ok_ready])
  then have "gx_sent (th_ctx t) @ in_hand t @ gx_msg_q (th_ctx t) = th_said t" by (simp add: threads_ok_def)
  then show ?thesis
    using threads_ok_exclusive [OF ok] ui_moves_ok [OF ok] cq_moves_ok [OF ok, of s]
    by (auto simp: fine_def split: sum.splits)
qed

lemma threads_exclude_witness:
  "\<exists>t. thread_run 0 (threads_ready [] 0) t \<and> th_ui t = U_push \<lparr>gm_peer = [1], gm_bytes = [2]\<rparr>
    \<and> gx_writes (th_ctx t) \<le> 1"
proof -
  let ?t = "threads_ready [] 0" and ?m = "\<lparr>gm_peer = [1], gm_bytes = [2]\<rparr> :: gmessage"
  have "thread_run 0 ?t (user_sends ?m ?t)"
    by (rule thread_run.Go [OF thread_run.Begin thread_step.User]) (simp add: threads_ready_def)
  then show ?thesis using threads_exclude [of 0 "[]" "user_sends ?m ?t"] by (auto simp: user_sends_def)
qed

section \<open>Schedules\<close>

text \<open>A schedule names the thread that moves next; a turn that is not possible is skipped.\<close>

datatype turn = Sends gmessage | Ui_turn | Write_ends | Cq_turn

fun take_turn :: "nat \<Rightarrow> turn \<Rightarrow> threads \<Rightarrow> err + threads" where
  "take_turn s (Sends m) t = Inr (if th_ui t = U_idle then user_sends m t else t)"
| "take_turn s Ui_turn t = (if th_ui t = U_idle then Inr t else ui_moves t)"
| "take_turn s Write_ends t = Inr (if th_cq t = C_idle \<and> 0 < gx_writes (th_ctx t) then write_ends t else t)"
| "take_turn s Cq_turn t = (if th_cq t = C_idle then Inr t else cq_moves s t)"

fun follow :: "nat \<Rightarrow> turn list \<Rightarrow> threads \<Rightarrow> err + threads" where
  "follow s [] t = Inr t"
| "follow s (a # as) t = (case take_turn s a t of Inl e \<Rightarrow> Inl e | Inr u \<Rightarrow> follow s as u)"

lemma follow_run:
  assumes "follow s as u = Inr v" and "thread_run s t u"
  shows "thread_run s t v"
  using assms
proof (induction s as u rule: follow.induct)
  case (2 s a as u)
  then obtain w where w: "take_turn s a u = Inr w" "follow s as w = Inr v" by (auto split: sum.splits)
  have "thread_run s t w"
    using w(1) "2.prems"(2)
    by (cases a) (auto split: if_splits intro: thread_run.intros thread_step.intros)
  then show ?case using "2.IH" [OF w] by simp
qed simp

lemma follow_append: "follow s (as @ bs) t = (case follow s as t of Inl e \<Rightarrow> Inl e | Inr u \<Rightarrow> follow s bs u)"
  by (induction as arbitrary: t) (auto split: sum.split)

lemmas follow_defs = ui_moves_def cq_moves_def user_sends_def write_ends_def act

text \<open>
  The schedules of a send and of a completed write that are not interrupted: they do what the operations of
  the sequential model do.
\<close>

definition send_alone :: "gmessage \<Rightarrow> turn list" where
  "send_alone m = Sends m # replicate 7 Ui_turn"

definition write_alone :: "turn list" where
  "write_alone = Write_ends # replicate 3 Cq_turn"

lemma send_alone_follow:
  assumes "th_ui t = U_idle" and "gx_sender (th_ctx t) \<noteq> None" and "\<not> th_freed t"
  shows "follow s (send_alone m) t =
    Inr (t\<lparr>th_ctx := ctx_put m (th_ctx t), th_said := th_said t @ [m]\<rparr>)"
proof (cases "gx_running (th_ctx t)")
  case True
  then show ?thesis using assms
    by (simp add: send_alone_def eval_nat_numeral follow_defs sender_defs)
next
  case False
  then show ?thesis using assms
    by (cases "gx_msg_q (th_ctx t)")
      (simp_all add: send_alone_def eval_nat_numeral follow_defs sender_defs)
qed

lemma write_alone_follow:
  assumes "th_cq t = C_idle" and "0 < gx_writes (th_ctx t)" and "\<not> th_freed t"
  shows "follow s write_alone t = Inr (t\<lparr>th_ctx := ctx_done (th_ctx t)\<rparr>)"
  using assms
  by (cases "gx_msg_q (th_ctx t)")
    (simp_all add: write_alone_def eval_nat_numeral follow_defs sender_defs)

text \<open>
  That nothing is queued before the sender is published is needed: a message that is there when the
  sender's constructor tests the queue is written without \<^verbatim>\<open>running_\<close> being set, and the next one starts a second write.
\<close>

definition race_early :: "gmessage \<Rightarrow> gmessage \<Rightarrow> turn list" where
  "race_early m1 m2 = [Sends m1] @ replicate 3 Ui_turn @ replicate 4 Cq_turn @ [Sends m2] @ replicate 7 Ui_turn"

lemma early_message_overlaps:
  "\<exists>t. thread_run s (threads_starting token) t \<and> gx_writes (th_ctx t) = 2"
proof -
  obtain m1 m2 :: gmessage where "True" by blast
  have "\<exists>t. follow s (race_early m1 m2) (threads_starting token) = Inr t \<and> gx_writes (th_ctx t) = 2"
    by (simp add: race_early_def eval_nat_numeral follow_defs threads_starting_def context_new_def)
  then show ?thesis using follow_run [OF _ thread_run.Begin] by blast
qed

section \<open>The lost wake-up\<close>

text \<open>
  While the completion thread stands between the test of the empty queue and the reset of
  \<^verbatim>\<open>running_\<close>, or between its last test and the assignment of \<^verbatim>\<open>sender_\<close>, a message is queued.
\<close>

definition race_steady :: "gmessage \<Rightarrow> gmessage \<Rightarrow> turn list" where
  "race_steady m1 m2 = send_alone m1 @
     [Write_ends, Cq_turn, Sends m2, Ui_turn, Ui_turn, Cq_turn]"

definition race_starting :: "gmessage \<Rightarrow> turn list" where
  "race_starting m = [Cq_turn, Cq_turn, Sends m, Ui_turn, Ui_turn, Ui_turn, Cq_turn]"

text \<open>Both threads wait, nothing is under way, and the messages \<open>ms\<close> are on the queue.\<close>

definition asleep :: "gmessage list \<Rightarrow> threads \<Rightarrow> bool" where
  "asleep ms t \<longleftrightarrow> th_ui t = U_idle \<and> th_cq t = C_idle \<and> gx_writes (th_ctx t) = 0
     \<and> \<not> gx_running (th_ctx t) \<and> gx_sender (th_ctx t) \<noteq> None \<and> gx_msg_q (th_ctx t) = ms"

lemma asleep_steps:
  "asleep ms t \<Longrightarrow> thread_step s t u \<longleftrightarrow> (\<exists>m. u = user_sends m t)"
  by (auto simp: asleep_def thread_step.simps)

lemma asleep_next: "asleep [m] t \<Longrightarrow> gx_sent (ctx_put n (th_ctx t)) = gx_sent (th_ctx t) @ [m]"
  by (simp add: asleep_def sender_defs)

lemma race_steady_asleep:
  "\<exists>t. follow s (race_steady m1 m2) (threads_ready token s) = Inr t \<and> asleep [m2] t
    \<and> th_said t = [m1, m2] \<and> gx_sent (th_ctx t) = [m1]"
proof -
  have "follow s (send_alone m1) (threads_ready token s) = Inr ((threads_ready token s)
      \<lparr>th_ctx := ctx_put m1 (th_ctx (threads_ready token s)), th_said := [m1]\<rparr>)"
    using send_alone_follow [of "threads_ready token s" s m1] by (simp add: threads_ready_def)
  then show ?thesis
    by (simp add: race_steady_def follow_append)
      (simp add: follow_defs threads_ready_def context_new_def sender_defs asleep_def)
qed

lemma race_starting_asleep:
  "\<exists>t. follow s (race_starting m) (threads_starting token) = Inr t \<and> asleep [m] t
    \<and> th_said t = [m] \<and> gx_sent (th_ctx t) = []"
  by (simp add: race_starting_def follow_defs threads_starting_def context_new_def asleep_def)

text \<open>
  C30: The missing lock loses wake-ups: a message that is queued while the completion thread is about
  to put the sender to sleep, or is about to publish a new sender, stays on the queue with both
  threads waiting, no write under way and nothing that could happen but another send; only with
  that one it is written.
\<close>

theorem wake_up_lost:
  "(\<exists>t. thread_run s (threads_ready token s) t \<and> asleep [m2] t
      \<and> th_said t = [m1, m2] \<and> gx_sent (th_ctx t) = [m1]
      \<and> (\<forall>u. thread_step s t u \<longleftrightarrow> (\<exists>m. u = user_sends m t))
      \<and> gx_sent (ctx_put m3 (th_ctx t)) = [m1, m2])
   \<and> (\<exists>t. thread_run s (threads_starting token) t \<and> asleep [m2] t
      \<and> th_said t = [m2] \<and> gx_sent (th_ctx t) = []
      \<and> (\<forall>u. thread_step s t u \<longleftrightarrow> (\<exists>m. u = user_sends m t))
      \<and> gx_sent (ctx_put m3 (th_ctx t)) = [m2])"
  using race_steady_asleep [of s m1 m2 token] race_starting_asleep [of s m2 token]
    follow_run [OF _ thread_run.Begin] asleep_steps asleep_next
  by (metis append_Nil append_Cons)

end
