(* ===== verification/Rpc_Client_Facts.thy ===== *)
theory Rpc_Client_Facts
  imports Rpc_Client
begin

text \<open>
  The gRPC client is safe and its streams are serial as long as nothing is sent before the stream
  is ready and no write fails; what goes wrong otherwise.
\<close>

section \<open>The invariant\<close>

fun fits :: "gcall option \<Rightarrow> gop \<Rightarrow> bool" where
  "fits (Some (LoginCall c)) (Login_finish d) = True"
| "fits (Some (ListPeerCall t)) (List_finish u) = True"
| "fits (Some (SwitchMessagesCall k READY)) (Stream_start t) = True"
| "fits (Some (SwitchMessagesCall k READING)) Stream_read = True"
| "fits (Some (MessageSender k)) (Stream_write m) = True"
| "fits _ _ = False"

definition blank :: "gcontext \<Rightarrow> bool" where
  "blank x \<longleftrightarrow> gx_sender x = None \<and> gx_msg_q x = [] \<and> \<not> gx_running x \<and> gx_writes x = 0"

definition gops_ok :: "nat set \<Rightarrow> gclient \<Rightarrow> bool" where
  "gops_ok X g \<longleftrightarrow> distinct (map fst (gc_pending g))
     \<and> (\<forall>(i, op) \<in> set (gc_pending g). i < gc_next g \<and> (i \<notin> X \<longrightarrow> fits (gc_calls g i) op))"

definition gcalls_ok :: "gclient \<Rightarrow> bool" where
  "gcalls_ok g \<longleftrightarrow> (\<forall>i c. gc_calls g i = Some c \<longrightarrow> i < gc_next g)
     \<and> (\<forall>i k st. gc_calls g i = Some (SwitchMessagesCall k st) \<longrightarrow> k < length (gc_ctxs g))
     \<and> (\<forall>i k. gc_calls g i = Some (SwitchMessagesCall k READY) \<longrightarrow> blank (gc_ctxs g ! k))
     \<and> (\<forall>i j k. gc_calls g i = Some (SwitchMessagesCall k READY)
          \<and> gc_calls g j = Some (SwitchMessagesCall k READY) \<longrightarrow> j = i)
     \<and> (\<forall>i k. gc_calls g i = Some (MessageSender k) \<longrightarrow>
          k < length (gc_ctxs g) \<and> gx_sender (gc_ctxs g ! k) = Some i)"

definition gctx_ok :: "nat set \<Rightarrow> gclient \<Rightarrow> bool" where
  "gctx_ok X g \<longleftrightarrow> (\<forall>k. gc_ctx g = Some k \<longrightarrow> k < length (gc_ctxs g))
     \<and> (\<forall>k < length (gc_ctxs g). case gx_sender (gc_ctxs g ! k) of
          None \<Rightarrow> blank (gc_ctxs g ! k)
        | Some s \<Rightarrow> gc_calls g s = Some (MessageSender k) \<and> (s \<notin> X \<longrightarrow> sender_ok (gc_ctxs g ! k)
            \<and> (gx_running (gc_ctxs g ! k) \<longleftrightarrow> s \<in> fst ` set (gc_pending g))))"

definition ginv :: "nat set \<Rightarrow> gclient \<Rightarrow> bool" where
  "ginv X g \<longleftrightarrow> gops_ok X g \<and> gcalls_ok g \<and> gctx_ok X g"

lemma gopsD:
  assumes "gops_ok X g" and "(i, op) \<in> set (gc_pending g)"
  shows "i < gc_next g" "i \<notin> X \<Longrightarrow> fits (gc_calls g i) op"
  using assms unfolding gops_ok_def by blast+

lemma gopsI:
  assumes "distinct (map fst (gc_pending g))"
    and "\<And>i op. (i, op) \<in> set (gc_pending g) \<Longrightarrow> i < gc_next g \<and> (i \<notin> X \<longrightarrow> fits (gc_calls g i) op)"
  shows "gops_ok X g"
  using assms unfolding gops_ok_def by blast

lemma gops_distinct: "gops_ok X g \<Longrightarrow> distinct (map fst (gc_pending g))"
  unfolding gops_ok_def by blast

lemma gcallsD:
  assumes "gcalls_ok g"
  shows "gc_calls g i = Some c \<Longrightarrow> i < gc_next g"
    "gc_calls g i = Some (SwitchMessagesCall k st) \<Longrightarrow> k < length (gc_ctxs g)"
    "gc_calls g i = Some (SwitchMessagesCall k READY) \<Longrightarrow> blank (gc_ctxs g ! k)"
    "gc_calls g i = Some (SwitchMessagesCall k READY) \<Longrightarrow>
      gc_calls g j = Some (SwitchMessagesCall k READY) \<Longrightarrow> j = i"
    "gc_calls g i = Some (MessageSender k) \<Longrightarrow> k < length (gc_ctxs g)"
    "gc_calls g i = Some (MessageSender k) \<Longrightarrow> gx_sender (gc_ctxs g ! k) = Some i"
  using assms unfolding gcalls_ok_def by blast+

lemma gcallsI:
  assumes "\<And>i c. gc_calls g i = Some c \<Longrightarrow> i < gc_next g"
    and "\<And>i k st. gc_calls g i = Some (SwitchMessagesCall k st) \<Longrightarrow> k < length (gc_ctxs g)"
    and "\<And>i k. gc_calls g i = Some (SwitchMessagesCall k READY) \<Longrightarrow> blank (gc_ctxs g ! k)"
    and "\<And>i j k. gc_calls g i = Some (SwitchMessagesCall k READY) \<Longrightarrow>
      gc_calls g j = Some (SwitchMessagesCall k READY) \<Longrightarrow> j = i"
    and "\<And>i k. gc_calls g i = Some (MessageSender k) \<Longrightarrow> k < length (gc_ctxs g) \<and> gx_sender (gc_ctxs g ! k) = Some i"
  shows "gcalls_ok g"
  unfolding gcalls_ok_def using assms by blast

lemma gctxD:
  assumes "gctx_ok X g"
  shows "gc_ctx g = Some k \<Longrightarrow> k < length (gc_ctxs g)"
    "k < length (gc_ctxs g) \<Longrightarrow> gx_sender (gc_ctxs g ! k) = None \<Longrightarrow> blank (gc_ctxs g ! k)"
    "k < length (gc_ctxs g) \<Longrightarrow> gx_sender (gc_ctxs g ! k) = Some s \<Longrightarrow> gc_calls g s = Some (MessageSender k)"
    "k < length (gc_ctxs g) \<Longrightarrow> gx_sender (gc_ctxs g ! k) = Some s \<Longrightarrow> s \<notin> X \<Longrightarrow> sender_ok (gc_ctxs g ! k)
       \<and> (gx_running (gc_ctxs g ! k) \<longleftrightarrow> s \<in> fst ` set (gc_pending g))"
  using assms unfolding gctx_ok_def by (auto split: option.splits)

lemma gctxI:
  assumes "\<And>k. gc_ctx g = Some k \<Longrightarrow> k < length (gc_ctxs g)"
    and "\<And>k. k < length (gc_ctxs g) \<Longrightarrow> gx_sender (gc_ctxs g ! k) = None \<Longrightarrow> blank (gc_ctxs g ! k)"
    and "\<And>k s. k < length (gc_ctxs g) \<Longrightarrow> gx_sender (gc_ctxs g ! k) = Some s \<Longrightarrow> gc_calls g s = Some (MessageSender k)
      \<and> (s \<notin> X \<longrightarrow> sender_ok (gc_ctxs g ! k) \<and> (gx_running (gc_ctxs g ! k) \<longleftrightarrow> s \<in> fst ` set (gc_pending g)))"
  shows "gctx_ok X g"
  unfolding gctx_ok_def using assms by (auto split: option.splits)

lemma ginvD: "ginv X g \<Longrightarrow> gops_ok X g" "ginv X g \<Longrightarrow> gcalls_ok g" "ginv X g \<Longrightarrow> gctx_ok X g"
  by (simp_all add: ginv_def)

lemma ginvI: "gops_ok X g \<Longrightarrow> gcalls_ok g \<Longrightarrow> gctx_ok X g \<Longrightarrow> ginv X g"
  by (simp add: ginv_def)

lemma gfresh:
  assumes "ginv X g"
  shows "gc_calls g (gc_next g) = None" "gc_next g \<notin> fst ` set (gc_pending g)"
  using gcallsD(1) [OF ginvD(2) [OF assms], of "gc_next g"] gopsD(1) [OF ginvD(1) [OF assms], of "gc_next g"]
  by fastforce+

section \<open>Starting and ending calls\<close>

text \<open>A unary call is started.\<close>

definition started :: "gcall \<Rightarrow> gop \<Rightarrow> gclient \<Rightarrow> gclient" where
  "started c op g = g\<lparr>gc_calls := (gc_calls g)(gc_next g \<mapsto> c), gc_next := Suc (gc_next g),
     gc_pending := gc_pending g @ [(gc_next g, op)]\<rparr>"

lemma started_inv:
  assumes "ginv {} g" and "fits (Some c) op" and c: "c = LoginCall a \<or> c = ListPeerCall a"
  shows "ginv {} (started c op g)"
proof -
  note inv = ginvD [OF assms(1)] and fresh = gfresh [OF assms(1)]
  show ?thesis
  proof (rule ginvI)
    show "gops_ok {} (started c op g)"
    proof (rule gopsI, goal_cases)
      case 1
      then show ?case using gops_distinct [OF inv(1)] fresh(2) by (simp add: started_def)
    next
      case (2 i op')
      then show ?case using gopsD [OF inv(1), of i op'] assms(2) fresh
        by (auto simp: started_def less_SucI)
    qed
    show "gcalls_ok (started c op g)"
      by (rule gcallsI) (use gcallsD [OF inv(2)] c in \<open>auto simp: started_def less_SucI split: if_splits\<close>)
    show "gctx_ok {} (started c op g)"
    proof (rule gctxI, goal_cases)
      case (3 k s)
      then have k: "k < length (gc_ctxs g)" "gx_sender (gc_ctxs g ! k) = Some s" by (simp_all add: started_def)
      then have "s \<noteq> gc_next g" using gctxD(3) [OF inv(3) k] fresh(1) by auto
      then show ?case using gctxD(3,4) [OF inv(3) k] by (simp add: started_def)
    qed (use gctxD [OF inv(3)] in \<open>simp_all add: started_def\<close>)
  qed
qed

text \<open>A call that is no sender deletes itself after its operation has completed.\<close>

lemma dropped_inv:
  assumes "ginv {i} g" and "i \<notin> fst ` set (gc_pending g)" and "\<forall>k. gc_calls g i \<noteq> Some (MessageSender k)"
  shows "ginv {} (g\<lparr>gc_calls := (gc_calls g)(i := None)\<rparr>)" (is "ginv {} ?g")
proof -
  note inv = ginvD [OF assms(1)]
  show ?thesis
  proof (rule ginvI)
    show "gops_ok {} ?g"
    proof (rule gopsI, goal_cases)
      case (2 j op)
      then have "j \<noteq> i" using assms(2) by force
      then show ?case using 2 gopsD [OF inv(1), of j op] by simp
    qed (simp add: gops_distinct [OF inv(1)])
    show "gcalls_ok ?g"
      by (rule gcallsI) (use gcallsD [OF inv(2)] in \<open>auto split: if_splits\<close>)
    show "gctx_ok {} ?g"
    proof (rule gctxI, goal_cases)
      case (3 k s)
      then have k: "k < length (gc_ctxs g)" "gx_sender (gc_ctxs g ! k) = Some s" by simp_all
      then have "s \<noteq> i" using gctxD(3) [OF inv(3) k] assms(3) by auto
      then show ?case using gctxD(3,4) [OF inv(3) k] by simp
    qed (use gctxD [OF inv(3)] in simp_all)
  qed
qed

text \<open>A successful login opens a message stream with a new context.\<close>

definition streaming :: "bytes \<Rightarrow> gclient \<Rightarrow> gclient" where
  "streaming token g = g\<lparr>gc_token := token, gc_ctxs := gc_ctxs g @ [context_new token],
     gc_ctx := Some (length (gc_ctxs g)), gc_next := Suc (gc_next g),
     gc_pending := gc_pending g @ [(gc_next g, Stream_start token)],
     gc_calls := (gc_calls g)(gc_next g \<mapsto> SwitchMessagesCall (length (gc_ctxs g)) READY)\<rparr>"

lemma streaming_inv:
  assumes "ginv {i} g" and "i < gc_next g"
  shows "ginv {i} (streaming token g)" (is "ginv {i} ?g")
proof -
  note inv = ginvD [OF assms(1)] and fresh = gfresh [OF assms(1)]
  have old: "gc_ctxs ?g ! k = gc_ctxs g ! k" "k < length (gc_ctxs ?g)" if "k < length (gc_ctxs g)" for k
    using that by (simp_all add: streaming_def nth_append)
  have calls: "gc_calls ?g j = (if j = gc_next g then Some (SwitchMessagesCall (length (gc_ctxs g)) READY)
      else gc_calls g j)" for j by (simp add: streaming_def)
  have last: "blank (gc_ctxs ?g ! length (gc_ctxs g))" "length (gc_ctxs g) < length (gc_ctxs ?g)"
    by (simp_all add: streaming_def blank_def context_new_def)
  show ?thesis
  proof (rule ginvI)
    show "gops_ok {i} ?g"
    proof (rule gopsI, goal_cases)
      case 1
      then show ?case using gops_distinct [OF inv(1)] fresh(2) by (simp add: streaming_def)
    next
      case (2 j op)
      then show ?case using gopsD [OF inv(1), of j op] fresh assms(2) by (auto simp: streaming_def less_SucI)
    qed
    show "gcalls_ok ?g"
    proof (rule gcallsI, goal_cases)
      case (1 j c)
      then show ?case using gcallsD(1) [OF inv(2), of j c] by (auto simp: streaming_def less_SucI split: if_splits)
    next
      case (2 j k st)
      then show ?case using gcallsD(2) [OF inv(2), of j k st] old last by (auto simp: calls split: if_splits)
    next
      case (3 j k)
      then show ?case using gcallsD(2,3) [OF inv(2), of j k] old last by (auto simp: calls split: if_splits)
    next
      case (4 j l k)
      then show ?case using gcallsD(4) [OF inv(2), of j k l] gcallsD(2) [OF inv(2), of _ k READY]
        by (fastforce simp: calls split: if_splits)
    next
      case (5 j k)
      then show ?case using gcallsD(5,6) [OF inv(2), of j k] old by (auto simp: calls split: if_splits)
    qed
    show "gctx_ok {i} ?g"
    proof (rule gctxI, goal_cases)
      case (1 k)
      then show ?case by (simp add: streaming_def)
    next
      case (2 k)
      then show ?case using gctxD(2) [OF inv(3), of k] old last by (cases "k = length (gc_ctxs g)") (auto simp: streaming_def)
    next
      case (3 k s)
      then have k: "k < length (gc_ctxs g)" using last(1) by (cases "k = length (gc_ctxs g)") (auto simp: streaming_def blank_def)
      then have s: "gx_sender (gc_ctxs g ! k) = Some s" using 3 old(1) by simp
      then have "s \<noteq> gc_next g" using gctxD(3) [OF inv(3) k s] fresh(1) by auto
      then show ?case using gctxD(3,4) [OF inv(3) k s] old(1) [OF k] by (simp add: streaming_def)
    qed
  qed
qed

text \<open>The stream is ready: the sender is made and sleeps, the first read is started.\<close>

definition readied :: "nat \<Rightarrow> nat \<Rightarrow> gclient \<Rightarrow> gclient" where
  "readied i k g = g\<lparr>gc_next := Suc (gc_next g),
     gc_ctxs := (gc_ctxs g)[k := (gc_ctxs g ! k)\<lparr>gx_running := False, gx_sender := Some (gc_next g)\<rparr>],
     gc_pending := gc_pending g @ [(i, Stream_read)],
     gc_calls := (gc_calls g)(gc_next g \<mapsto> MessageSender k, i \<mapsto> SwitchMessagesCall k READING)\<rparr>"

lemma readied_inv:
  assumes "ginv {i} g" and i: "gc_calls g i = Some (SwitchMessagesCall k READY)" "i \<notin> fst ` set (gc_pending g)"
  shows "ginv {} (readied i k g)" (is "ginv {} ?g")
proof -
  note inv = ginvD [OF assms(1)] and fresh = gfresh [OF assms(1)]
  have k: "k < length (gc_ctxs g)" "blank (gc_ctxs g ! k)" "i < gc_next g"
    using gcallsD [OF inv(2)] i(1) by blast+
  have calls: "gc_calls ?g j = (if j = i then Some (SwitchMessagesCall k READING)
      else if j = gc_next g then Some (MessageSender k) else gc_calls g j)" for j by (simp add: readied_def)
  have ctxs: "gc_ctxs ?g ! l = (if l = k then (gc_ctxs g ! k)\<lparr>gx_running := False, gx_sender := Some (gc_next g)\<rparr>
      else gc_ctxs g ! l)" "length (gc_ctxs ?g) = length (gc_ctxs g)" for l
    using k(1) by (simp_all add: readied_def nth_list_update)
  have rest: "gc_next ?g = Suc (gc_next g)" "gc_pending ?g = gc_pending g @ [(i, Stream_read)]" "gc_ctx ?g = gc_ctx g"
    by (simp_all add: readied_def)
  have not_k: "j = i" if "gc_calls g j = Some (SwitchMessagesCall k READY)" for j
    using gcallsD(4) [OF inv(2) i(1) that] .
  have no_sender: "gc_calls g j \<noteq> Some (MessageSender k)" for j
    using gcallsD(6) [OF inv(2), of j k] k(2) by (auto simp: blank_def)
  show ?thesis
  proof (rule ginvI)
    show "gops_ok {} ?g"
    proof (rule gopsI, goal_cases)
      case 1
      then show ?case using gops_distinct [OF inv(1)] i(2) by (simp add: readied_def)
    next
      case (2 j op)
      then consider "j = i" "op = Stream_read" | "(j, op) \<in> set (gc_pending g)" "j \<noteq> i" "j \<noteq> gc_next g"
        using i(2) fresh(2) by (force simp: readied_def)
      then show ?case using gopsD [OF inv(1), of j op] k(3) by cases (auto simp: calls rest)
    qed
    show "gcalls_ok ?g"
    proof (rule gcallsI, goal_cases)
      case (1 j c)
      then show ?case using gcallsD(1) [OF inv(2), of j] k(3) by (auto simp: calls rest split: if_splits)
    next
      case (2 j l st)
      then show ?case using gcallsD(2) [OF inv(2), of j l st] k(1) by (auto simp: calls ctxs split: if_splits)
    next
      case (3 j l)
      then show ?case using gcallsD(3) [OF inv(2), of j l] not_k [of j] by (auto simp: calls ctxs split: if_splits)
    next
      case (4 j m l)
      then show ?case using gcallsD(4) [OF inv(2), of j l m] by (auto simp: calls split: if_splits)
    next
      case (5 j l)
      then show ?case using gcallsD(5,6) [OF inv(2), of j l] k(1) no_sender [of j]
        by (auto simp: calls ctxs split: if_splits)
    qed
    show "gctx_ok {} ?g"
    proof (rule gctxI, goal_cases)
      case (1 l)
      then show ?case using gctxD(1) [OF inv(3), of l] by (simp add: ctxs rest)
    next
      case (2 l)
      then show ?case using gctxD(2) [OF inv(3), of l] by (auto simp: ctxs split: if_splits)
    next
      case (3 l s)
      then show ?case using gctxD(3,4) [OF inv(3), of l s] k fresh i
        by (auto simp: ctxs calls rest sender_ok_def blank_def split: if_splits)
    qed
  qed
qed

lemma reading_inv:
  assumes "ginv {i} g" and i: "gc_calls g i = Some (SwitchMessagesCall k READING)" "i \<notin> fst ` set (gc_pending g)"
  shows "ginv {} (g\<lparr>gc_signals := ss, gc_pending := gc_pending g @ [(i, Stream_read)]\<rparr>)" (is "ginv {} ?g")
proof (rule ginvI)
  note inv = ginvD [OF assms(1)]
  show "gops_ok {} ?g"
  proof (rule gopsI, goal_cases)
    case 1
    then show ?case using gops_distinct [OF inv(1)] i(2) by simp
  next
    case (2 j op)
    then consider "j = i" "op = Stream_read" | "(j, op) \<in> set (gc_pending g)" "j \<noteq> i" using i(2) by force
    then show ?case using gopsD [OF inv(1), of j op] gcallsD(1) [OF inv(2) i(1)] i(1) by cases auto
  qed
  show "gcalls_ok ?g" using inv(2) by (simp add: gcalls_ok_def)
  show "gctx_ok {} ?g"
  proof (rule gctxI, goal_cases)
    case (3 k s)
    then have k: "k < length (gc_ctxs g)" "gx_sender (gc_ctxs g ! k) = Some s" by simp_all
    then have "s \<noteq> i" using gctxD(3) [OF inv(3) k] i(1) by auto
    then show ?case using gctxD(3,4) [OF inv(3) k] by auto
  qed (use gctxD [OF inv(3)] in simp_all)
qed

section \<open>The sender\<close>

text \<open>The context of the sender \<open>s\<close> moves on, with a write started or not.\<close>

definition moved :: "nat \<Rightarrow> gcontext \<Rightarrow> (nat \<times> gop) list \<Rightarrow> gclient \<Rightarrow> gclient" where
  "moved k x ps g = g\<lparr>gc_ctxs := (gc_ctxs g)[k := x], gc_pending := ps\<rparr>"

lemma moved_inv:
  assumes "ginv {} g" and k: "k < length (gc_ctxs g)" "gx_sender (gc_ctxs g ! k) = Some s"
    and x: "gx_sender x = Some s" "sender_ok x" "gx_running x \<longleftrightarrow> s \<in> fst ` set ps"
    and ps: "distinct (map fst ps)" "\<And>j op. (j, op) \<in> set ps \<Longrightarrow> (j, op) \<in> set (gc_pending g) \<or> j = s \<and> fits (Some (MessageSender k)) op"
    and others: "\<And>j. j \<noteq> s \<Longrightarrow> j \<in> fst ` set ps \<longleftrightarrow> j \<in> fst ` set (gc_pending g)"
  shows "ginv {} (moved k x ps g)" (is "ginv {} ?g")
proof (rule ginvI)
  note inv = ginvD [OF assms(1)]
  have s: "gc_calls g s = Some (MessageSender k)" using gctxD(3) [OF inv(3) k] .
  have ctxs: "gc_ctxs ?g ! l = (if l = k then x else gc_ctxs g ! l)" for l
    using k(1) by (simp add: moved_def nth_list_update)
  have rest: "length (gc_ctxs ?g) = length (gc_ctxs g)" "gc_calls ?g = gc_calls g" "gc_next ?g = gc_next g"
      "gc_pending ?g = ps" "gc_ctx ?g = gc_ctx g" by (simp_all add: moved_def)
  show "gops_ok {} ?g"
  proof (rule gopsI, goal_cases)
    case (2 j op)
    then show ?case using ps(2) [of j op] gopsD [OF inv(1), of j op] gcallsD(1) [OF inv(2) s] s by (auto simp: rest)
  qed (simp add: rest ps(1))
  show "gcalls_ok ?g"
  proof (rule gcallsI, goal_cases)
    case (3 j l)
    then show ?case using gcallsD(3) [OF inv(2), of j l] k(2) by (auto simp: ctxs rest blank_def)
  next
    case (5 j l)
    then show ?case using gcallsD(5,6) [OF inv(2), of j l] k(2) x(1) by (auto simp: ctxs rest)
  qed (use gcallsD [OF inv(2)] in \<open>simp_all add: rest\<close>)
  show "gctx_ok {} ?g"
  proof (rule gctxI, goal_cases)
    case (1 l)
    then show ?case using gctxD(1) [OF inv(3), of l] by (simp add: rest)
  next
    case (2 l)
    then show ?case using gctxD(2) [OF inv(3), of l] x(1) by (auto simp: rest ctxs split: if_splits)
  next
    case (3 l t)
    show ?case
    proof (cases "l = k")
      case True
      then show ?thesis using 3 x s by (simp add: ctxs rest)
    next
      case False
      then have l: "l < length (gc_ctxs g)" "gx_sender (gc_ctxs g ! l) = Some t" using 3 by (simp_all add: ctxs rest)
      then have "t \<noteq> s" using gctxD(3) [OF inv(3) l] s False by auto
      then show ?thesis using gctxD(3,4) [OF inv(3) l] others False by (simp add: ctxs rest)
    qed
  qed
qed

lemma ctx_sender [simp]: "gx_sender (ctx_put m x) = gx_sender x" "gx_sender (ctx_done x) = gx_sender x"
  by (auto simp: sender_defs split: list.splits prod.splits)

text \<open>A message is sent on a stream that has its sender.\<close>

lemma client_send_state:
  assumes "ginv {} g" and k: "gc_ctx g = Some k" "gx_sender (gc_ctxs g ! k) = Some s"
  defines "x \<equiv> gc_ctxs g ! k"
  shows "client_send m g = (Inr (), moved k (ctx_put m x)
    (if gx_running x then gc_pending g else gc_pending g @ [(s, Stream_write m)]) g)" (is "_ = (_, ?g)")
    and "ginv {} (moved k (ctx_put m x)
      (if gx_running x then gc_pending g else gc_pending g @ [(s, Stream_write m)]) g)"
proof -
  note inv = ginvD [OF assms(1)]
  have len: "k < length (gc_ctxs g)" using gctxD(1) [OF inv(3) k(1)] .
  have s: "gc_calls g s = Some (MessageSender k)" "sender_ok x" "gx_running x \<longleftrightarrow> s \<in> fst ` set (gc_pending g)"
    using gctxD(3,4) [OF inv(3) len k(2)] by (simp_all add: x_def)
  have idle: "\<not> gx_running x \<Longrightarrow> gx_msg_q x = []" using s(2) by (simp add: sender_ok_def)
  show "client_send m g = (Inr (), ?g)"
    using k len s(1) idle
    by (cases "gx_running x")
      (simp_all add: client_send_def send_message_on_def on_context_def act sender_proceed_def run_sender_def
        begin_op_def sender_defs moved_def x_def)
  show "ginv {} (moved k (ctx_put m x)
      (if gx_running x then gc_pending g else gc_pending g @ [(s, Stream_write m)]) g)"
  proof (rule moved_inv [OF assms(1) len k(2)])
    show "gx_sender (ctx_put m x) = Some s" using k(2) by (simp add: x_def)
    show "sender_ok (ctx_put m x)" by (rule cw.ok_put [OF s(2)])
    show "gx_running (ctx_put m x) \<longleftrightarrow> s \<in> fst ` set (if gx_running x then gc_pending g else gc_pending g @ [(s, Stream_write m)])"
      using s(2,3) idle k(2) by (auto simp: sender_defs x_def split: list.splits)
  qed (use s gops_distinct [OF inv(1)] in \<open>auto split: if_splits\<close>)
qed

section \<open>An operation completes\<close>

definition without_op :: "nat \<Rightarrow> gclient \<Rightarrow> gclient" where
  "without_op n g = g\<lparr>gc_pending := take n (gc_pending g) @ drop (Suc n) (gc_pending g)\<rparr>"

lemma without_op_inv:
  assumes "ginv {} g" and n: "n < length (gc_pending g)" "gc_pending g ! n = (i, op)"
  shows "ginv {i} (without_op n g)" "i \<notin> fst ` set (gc_pending (without_op n g))" "fits (gc_calls g i) op" "i < gc_next g"
proof -
  note inv = ginvD [OF assms(1)] and rest = remove_nth_tag [OF gops_distinct [OF ginvD(1) [OF assms(1)]] n]
  have mem: "(i, op) \<in> set (gc_pending g)" using n by (metis nth_mem)
  have pend: "gc_pending (without_op n g) = take n (gc_pending g) @ drop (Suc n) (gc_pending g)"
    by (simp add: without_op_def)
  show "i \<notin> fst ` set (gc_pending (without_op n g))" using rest(2) by (simp add: pend)
  show "fits (gc_calls g i) op" "i < gc_next g" using gopsD [OF inv(1) mem] by simp_all
  show "ginv {i} (without_op n g)"
  proof (rule ginvI)
    show "gops_ok {i} (without_op n g)"
    proof (rule gopsI, goal_cases)
      case (2 j op')
      then have "(j, op') \<in> set (gc_pending g)" by (simp add: pend rest(3))
      then show ?case using gopsD [OF inv(1), of j op'] by (simp add: without_op_def)
    qed (simp only: pend rest(1))
    show "gcalls_ok (without_op n g)" using inv(2) by (simp add: gcalls_ok_def without_op_def)
    show "gctx_ok {i} (without_op n g)"
    proof (rule gctxI, goal_cases)
      case (3 k s)
      then have k: "k < length (gc_ctxs g)" "gx_sender (gc_ctxs g ! k) = Some s" by (simp_all add: without_op_def)
      have "s \<noteq> i \<Longrightarrow> s \<in> fst ` set (gc_pending (without_op n g)) \<longleftrightarrow> s \<in> fst ` set (gc_pending g)"
        by (simp add: pend rest(3))
      then show ?case using gctxD(3,4) [OF inv(3) k] by (simp add: without_op_def)
    qed (use gctxD [OF inv(3)] in \<open>simp_all add: without_op_def\<close>)
  qed
qed

text \<open>A write has been completed.\<close>

lemma write_completes:
  assumes "ginv {} g" and n: "n < length (gc_pending g)" "gc_pending g ! n = (s, Stream_write m)"
    and s: "gc_calls g s = Some (MessageSender k)"
  defines "x \<equiv> gc_ctxs g ! k"
  shows "client_completes True a n g = (Inr (), moved k (ctx_done x) (gc_pending (without_op n g)
    @ (case gx_msg_q x of [] \<Rightarrow> [] | y # ys \<Rightarrow> [(s, Stream_write y)])) g)" (is "_ = (_, ?g)")
    and "ginv {} (moved k (ctx_done x) (gc_pending (without_op n g)
      @ (case gx_msg_q x of [] \<Rightarrow> [] | y # ys \<Rightarrow> [(s, Stream_write y)])) g)"
proof -
  note inv = ginvD [OF assms(1)] and w = without_op_inv [OF assms(1) n]
    and rest = remove_nth_tag [OF gops_distinct [OF ginvD(1) [OF assms(1)]] n]
  have k: "k < length (gc_ctxs g)" "gx_sender (gc_ctxs g ! k) = Some s" using gcallsD(5,6) [OF inv(2) s] .
  have "s \<in> fst ` set (gc_pending g)" using n by (metis nth_mem image_eqI fst_conv)
  then have x: "sender_ok x" "gx_running x" using gctxD(4) [OF inv(3) k] by (auto simp: x_def)
  show "client_completes True a n g = (Inr (), ?g)"
    using n s k(1)
    by (cases "gx_msg_q x") (simp_all add: client_completes_def note_write_def handle_event_def sender_proceed_def
        run_sender_def on_context_def act begin_op_def sender_defs moved_def x_def without_op_def)
  have pend: "gc_pending (without_op n g) = take n (gc_pending g) @ drop (Suc n) (gc_pending g)"
    by (simp add: without_op_def)
  show "ginv {} (moved k (ctx_done x) (gc_pending (without_op n g)
      @ (case gx_msg_q x of [] \<Rightarrow> [] | y # ys \<Rightarrow> [(s, Stream_write y)])) g)"
  proof (rule moved_inv [OF assms(1) k], goal_cases)
    case 1
    then show ?case using k(2) by (simp add: x_def)
  next
    case 2
    then show ?case by (rule cw.ok_complete [OF x])
  next
    case 3
    then show ?case using x w(2) by (cases "gx_msg_q x") (auto simp: sender_defs)
  next
    case 4
    then show ?case using rest(1) w(2) by (cases "gx_msg_q x") (auto simp: pend)
  next
    case (5 j op)
    then show ?case using rest(3) by (cases "gx_msg_q x") (auto simp: pend)
  next
    case (6 j)
    then show ?case using rest(3) by (cases "gx_msg_q x") (auto simp: pend)
  qed
qed

text \<open>What a stream was given so far, and a step that succeeds and gives no stream anything.\<close>

definition said :: "nat \<Rightarrow> gclient \<Rightarrow> gmessage list" where
  "said k g = (if k < length (gc_ctxs g) then gx_sent (gc_ctxs g ! k) @ gx_msg_q (gc_ctxs g ! k) else [])"

definition quiet_step :: "gclient \<Rightarrow> (err + unit) \<times> gclient \<Rightarrow> bool" where
  "quiet_step g p \<longleftrightarrow> fst p = Inr () \<and> ginv {} (snd p) \<and> (\<forall>k. said k (snd p) = said k g)"

lemma quietI:
  "p = (Inr (), g') \<Longrightarrow> ginv {} g' \<Longrightarrow> (\<And>k. said k g' = said k g) \<Longrightarrow> quiet_step g p"
  by (simp add: quiet_step_def)

lemma said_eq: "gc_ctxs g' = gc_ctxs g \<Longrightarrow> said k g' = said k g"
  by (simp add: said_def)

lemma said_streaming: "said k (streaming t g) = said k g"
  by (auto simp: said_def streaming_def nth_append context_new_def)

lemma said_readied: "said l (readied i k g) = said l g"
  by (cases "l = k") (auto simp: said_def readied_def)

lemma said_moved:
  "k < length (gc_ctxs g) \<Longrightarrow> said l (moved k x ps g) = (if l = k then gx_sent x @ gx_msg_q x else said l g)"
  by (auto simp: said_def moved_def nth_list_update)

lemma ginv_signals [simp]: "ginv X (g\<lparr>gc_signals := ss\<rparr>) = ginv X g"
  by (simp add: ginv_def gops_ok_def gcalls_ok_def gctx_ok_def cong: option.case_cong)

lemma login_completes:
  assumes "ginv {i} g" and i: "gc_calls g i = Some (LoginCall c)" "i \<notin> fst ` set (gc_pending g)" "i < gc_next g"
  shows "quiet_step g (login_proceed a i g)"
proof (cases "ga_status a")
  case False
  then have "login_proceed a i g = (Inr (), g\<lparr>gc_calls := (gc_calls g)(i := None)\<rparr>)"
    by (simp add: login_proceed_def act delete_gcall_def)
  then show ?thesis by (rule quietI) (use dropped_inv [OF assms(1) i(2)] i(1) in \<open>simp_all add: said_def\<close>)
next
  case True
  let ?s = "streaming (ga_token a) g"
  let ?g = "?s\<lparr>gc_signals := gc_signals ?s @ [OnLogin (ga_token a)]\<rparr>"
  have "login_proceed a i g = (Inr (), ?g\<lparr>gc_calls := (gc_calls ?g)(i := None)\<rparr>)"
    using True by (simp add: login_proceed_def act delete_gcall_def start_message_transmitting_def new_call_def
        switch_start_def begin_op_def set_gcall_def emit_signal_def streaming_def context_new_def)
  moreover have "ginv {i} ?g" using streaming_inv [OF assms(1) i(3)] by simp
  then have "ginv {} (?g\<lparr>gc_calls := (gc_calls ?g)(i := None)\<rparr>)"
    by (rule dropped_inv) (use i in \<open>auto simp: streaming_def\<close>)
  ultimately show ?thesis
    by (rule quietI) (simp add: said_eq [of _ "streaming (ga_token a) g"] said_streaming)
qed

lemma list_completes:
  assumes "ginv {i} g" and i: "gc_calls g i = Some (ListPeerCall t)" "i \<notin> fst ` set (gc_pending g)"
  shows "quiet_step g (list_peer_proceed a i g)"
proof -
  let ?g = "g\<lparr>gc_signals := gc_signals g @ (if ga_status a then [OnListPeers (ga_peers a)] else [])\<rparr>"
  have "list_peer_proceed a i g = (Inr (), ?g\<lparr>gc_calls := (gc_calls ?g)(i := None)\<rparr>)"
    by (simp add: list_peer_proceed_def act delete_gcall_def emit_signal_def)
  moreover have "ginv {} (?g\<lparr>gc_calls := (gc_calls ?g)(i := None)\<rparr>)"
    by (rule dropped_inv) (use assms in simp_all)
  ultimately show ?thesis by (rule quietI) (simp add: said_def)
qed

lemma switch_completes:
  assumes "ginv {i} g" and i: "gc_calls g i = Some (SwitchMessagesCall k st)" "i \<notin> fst ` set (gc_pending g)"
    and st: "st \<noteq> INIT"
  shows "quiet_step g (switch_proceed ok a i k st g)"
proof (cases ok)
  case False
  then have "switch_proceed ok a i k st g = (Inr (), g\<lparr>gc_calls := (gc_calls g)(i := None)\<rparr>)"
    using st by (cases st) (simp_all add: switch_proceed_def act delete_gcall_def)
  then show ?thesis by (rule quietI) (use dropped_inv [OF assms(1) i(2)] i(1) in \<open>simp_all add: said_def\<close>)
next
  case True
  consider "st = READY" | "st = READING" using st by (cases st) auto
  then show ?thesis
  proof cases
    case 1
    have b: "gx_msg_q (gc_ctxs g ! k) = []" "k < length (gc_ctxs g)"
      using gcallsD(2,3) [OF ginvD(2) [OF assms(1)]] i(1) 1 by (auto simp: blank_def)
    have "switch_proceed ok a i k st g = (Inr (), readied i k g)"
      using True 1 b by (simp add: switch_proceed_def act new_call_def run_sender_def on_context_def sender_round_def
          dequeue_def begin_op_def set_gcall_def readied_def)
    then show ?thesis by (rule quietI) (use readied_inv [OF assms(1) _ i(2)] i(1) 1 said_readied in simp_all)
  next
    case 2
    have "switch_proceed ok a i k st g = (Inr (), g\<lparr>gc_signals := gc_signals g
        @ [OnMessageReceived \<lparr>gm_peer = [], gm_bytes = gm_bytes (ga_msg a)\<rparr>], gc_pending := gc_pending g @ [(i, Stream_read)]\<rparr>)"
      using True 2 by (simp add: switch_proceed_def act emit_signal_def begin_op_def)
    then show ?thesis by (rule quietI) (use reading_inv [OF assms(1) _ i(2)] i(1) 2 in \<open>simp_all add: said_def\<close>)
  qed
qed

text \<open>Any completion but that of a failed write.\<close>

lemma fits_cases:
  assumes "fits c op"
  obtains d e where "c = Some (LoginCall d)" "op = Login_finish e"
  | t u where "c = Some (ListPeerCall t)" "op = List_finish u"
  | k st where "c = Some (SwitchMessagesCall k st)" "st \<noteq> INIT" "\<And>m. op \<noteq> Stream_write m"
  | k m where "c = Some (MessageSender k)" "op = Stream_write m"
  using assms by (cases "(c, op)" rule: fits.cases) auto

lemma client_completes_other:
  assumes "n < length (gc_pending g)" and "gc_pending g ! n = (i, op)" and "\<And>m. op \<noteq> Stream_write m"
  shows "client_completes ok a n g = handle_event ok a i (without_op n g)"
  using assms by (cases op) (auto simp: client_completes_def note_write_def without_op_def)

lemma write_keeps:
  assumes "ginv {} g" and s: "gc_calls g s = Some (MessageSender k)" "s \<in> fst ` set (gc_pending g)"
  shows "k < length (gc_ctxs g)" "gx_sent (ctx_done (gc_ctxs g ! k)) @ gx_msg_q (ctx_done (gc_ctxs g ! k)) = said k g"
proof -
  have k: "k < length (gc_ctxs g)" "gx_sender (gc_ctxs g ! k) = Some s"
    using gcallsD(5,6) [OF ginvD(2) [OF assms(1)] s(1)] .
  then have "sender_ok (gc_ctxs g ! k)" "gx_running (gc_ctxs g ! k)"
    using gctxD(4) [OF ginvD(3) [OF assms(1)] k] s(2) by simp_all
  then show "gx_sent (ctx_done (gc_ctxs g ! k)) @ gx_msg_q (ctx_done (gc_ctxs g ! k)) = said k g"
    using cw.complete_keeps k(1) by (simp add: said_def)
qed (use gcallsD(5) [OF ginvD(2) [OF assms(1)] s(1)] in simp)

lemma client_completes_inv:
  assumes "ginv {} g" and ok: "ok \<or> n \<ge> length (gc_pending g) \<or> (\<forall>m. snd (gc_pending g ! n) \<noteq> Stream_write m)"
  shows "quiet_step g (client_completes ok a n g)"
proof (cases "n < length (gc_pending g)")
  case False
  then show ?thesis using assms(1) by (simp add: client_completes_def quiet_step_def)
next
  case True
  obtain i op where n: "gc_pending g ! n = (i, op)" by fastforce
  note w = without_op_inv [OF assms(1) True n]
  have calls: "gc_calls (without_op n g) = gc_calls g" "gc_next (without_op n g) = gc_next g"
    by (simp_all add: without_op_def)
  have mem: "i \<in> fst ` set (gc_pending g)" using n True by (metis fst_conv image_eqI nth_mem)
  have quiet: "quiet_step (without_op n g) p \<Longrightarrow> quiet_step g p" for p
    by (simp add: quiet_step_def said_def without_op_def)
  show ?thesis using w(3)
  proof (cases rule: fits_cases)
    case (1 d e)
    then show ?thesis using quiet [OF login_completes [OF w(1) _ w(2), of d a]] w(4)
      by (simp add: client_completes_other [OF True n] handle_event_def calls)
  next
    case (2 t u)
    then show ?thesis using quiet [OF list_completes [OF w(1) _ w(2), of t a]]
      by (simp add: client_completes_other [OF True n] handle_event_def calls)
  next
    case (3 k st)
    then show ?thesis using quiet [OF switch_completes [OF w(1) _ w(2) 3(2), of k ok a]]
      by (simp add: client_completes_other [OF True n] handle_event_def calls)
  next
    case (4 k m)
    then have ok using ok True n by auto
    moreover have "said l (moved k (ctx_done (gc_ctxs g ! k)) ps g) = said l g" for l ps
      using write_keeps [OF assms(1) 4(1)] mem by (simp add: said_moved)
    ultimately show ?thesis using write_completes(1) [OF assms(1) True _ 4(1), of m a]
        write_completes(2) [OF assms(1) True _ 4(1), of m] n 4(2)
      by (simp add: quiet_step_def)
  qed
qed

section \<open>Runs of the client\<close>

text \<open>A completion, or one of the public slots is called.\<close>

datatype gevent = GCompletes bool garrival nat | GSends gmessage | GLists | GLogs bytes

fun gstep :: "gevent \<Rightarrow> unit gaction" where
  "gstep (GCompletes ok a n) = client_completes ok a n"
| "gstep (GSends m) = client_send m"
| "gstep GLists = list_peers"
| "gstep (GLogs cred) = login cred"

fun gsteps :: "gevent list \<Rightarrow> unit gaction" where
  "gsteps [] = ret ()"
| "gsteps (e # es) = andthen (gstep e) (gsteps es)"

text \<open>No write fails, and nothing is sent before the stream is ready.\<close>

fun is_write :: "gop \<Rightarrow> bool" where
  "is_write (Stream_write m) = True"
| "is_write _ = False"

fun orderly :: "gevent \<Rightarrow> gclient \<Rightarrow> bool" where
  "orderly (GCompletes ok a n) g = (ok \<or> length (gc_pending g) \<le> n \<or> \<not> is_write (snd (gc_pending g ! n)))"
| "orderly (GSends m) g = (case gc_ctx g of None \<Rightarrow> False | Some k \<Rightarrow> gx_sender (gc_ctxs g ! k) \<noteq> None)"
| "orderly _ g = True"

inductive client_reach :: "gclient \<Rightarrow> bool" where
  client_started: "client_reach (snd (client_run cred gclient_new))"
| client_steps: "client_reach g \<Longrightarrow> orderly e g \<Longrightarrow> client_reach (snd (gstep e g))"

text \<open>What an event gives the stream with number \<open>k\<close>.\<close>

fun given :: "gevent \<Rightarrow> nat \<Rightarrow> gclient \<Rightarrow> gmessage list" where
  "given (GSends m) k g = (if gc_ctx g = Some k then [m] else [])"
| "given _ k g = []"

lemma login_started: "login cred g = (Inr (), started (LoginCall cred) (Login_finish cred) g)"
  by (simp add: login_def act new_call_def begin_op_def started_def)

lemma list_started: "list_peers g = (Inr (), started (ListPeerCall (gc_token g)) (List_finish (gc_token g)) g)"
  by (simp add: list_peers_def act new_call_def begin_op_def started_def)

lemma said_started [simp]: "said k (started c op g) = said k g"
  by (simp add: said_def started_def)

lemma ginv_new: "ginv {} gclient_new"
  by (simp add: ginv_def gops_ok_def gcalls_ok_def gctx_ok_def gclient_new_def)

lemma is_write_iff: "is_write op \<longleftrightarrow> (\<exists>m. op = Stream_write m)"
  by (cases op) simp_all

lemma gstep_good:
  assumes "ginv {} g" and "orderly e g"
  shows "fst (gstep e g) = Inr () \<and> ginv {} (snd (gstep e g)) \<and> said k (snd (gstep e g)) = said k g @ given e k g"
proof (cases e)
  case (GCompletes ok a n)
  then show ?thesis using client_completes_inv [OF assms(1), of ok n a] assms(2)
    by (auto simp: quiet_step_def is_write_iff)
next
  case (GSends m)
  then obtain l s where l: "gc_ctx g = Some l" "gx_sender (gc_ctxs g ! l) = Some s"
    using assms(2) by (auto split: option.splits)
  note inv = ginvD(3) [OF assms(1)]
  have len: "l < length (gc_ctxs g)" using gctxD(1) [OF inv l(1)] .
  have "sender_ok (gc_ctxs g ! l)" using gctxD(4) [OF inv len l(2)] by simp
  then have "gx_sent (ctx_put m (gc_ctxs g ! l)) @ gx_msg_q (ctx_put m (gc_ctxs g ! l)) = said l g @ [m]"
    using cw.put_accepts len by (simp add: said_def)
  then show ?thesis
    using client_send_state [OF assms(1) l, of m] GSends l(1) len by (simp add: said_moved)
next
  case GLists
  then show ?thesis using started_inv [OF assms(1), of "ListPeerCall (gc_token g)"] by (simp add: list_started)
next
  case (GLogs cred)
  then show ?thesis using started_inv [OF assms(1), of "LoginCall cred"] by (simp add: login_started)
qed

lemma client_reach_inv: "client_reach g \<Longrightarrow> ginv {} g"
proof (induction rule: client_reach.induct)
  case (client_started cred)
  then show ?case using started_inv [OF ginv_new, of "LoginCall cred"]
    by (simp add: client_run_def login_started)
next
  case (client_steps g e)
  then show ?case using gstep_good by blast
qed

text \<open>
  C28: However the runtime orders its completions and the user calls the slots, as long as no write fails and
  messages are sent only after the stream got its sender, no step of the client touches a call that has
  deleted itself or fails otherwise; every stream has at most one write under way, has been given exactly
  the messages sent on it in their order, and has a write under way while messages wait.
\<close>

theorem client_safe:
  assumes "client_reach g" and "orderly e g"
  shows "fst (gstep e g) = Inr () \<and> said k (snd (gstep e g)) = said k g @ given e k g
    \<and> (k < length (gc_ctxs g) \<longrightarrow> gx_writes (gc_ctxs g ! k) \<le> 1
      \<and> (gx_msg_q (gc_ctxs g ! k) \<noteq> [] \<longrightarrow>
        (\<exists>s m. gx_sender (gc_ctxs g ! k) = Some s \<and> (s, Stream_write m) \<in> set (gc_pending g))))"
proof (intro conjI impI)
  note inv = client_reach_inv [OF assms(1)]
  show "fst (gstep e g) = Inr ()" "said k (snd (gstep e g)) = said k g @ given e k g"
    using gstep_good [OF inv assms(2)] by simp_all
  assume k: "k < length (gc_ctxs g)"
  let ?x = "gc_ctxs g ! k"
  have x: "gx_sender ?x = None \<longrightarrow> blank ?x" using gctxD(2) [OF ginvD(3) [OF inv] k] by blast
  have s: "gx_sender ?x = Some s \<longrightarrow> gc_calls g s = Some (MessageSender k) \<and> sender_ok ?x
      \<and> (gx_running ?x \<longleftrightarrow> s \<in> fst ` set (gc_pending g))" for s
    using gctxD(3,4) [OF ginvD(3) [OF inv] k] by simp
  show "gx_writes ?x \<le> 1" using x s by (cases "gx_sender ?x") (auto simp: blank_def sender_ok_def)
  assume q: "gx_msg_q ?x \<noteq> []"
  then obtain t where t: "gx_sender ?x = Some t" using x by (auto simp: blank_def)
  then obtain op where op: "(t, op) \<in> set (gc_pending g)" using s [of t] q by (auto simp: sender_ok_def)
  then have "fits (Some (MessageSender k)) op" using gopsD(2) [OF ginvD(1) [OF inv] op] s t by simp
  then show "\<exists>s m. gx_sender ?x = Some s \<and> (s, Stream_write m) \<in> set (gc_pending g)"
    using t op by (cases op) auto
qed

text \<open>A client that has logged in and whose stream is ready, and one whose login is done.\<close>

definition sample_arrival :: garrival where
  "sample_arrival = \<lparr>ga_status = True, ga_token = [7], ga_peers = [], ga_msg = \<lparr>gm_peer = [], gm_bytes = []\<rparr>\<rparr>"

definition sample_message :: gmessage where
  "sample_message = \<lparr>gm_peer = [2], gm_bytes = [1]\<rparr>"

definition sample_logged :: gclient where
  "sample_logged = \<lparr>gc_token = [7], gc_ctx = Some 0, gc_ctxs = [context_new [7]],
     gc_calls = [1 \<mapsto> SwitchMessagesCall 0 READY], gc_next = 2, gc_pending = [(1, Stream_start [7])],
     gc_signals = [OnLogin [7]]\<rparr>"

definition sample_ready :: gclient where
  "sample_ready = \<lparr>gc_token = [7], gc_ctx = Some 0, gc_ctxs = [(context_new [7])\<lparr>gx_sender := Some 2\<rparr>],
     gc_calls = [2 \<mapsto> MessageSender 0, 1 \<mapsto> SwitchMessagesCall 0 READING], gc_next = 3,
     gc_pending = [(1, Stream_read)], gc_signals = [OnLogin [7]]\<rparr>"

definition sample_writing :: gclient where
  "sample_writing = snd (gstep (GSends sample_message) sample_ready)"

lemma sample_logged_reach: "client_reach sample_logged"
proof -
  have "sample_logged = snd (gstep (GCompletes True sample_arrival 0) (snd (client_run [] gclient_new)))"
    by (simp add: sample_logged_def client_run_def login_def client_completes_def note_write_def handle_event_def
        login_proceed_def act new_call_def begin_op_def gclient_new_def sample_arrival_def
        start_message_transmitting_def switch_start_def set_gcall_def emit_signal_def delete_gcall_def context_new_def)
  then show ?thesis using client_steps [OF client_started [of "[]"], of "GCompletes True sample_arrival 0"] by simp
qed

lemma sample_ready_reach: "client_reach sample_ready"
proof -
  have "sample_ready = snd (gstep (GCompletes True sample_arrival 0) sample_logged)"
    by (simp add: sample_logged_def sample_ready_def client_completes_def note_write_def handle_event_def
        switch_proceed_def act new_call_def run_sender_def on_context_def sender_round_def dequeue_def
        begin_op_def set_gcall_def context_new_def)
  then show ?thesis using client_steps [OF sample_logged_reach, of "GCompletes True sample_arrival 0"] by simp
qed

lemma sample_orderly: "orderly (GSends m) sample_ready"
  by (simp add: sample_ready_def)

theorem client_safe_witness:
  "client_reach sample_ready \<and> fst (gstep (GSends sample_message) sample_ready) = Inr ()
    \<and> said 0 (snd (gstep (GSends sample_message) sample_ready)) = [sample_message]"
  using client_safe [OF sample_ready_reach sample_orderly, of sample_message 0] sample_ready_reach
  by (simp add: said_def sample_ready_def context_new_def)

section \<open>What goes wrong otherwise\<close>

text \<open>
  A message sent after the login but before the stream is ready makes the sender's constructor start a
  write without marking the stream busy: the next message sent starts a second write while the first is
  still under way, which gRPC forbids. Both writes carry the same tag.
\<close>

theorem early_send_overlaps:
  assumes "client_reach g" and n: "n < length (gc_pending g)" "gc_pending g ! n = (i, Stream_start t)"
    and k: "gc_calls g i = Some (SwitchMessagesCall k READY)" "gc_ctx g = Some k"
  shows "\<exists>g' s ps. gsteps [GSends m, GCompletes True a n, GSends m'] g = (Inr (), g')
    \<and> gx_writes (gc_ctxs g' ! k) = 2
    \<and> gc_pending g' = ps @ [(s, Stream_write m), (i, Stream_read), (s, Stream_write m')]"
proof -
  note inv = client_reach_inv [OF assms(1)]
  have x: "k < length (gc_ctxs g)" "blank (gc_ctxs g ! k)" using gcallsD(2,3) [OF ginvD(2) [OF inv]] k(1) by blast+
  have i: "i \<noteq> gc_next g" using gcallsD(1) [OF ginvD(2) [OF inv] k(1)] by simp
  show ?thesis
    using n k x i
    by (simp add: act client_send_def send_message_on_def on_context_def enqueue_def blank_def Let_def
        client_completes_def note_write_def handle_event_def switch_proceed_def new_call_def run_sender_def
        sender_round_def dequeue_def begin_op_def set_gcall_def sender_proceed_def)
qed

theorem early_send_overlaps_witness:
  "\<exists>g' s ps. gsteps [GSends sample_message, GCompletes True sample_arrival 0, GSends sample_message] sample_logged = (Inr (), g')
    \<and> gx_writes (gc_ctxs g' ! 0) = 2
    \<and> gc_pending g' = ps @ [(s, Stream_write sample_message), (1, Stream_read), (s, Stream_write sample_message)]"
  by (rule early_send_overlaps [OF sample_logged_reach, where t = "[7]"]) (simp_all add: sample_logged_def)

lemma send_while_stuck:
  assumes "gc_ctx g = Some k" and "k < length (gc_ctxs g)" and "gx_running (gc_ctxs g ! k)"
  shows "gsteps (map GSends ms) g = (Inr (), g\<lparr>gc_ctxs := (gc_ctxs g)[k := (gc_ctxs g ! k)\<lparr>gx_msg_q := gx_msg_q (gc_ctxs g ! k) @ ms\<rparr>]\<rparr>)"
  using assms
proof (induction ms arbitrary: g)
  case Nil
  then show ?case by (simp add: act)
next
  case (Cons m ms)
  have "client_send m g = (Inr (), g\<lparr>gc_ctxs := (gc_ctxs g)[k := (gc_ctxs g ! k)\<lparr>gx_msg_q := gx_msg_q (gc_ctxs g ! k) @ [m]\<rparr>]\<rparr>)"
    using Cons.prems by (simp add: client_send_def send_message_on_def on_context_def enqueue_def act Let_def)
  then show ?case using Cons by (simp add: act)
qed

text \<open>
  When a write fails the sender deletes itself and the stream stays marked busy: every message sent on it
  afterwards is accepted and none is ever written, and no operation of the sender is pending any more.
\<close>

theorem failed_write_starves:
  assumes "client_reach g" and n: "n < length (gc_pending g)" "gc_pending g ! n = (s, Stream_write m)"
    and k: "gc_calls g s = Some (MessageSender k)" "gc_ctx g = Some k"
  shows "\<exists>g'. gsteps (GCompletes False a n # map GSends ms) g = (Inr (), g')
    \<and> gx_sent (gc_ctxs g' ! k) = gx_sent (gc_ctxs g ! k) \<and> gx_msg_q (gc_ctxs g' ! k) = gx_msg_q (gc_ctxs g ! k) @ ms
    \<and> s \<notin> fst ` set (gc_pending g') \<and> gc_calls g' s = None"
proof -
  note inv = client_reach_inv [OF assms(1)] and w = without_op_inv [OF client_reach_inv [OF assms(1)] n]
  have len: "k < length (gc_ctxs g)" "gx_sender (gc_ctxs g ! k) = Some s" using gcallsD(5,6) [OF ginvD(2) [OF inv] k(1)] .
  have "s \<in> fst ` set (gc_pending g)" using n by (metis fst_conv image_eqI nth_mem)
  then have run: "gx_running (gc_ctxs g ! k)" using gctxD(4) [OF ginvD(3) [OF inv] len] by simp
  let ?g = "(without_op n g)\<lparr>gc_ctxs := (gc_ctxs g)[k := (gc_ctxs g ! k)\<lparr>gx_writes := gx_writes (gc_ctxs g ! k) - 1\<rparr>],
    gc_calls := (gc_calls g)(s := None)\<rparr>"
  have "client_completes False a n g = (Inr (), ?g)"
    using n k len by (simp add: client_completes_def note_write_def handle_event_def sender_proceed_def
        delete_gcall_def act without_op_def)
  moreover have "gsteps (map GSends ms) ?g = (Inr (), ?g\<lparr>gc_ctxs := (gc_ctxs ?g)[k := (gc_ctxs ?g ! k)
      \<lparr>gx_msg_q := gx_msg_q (gc_ctxs ?g ! k) @ ms\<rparr>]\<rparr>)"
    by (rule send_while_stuck) (use k len run in \<open>simp_all add: without_op_def\<close>)
  ultimately show ?thesis using w(2) len by (simp add: act without_op_def)
qed

theorem failed_write_starves_witness:
  "\<exists>g'. gsteps (GCompletes False sample_arrival 1 # map GSends [sample_message]) sample_writing = (Inr (), g')
    \<and> gx_sent (gc_ctxs g' ! 0) = gx_sent (gc_ctxs sample_writing ! 0)
    \<and> gx_msg_q (gc_ctxs g' ! 0) = gx_msg_q (gc_ctxs sample_writing ! 0) @ [sample_message]
    \<and> (2 :: nat) \<notin> fst ` set (gc_pending g') \<and> gc_calls g' 2 = None"
proof (rule failed_write_starves)
  show "client_reach sample_writing"
    unfolding sample_writing_def by (rule client_steps [OF sample_ready_reach sample_orderly])
  show "1 < length (gc_pending sample_writing)" "gc_pending sample_writing ! 1 = (2, Stream_write sample_message)"
    "gc_calls sample_writing 2 = Some (MessageSender 0)" "gc_ctx sample_writing = Some 0"
    by (simp_all add: sample_writing_def sample_ready_def client_send_def send_message_on_def on_context_def act
        enqueue_def context_new_def Let_def sender_proceed_def run_sender_def sender_round_def dequeue_def begin_op_def)
qed

text \<open>A message sent before the login has answered goes through a null pointer.\<close>

lemma send_before_login: "gc_ctx g = None \<Longrightarrow> client_send m g = (Inl Null_deref, g)"
  by (simp add: client_send_def act)

text \<open>Whoever sent a message, the user is shown an empty id.\<close>

lemma received_from_nobody:
  assumes "n < length (gc_pending g)" "gc_pending g ! n = (i, Stream_read)" "gc_calls g i = Some (SwitchMessagesCall k READING)"
  shows "gc_signals (snd (client_completes True a n g))
    = gc_signals g @ [OnMessageReceived \<lparr>gm_peer = [], gm_bytes = gm_bytes (ga_msg a)\<rparr>]"
  using assms by (simp add: client_completes_other without_op_def handle_event_def switch_proceed_def act
      emit_signal_def begin_op_def)

end
