(* ===== verification/Chat_Window.thy ===== *)
theory Chat_Window
  imports Std_Map Rpc_Client_Facts
begin

text \<open>
  \<^verbatim>\<open>client/MainWindow.cpp\<close> and \<^verbatim>\<open>client/PreferencesDialog.cpp\<close>: the settings and their file, the
  preferences dialog, and the chat operations on the gRPC client. The widgets are the data they
  show: the rows of the table, the list of peers and the selected row. Qt's JSON is a parameter
  (record \<open>json\<close>), its strings are bytes.
\<close>

section \<open>Settings\<close>

type_synonym conf = "(bytes, bytes) std_map"

text \<open>
  \<open>js_parse\<close> gives the members of the object a text is, in key order and their values as strings, and
  \<open>None\<close> when the text is no JSON object; \<open>js_print\<close> is the text of an object.
\<close>

record json =
  js_parse :: "bytes \<Rightarrow> (bytes \<times> bytes) list option"
  js_print :: "(bytes \<times> bytes) list \<Rightarrow> bytes"

definition emplace_all :: "(bytes \<times> bytes) list \<Rightarrow> conf \<Rightarrow> conf" where
  "emplace_all = fold (\<lambda>(k, v). map_insert k v)"

definition default_conf :: "(bytes \<times> bytes) list" where
  "default_conf = [(str ''Server IP'', []), (str ''Server Port'', str ''443''), (str ''Your Name'', str ''Mr. Nobody''),
     (str ''Certificates'', []), (str ''Private Key'', [])]"

definition load_conf :: "(bytes \<times> bytes) list option \<Rightarrow> err + conf" where
  "load_conf doc = (case doc of
     None \<Rightarrow> Inl Aborted
   | Some members \<Rightarrow> Inr (emplace_all default_conf (emplace_all members [])))"

text \<open>The dialog keeps a copy of the settings and shows them in a table; only its second column can be edited.\<close>

record dialog =
  dg_conf :: conf
  dg_rows :: "(bytes \<times> bytes) list"

definition dialog_new :: "conf \<Rightarrow> dialog" where
  "dialog_new c = \<lparr>dg_conf = c, dg_rows = c\<rparr>"

definition edit_row :: "nat \<times> bytes \<Rightarrow> (bytes \<times> bytes) list \<Rightarrow> (bytes \<times> bytes) list" where
  "edit_row = (\<lambda>(i, v) rows. rows[i := (fst (rows ! i), v)])"

definition dialog_accept :: "dialog \<Rightarrow> dialog" where
  "dialog_accept d = d\<lparr>dg_conf := emplace_all (dg_rows d) []\<rparr>"

section \<open>The window\<close>

record window =
  mw_conf :: conf
  mw_file :: bytes
  mw_dialog :: dialog
  mw_model :: "bytes list option"
  mw_row :: int
  mw_client :: gclient

type_synonym 'a window_action = "(window, 'a) action"

text \<open>The constructor with the contents of the file, \<open>None\<close> when it cannot be opened; the client's thread is started.\<close>

definition window_new :: "json \<Rightarrow> bytes option \<Rightarrow> bytes \<Rightarrow> err + window" where
  "window_new js file cred = (case file of
     None \<Rightarrow> Inl Aborted
   | Some text \<Rightarrow> (case load_conf (js_parse js (if text = [] then str ''{}'' else text)) of
       Inl e \<Rightarrow> Inl e
     | Inr c \<Rightarrow> Inr \<lparr>mw_conf = c, mw_file = text, mw_dialog = dialog_new c, mw_model = None, mw_row = -1,
         mw_client = snd (client_run cred gclient_new)\<rparr>))"

text \<open>The text is written over the beginning of the file, which is not cut off.\<close>

definition save_conf :: "json \<Rightarrow> window \<Rightarrow> window" where
  "save_conf js w =
     (let c = dg_conf (mw_dialog w); text = js_print js c
      in w\<lparr>mw_conf := c, mw_file := text @ drop (length text) (mw_file w)\<rparr>)"

text \<open>The user edits rows of the dialog and accepts it, which emits the signal \<^verbatim>\<open>accepted\<close>.\<close>

definition change_settings :: "json \<Rightarrow> (nat \<times> bytes) list \<Rightarrow> window \<Rightarrow> window" where
  "change_settings js edits w =
     (let d = mw_dialog w; d = dialog_accept (d\<lparr>dg_rows := fold edit_row edits (dg_rows d)\<rparr>)
      in save_conf js (w\<lparr>mw_dialog := d\<rparr>))"

definition on_client :: "'a gaction \<Rightarrow> 'a window_action" where
  "on_client m = (\<lambda>w. case m (mw_client w) of (x, g) \<Rightarrow> (x, w\<lparr>mw_client := g\<rparr>))"

definition on_login :: "bytes \<Rightarrow> unit window_action" where
  "on_login token = on_client list_peers"

text \<open>A new model has no current row.\<close>

definition on_list_peers :: "bytes list \<Rightarrow> unit window_action" where
  "on_list_peers peers = modify (\<lambda>w. w\<lparr>mw_model := Some peers, mw_row := -1\<rparr>)"

text \<open>The send button; a missing model and a missing selection fail an assertion.\<close>

definition window_send :: "bytes \<Rightarrow> unit window_action" where
  "window_send text = (\<lambda>w. case mw_model w of
     None \<Rightarrow> (Inl Undefined, w)
   | Some peers \<Rightarrow>
       (if mw_row w < 0 \<or> int (length peers) \<le> mw_row w then (Inl Undefined, w)
        else on_client (client_send \<lparr>gm_peer = peers ! nat (mw_row w), gm_bytes = text\<rparr>) w))"

text \<open>The event loop delivers the next signal of the client; \<^verbatim>\<open>OnMessageReceived\<close> is not connected.\<close>

definition next_signal :: "unit window_action" where
  "next_signal = (\<lambda>w. case gc_signals (mw_client w) of
     [] \<Rightarrow> (Inr (), w)
   | s # ss \<Rightarrow> andthen (modify (\<lambda>w. w\<lparr>mw_client := (mw_client w)\<lparr>gc_signals := ss\<rparr>\<rparr>))
       (case s of
          OnLogin token \<Rightarrow> on_login token
        | OnListPeers peers \<Rightarrow> on_list_peers peers
        | OnMessageReceived m \<Rightarrow> ret ()) w)"

section \<open>Settings survive\<close>

lemma emplace_all_simps [simp]:
  "emplace_all [] m = m"
  "emplace_all ((k, v) # kvs) m = emplace_all kvs (map_insert k v m)"
  by (simp_all add: emplace_all_def)

lemma emplace_induct:
  assumes "\<And>m. P [] m" and "\<And>k v kvs m. P kvs (map_insert k v m) \<Longrightarrow> P ((k, v) # kvs) m"
  shows "P kvs (m :: conf)"
  by (induction kvs arbitrary: m) (use assms in auto)

lemma emplace_all_sorted: "sorted_keys m \<Longrightarrow> sorted_keys (emplace_all kvs m)"
  by (induction kvs arbitrary: m) (auto simp: sorted_map_insert)

lemma emplace_all_keys: "fst ` set (emplace_all kvs m) = fst ` set kvs \<union> fst ` set m"
  by (induction kvs m rule: emplace_induct) (simp_all add: map_insert_keys)

lemma emplace_all_append:
  "sorted_keys (m @ kvs) \<Longrightarrow> emplace_all kvs m = m @ kvs"
proof (induction kvs arbitrary: m)
  case (Cons e kvs)
  obtain k v where e: "e = (k, v)" by (cases e)
  have "\<forall>k' \<in> fst ` set m. k' < k" using Cons.prems by (auto simp: sorted_keys_def e sorted_wrt_append)
  then show ?case using Cons by (simp add: e map_insert_last)
qed simp

lemma emplace_all_present: "sorted_keys m \<Longrightarrow> fst ` set kvs \<subseteq> fst ` set m \<Longrightarrow> emplace_all kvs m = m"
  by (induction kvs m rule: emplace_induct) (simp_all add: map_insert_found)

lemma emplace_same: "sorted_keys kvs \<Longrightarrow> emplace_all kvs [] = kvs"
  using emplace_all_append [of "[]" kvs] by simp

lemma edit_row_keys: "map fst (fold edit_row edits rows) = map fst rows"
proof (induction edits arbitrary: rows)
  case (Cons e edits)
  have "map fst (edit_row e rows) = map fst rows"
    by (cases e) (simp add: edit_row_def map_update, metis list_update_beyond list_update_id length_map linorder_not_less nth_map)
  then show ?case using Cons by simp
qed simp

text \<open>Settings that hold the five default keys in key order load as they are.\<close>

definition settings_ok :: "conf \<Rightarrow> bool" where
  "settings_ok c \<longleftrightarrow> sorted_keys c \<and> fst ` set default_conf \<subseteq> fst ` set c"

lemma load_settings: "settings_ok c \<Longrightarrow> load_conf (Some c) = Inr c"
  by (simp add: load_conf_def settings_ok_def emplace_same emplace_all_present)

lemma loaded_settings: "load_conf doc = Inr c \<Longrightarrow> settings_ok c"
  by (cases doc) (auto simp only: load_conf_def settings_ok_def option.case sum.inject sum.distinct emplace_all_sorted
      emplace_all_keys sorted_keys_Nil)

lemma edited_settings: "settings_ok c \<Longrightarrow> settings_ok (fold edit_row edits c)"
  by (simp add: settings_ok_def sorted_keys_def edit_row_keys flip: set_map)

lemma window_new_settings:
  assumes "window_new js file cred = Inr w"
  shows "settings_ok (mw_conf w)" "mw_dialog w = dialog_new (mw_conf w)"
  using assms loaded_settings by (auto simp: window_new_def split: option.splits sum.splits)

lemma change_settings_conf:
  assumes "settings_ok c" and "mw_dialog w = dialog_new c"
  shows "mw_conf (change_settings js edits w) = fold edit_row edits c"
    "mw_file (change_settings js edits w) = js_print js (fold edit_row edits c)
      @ drop (length (js_print js (fold edit_row edits c))) (mw_file w)"
  using edited_settings [OF assms(1), of edits] assms(2)
  by (simp_all add: change_settings_def save_conf_def dialog_accept_def dialog_new_def Let_def settings_ok_def emplace_same)

definition is_space :: "byte \<Rightarrow> bool" where
  "is_space b \<longleftrightarrow> b \<in> {9, 10, 13, 32}"

text \<open>
  Settings the user has edited in the dialog are the ones of the next start when the new text is not
  shorter than the old file and JSON reads back what it prints. When the rest of the old text that stays in
  the file is more than white space, which JSON does not allow after an object, the next start ends in
  \<^verbatim>\<open>qFatal\<close>.
\<close>

theorem settings_survive_restart:
  assumes start: "window_new js (Some old) cred = Inr w"
    and c: "c = fold edit_row edits (mw_conf w)" and printed: "printed = js_print js c"
    and reads: "js_parse js printed = Some c" "printed \<noteq> []"
    and strict: "\<And>rest. \<not> list_all is_space rest \<Longrightarrow> js_parse js (printed @ rest) = None"
  shows "mw_conf (change_settings js edits w) = c
    \<and> (length old \<le> length printed \<longrightarrow>
        (\<exists>w'. window_new js (Some (mw_file (change_settings js edits w))) cred' = Inr w' \<and> mw_conf w' = c))
    \<and> (\<not> list_all is_space (drop (length printed) old) \<longrightarrow>
        window_new js (Some (mw_file (change_settings js edits w))) cred' = Inl Aborted)"
proof -
  have w: "settings_ok (mw_conf w)" "mw_dialog w = dialog_new (mw_conf w)" using window_new_settings [OF start] .
  have "mw_file w = old" using start by (auto simp: window_new_def split: option.splits sum.splits)
  then have changed: "mw_conf (change_settings js edits w) = c"
      "mw_file (change_settings js edits w) = printed @ drop (length printed) old"
    using change_settings_conf [OF w, of js edits] by (simp_all add: c printed)
  have "load_conf (Some c) = Inr c" using load_settings edited_settings [OF w(1)] c by simp
  then show ?thesis using changed reads strict by (simp add: window_new_def load_conf_def)
qed

text \<open>A printer of members, and a parser of what it prints.\<close>

definition sample_settings :: conf where
  "sample_settings = emplace_all default_conf []"

definition print_members :: "(bytes \<times> bytes) list \<Rightarrow> bytes" where
  "print_members ms = concat (map (\<lambda>(k, v). k @ [58] @ v @ [44]) ms)"

definition sample_json :: json where
  "sample_json = \<lparr>js_parse = (\<lambda>text. if text = str ''{}'' then Some []
      else if text = print_members sample_settings then Some sample_settings else None),
    js_print = print_members\<rparr>"

definition sample_window :: window where
  "sample_window = \<lparr>mw_conf = sample_settings, mw_file = [], mw_dialog = dialog_new sample_settings, mw_model = None,
     mw_row = -1, mw_client = snd (client_run [] gclient_new)\<rparr>"

lemma sample_text: "2 < length (print_members sample_settings)"
  by code_simp

lemma sample_window_new: "window_new sample_json (Some []) [] = Inr sample_window"
  by (simp add: window_new_def sample_json_def load_conf_def sample_window_def sample_settings_def)

theorem settings_survive_restart_witness:
  "mw_conf (change_settings sample_json [] sample_window) = sample_settings
    \<and> (\<exists>w'. window_new sample_json (Some (mw_file (change_settings sample_json [] sample_window))) [] = Inr w'
        \<and> mw_conf w' = sample_settings)"
proof -
  let ?text = "print_members sample_settings"
  have ne: "?text @ rest \<noteq> str ''{}''" for rest
    using sample_text by (auto dest!: arg_cong [of _ _ length])
  have parse: "js_parse sample_json (?text @ rest) = (if rest = [] then Some sample_settings else None)" for rest
    using ne [of rest] by (simp add: sample_json_def)
  have c: "sample_settings = fold edit_row [] (mw_conf sample_window)" "?text = js_print sample_json sample_settings"
    by (simp_all add: sample_window_def sample_json_def)
  have reads: "js_parse sample_json ?text = Some sample_settings" "?text \<noteq> []" using parse [of "[]"] sample_text by auto
  have "js_parse sample_json (?text @ rest) = None" if "\<not> list_all is_space rest" for rest
    using parse [of rest] that by (cases rest) simp_all
  from settings_survive_restart [OF sample_window_new c reads this, of "[]"] show ?thesis by simp
qed

section \<open>Chatting\<close>

text \<open>What happens to a window: an operation of the client completes, or its event loop delivers a signal.\<close>

datatype window_event = Net bool garrival nat | Deliver

fun window_step :: "window_event \<Rightarrow> unit window_action" where
  "window_step (Net ok a n) = on_client (client_completes ok a n)"
| "window_step Deliver = next_signal"

text \<open>
  From the start of the window on: once the login is answered the window asks for the peers with the token
  it was given, and once they arrive it shows exactly them, with no row selected; the message stream is
  requested with the same token.
\<close>

lemma window_shows_peers:
  assumes "window_new js old cred = Inr w" and "ga_status a"
  shows "\<exists>w1. for_each window_step [Net ok a 0, Deliver] w = (Inr (), w1)
    \<and> gc_pending (mw_client w1) = [(1, Stream_start (ga_token a)), (2, List_finish (ga_token a))]
    \<and> (\<forall>ok b. ga_status b \<longrightarrow> (\<exists>w2. for_each window_step [Net ok b 1, Deliver] w1 = (Inr (), w2)
        \<and> mw_model w2 = Some (ga_peers b) \<and> mw_row w2 = -1 \<and> gc_signals (mw_client w2) = []
        \<and> gc_pending (mw_client w2) = [(1, Stream_start (ga_token a))]))"
proof -
  have "mw_client w = snd (client_run cred gclient_new)"
    using assms(1) by (auto simp: window_new_def split: option.splits sum.splits)
  then show ?thesis using assms(2)
    by (simp add: act on_client_def next_signal_def on_login_def on_list_peers_def client_run_def login_def
        client_completes_def note_write_def handle_event_def login_proceed_def list_peer_proceed_def new_call_def
        begin_op_def gclient_new_def start_message_transmitting_def switch_start_def set_gcall_def emit_signal_def
        delete_gcall_def context_new_def list_peers_def)
qed

text \<open>
  Pressing the send button with a peer selected and the stream ready gives the stream exactly one message, for
  that peer and with the text, and the client stays safe; without a list or a selection an assertion fails and
  nothing is sent.
\<close>

theorem window_sends_to_selected:
  assumes "client_reach (mw_client w)" and "orderly (GSends m) (mw_client w)"
    and m: "m = \<lparr>gm_peer = peers ! nat (mw_row w), gm_bytes = text\<rparr>" and "mw_model w = Some peers"
  shows "if 0 \<le> mw_row w \<and> mw_row w < int (length peers)
    then \<exists>g. window_send text w = (Inr (), w\<lparr>mw_client := g\<rparr>) \<and> client_reach g
      \<and> (\<forall>k. said k g = said k (mw_client w) @ (if gc_ctx (mw_client w) = Some k then [m] else []))
    else window_send text w = (Inl Undefined, w)"
proof (cases "0 \<le> mw_row w \<and> mw_row w < int (length peers)")
  case True
  let ?p = "gstep (GSends m) (mw_client w)"
  have "window_send text w = (fst ?p, w\<lparr>mw_client := snd ?p\<rparr>)"
    using True assms(4) by (simp add: window_send_def on_client_def m split: prod.splits)
  moreover have "fst ?p = Inr () \<and> said k (snd ?p) = said k (mw_client w) @ given (GSends m) k (mw_client w)" for k
    using gstep_good [OF client_reach_inv [OF assms(1)] assms(2)] by blast
  ultimately show ?thesis using True client_steps [OF assms(1,2)] by auto
next
  case False
  then show ?thesis using assms(4) by (auto simp: window_send_def)
qed

definition chatting_window :: window where
  "chatting_window = sample_window\<lparr>mw_model := Some [[2]], mw_row := 0, mw_client := sample_ready\<rparr>"

theorem window_sends_to_selected_witness:
  "\<exists>g. window_send [1] chatting_window = (Inr (), chatting_window\<lparr>mw_client := g\<rparr>) \<and> client_reach g
    \<and> said 0 g = [sample_message]"
proof -
  have w: "mw_client chatting_window = sample_ready" "mw_row chatting_window = 0" "mw_model chatting_window = Some [[2]]"
    by (simp_all add: chatting_window_def)
  have s: "said 0 sample_ready = []" "gc_ctx sample_ready = Some 0"
    by (simp_all add: sample_ready_def said_def context_new_def)
  have "sample_message = \<lparr>gm_peer = [[2]] ! nat (mw_row chatting_window), gm_bytes = [1]\<rparr>"
    by (simp add: sample_message_def w)
  from window_sends_to_selected [OF _ _ this w(3)] show ?thesis
    using sample_ready_reach sample_orderly [of sample_message] s by (auto simp: w)
qed

end
