(* ===== verification/Chat_Session.thy ===== *)
theory Chat_Session
  imports Registry_Facts Chat_Window
begin

text \<open>
  The registry server and a window of the client together: what the calls of the client carry to
  the server and what its replies carry back.
\<close>

section \<open>The registry keeps its tokens\<close>

definition keeps_ids :: "registry \<Rightarrow> registry \<Rightarrow> bool" where
  "keeps_ids r r' \<longleftrightarrow>
     (sorted_keys (rg_ids r) \<longrightarrow> sorted_keys (rg_ids r') \<and> (\<forall>t p. map_of (rg_ids r) t = Some p \<longrightarrow> map_of (rg_ids r') t = Some p))
   \<and> (\<forall>p < length (rg_infos r). p < length (rg_infos r') \<and> pi_name (rg_infos r' ! p) = pi_name (rg_infos r ! p))"

lemma keeps_ids_rel: "reflp keeps_ids" "transp keeps_ids"
  by (auto simp: keeps_ids_def reflp_def transp_def)

lemma keeps_same [intro]: "rg_ids r' = rg_ids r \<Longrightarrow> rg_infos r' = rg_infos r \<Longrightarrow> keeps_ids r r'"
  by (simp add: keeps_ids_def)

lemma keeps_info [intro]:
  "\<forall>x. pi_name (f x) = pi_name x \<Longrightarrow> keeps_ids r (r\<lparr>rg_infos := (rg_infos r)[p := f (rg_infos r ! p)]\<rparr>)"
  by (simp add: keeps_ids_def) (metis nth_list_update_eq nth_list_update_neq)

lemma keeps_login:
  "keeps_ids r (r\<lparr>rg_infos := rg_infos r @ [x], rg_ids := map_insert t n (rg_ids r), rg_names := ns\<rparr>)"
  by (auto simp: keeps_ids_def nth_append smap.ok_insert smap.find_insert)

interpretation keeping: registry_frame keeps_ids
proof unfold_locales
  show "moves keeps_ids (set_info_writer p v)" for p v
    by (auto simp: moves_def reg_ops act intro!: keeps_info [where f = "pi_writer_update (\<lambda>_. v)"])
  show "keeps_ids r (r\<lparr>rg_infos := (rg_infos r)[p := (rg_infos r ! p)\<lparr>pi_last_active := now\<rparr>]\<rparr>)" for r p now
    by (rule keeps_info [where f = "pi_last_active_update (\<lambda>_. now)"]) simp
qed (auto simp: moves_def fresh_def reg_ops act keeps_login keeps_ids_rel)

lemma keeps_request: "moves keeps_ids (start_op i op)" "moves keeps_ids new_context"
  by (auto simp: moves_def reg_ops new_context_def act)

lemma keeps_create: "moves keeps_ids (seq (create_instance k) proceed_create)" "moves keeps_ids (proceed_create i)"
  unfolding create_instance_eq proceed_create_def request_data_eq
  by (intro keeping.frame_rules(1-9) keeps_request keeping.frame_status moves_if moves_trans moves_refl keeps_ids_rel)+

lemma keeps_proceed: "moves keeps_ids (proceed_call sha1 now ok i)"
proof -
  have "moves keeps_ids (case cl_status c of
       CREATE \<Rightarrow> proceed_create i
     | RECEIVED_REQUEST \<Rightarrow> andthen (seq (create_instance (cl_kind c)) proceed_create)
         (seq (handle_request sha1 now i) (\<lambda>finished. set_status i (if finished then FINALLIZE else PROCESS)))
     | PROCESS \<Rightarrow> seq (handle_request sha1 now i) (\<lambda>finished. whenever finished (set_status i FINALLIZE))
     | FINALLIZE \<Rightarrow> delete_call i)" for c
    by (cases "cl_status c"; simp only: call_status.case;
        intro moves_andthen keeps_ids_rel keeps_create keeping.frame_request keeping.objects)
  then show ?thesis unfolding proceed_call_def
    by (intro moves_trans moves_if keeps_ids_rel keeping.looks keeping.objects keeps_create)
qed

lemma keeps_complete: "keeps_ids r (snd (complete_op sha1 now ok a n r))"
proof (cases "n < length (rg_pending r)")
  case True
  obtain i op where n: "rg_pending r ! n = (i, op)" by fastforce
  let ?r = "taken ok a n i op r"
  have "keeps_ids r ?r" by (rule keeps_same) (simp_all add: taken_def)
  moreover have "keeps_ids ?r (snd (proceed sha1 now ok i ?r))"
    using moves_state [OF keeps_proceed]
      moves_state [OF keeping.frame_writer(2)] by (simp add: proceed_def)
  ultimately show ?thesis
    using transpD [OF keeps_ids_rel(2)] by (simp add: complete_taken [OF True n])
next
  case False
  then show ?thesis by (simp add: complete_op_def keeps_same)
qed

lemma keeps_completions: "moves keeps_ids (for_each (on_completion sha1) es)"
  by (rule moves_for_each [OF keeps_ids_rel]) (simp add: moves_def on_completion_def keeps_complete)

section \<open>The answers to a login and to a listing\<close>

lemma request_call:
  assumes "reg_inv {} r" and n: "n < length (rg_pending r)" "rg_pending r ! n = (i, Request k)"
  obtains c where "rg_calls r i = Some c" "cl_kind c = k" "cl_status c = RECEIVED_REQUEST" "i < rg_next r"
proof -
  have "(i, Request k) \<in> set (rg_pending r)" using n by (metis nth_mem)
  then have "op_ok r i (Request k)" "i < rg_next r" using op_okD [OF reg_invD(5) [OF assms(1)]] by blast+
  then show ?thesis using that by (auto split: option.splits)
qed

text \<open>A request of a unary call runs its handler after a new call has been set up to wait.\<close>

lemma request_runs:
  fixes a :: arrival
  assumes n: "n < length (rg_pending r)" "rg_pending r ! n = (i, Request k)"
    and c: "rg_calls r i = Some c" "cl_kind c = k" "cl_status c = RECEIVED_REQUEST" "i < rg_next r"
  defines "r1 \<equiv> with_call k (taken True a n i (Request k) r)"
  shows "complete_op sha1 now True a n r = seq (handle_request sha1 now i) (\<lambda>finished.
      set_status i (if finished then FINALLIZE else PROCESS)) r1"
    "rg_calls r1 i = Some (fill a (Request k) c)" "rg_ids r1 = rg_ids r" "rg_infos r1 = rg_infos r"
proof -
  let ?r = "taken True a n i (Request k) r"
  have c': "rg_calls ?r i = Some (fill a (Request k) c)" "i \<noteq> rg_next ?r" using c by (simp_all add: taken_def)
  then show "rg_calls r1 i = Some (fill a (Request k) c)" by (simp add: r1_def with_call_others)
  show "rg_ids r1 = rg_ids r" "rg_infos r1 = rg_infos r" by (simp_all add: r1_def taken_def)
  show "complete_op sha1 now True a n r = seq (handle_request sha1 now i) (\<lambda>finished.
      set_status i (if finished then FINALLIZE else PROCESS)) r1"
    using c c' create_call [of k ?r] by (simp add: complete_taken [OF n] proceed_def proceed_call_def the_call_def act r1_def)
qed

lemma login_answered:
  fixes a :: arrival and sha1 :: "bytes \<Rightarrow> bytes"
  assumes "reg_inv {} r" and n: "n < length (rg_pending r)" "rg_pending r ! n = (i, Request HandleLogin)"
  defines "t \<equiv> access_token sha1 (ar_name a)"
  obtains r' where "complete_op sha1 now True a n r = (Inr (), r')" "(i, Finish (Reply_token t)) \<in> set (rg_pending r')"
    "rg_ids r' = map_insert t (length (rg_infos r)) (rg_ids r)" "rg_infos r' = rg_infos r @ [peer_info_new (ar_name a) now]"
proof -
  obtain c where c: "rg_calls r i = Some c" "cl_kind c = HandleLogin" "cl_status c = RECEIVED_REQUEST" "i < rg_next r"
    using request_call [OF assms(1) n] .
  note run = request_runs(1) [OF n c, of sha1 now a] request_runs(2-4) [OF n c, of a]
  show ?thesis
    by (rule that, simp only: run(1), rule login_state [OF run(2)])
      (use c(2) run(3,4) in \<open>simp_all add: parked_def logged_in_def fill_def t_def\<close>)
qed

lemma list_answered:
  assumes "reg_inv {} r" and n: "n < length (rg_pending r)" "rg_pending r ! n = (i, Request HandleListPeers)"
    and "ar_token a = Some t" and "map_of (rg_ids r) t = Some p"
  obtains r' where "complete_op sha1 now True a n r = (Inr (), r')"
    "(i, Finish (Reply_peers (map (\<lambda>(t, q). pi_name (rg_infos r ! q)) (rg_ids r)))) \<in> set (rg_pending r')"
proof -
  obtain c where c: "rg_calls r i = Some c" "cl_kind c = HandleListPeers" "cl_status c = RECEIVED_REQUEST" "i < rg_next r"
    using request_call [OF assms(1) n] .
  note run = request_runs(1) [OF n c, of sha1 now a] request_runs(2-4) [OF n c, of a]
  show ?thesis
    by (rule that, simp only: run(1), rule list_state [OF run(2)])
      (use c(2) run(3,4) assms(4,5) in \<open>simp_all add: parked_def fill_def GetPeerInfo_def GetAccessToken_def\<close>)
qed

section \<open>Client and server together\<close>

text \<open>What a call of the client is to the server, and a reply of the server to the client.\<close>

definition request_of :: "gop \<Rightarrow> arrival" where
  "request_of op = (let none = \<lparr>ar_token = None, ar_name = [], ar_msg = \<lparr>rm_peer = [], rm_type = 0, rm_content = []\<rparr>\<rparr> in
     case op of
       Login_finish cred \<Rightarrow> none\<lparr>ar_name := cred\<rparr>
     | List_finish token \<Rightarrow> none\<lparr>ar_token := Some token\<rparr>
     | Stream_start token \<Rightarrow> none\<lparr>ar_token := Some token\<rparr>
     | Stream_read \<Rightarrow> none
     | Stream_write m \<Rightarrow> none\<lparr>ar_msg := \<lparr>rm_peer = gm_peer m, rm_type = 0, rm_content = gm_bytes m\<rparr>\<rparr>)"

definition arrival_of :: "reply \<Rightarrow> garrival" where
  "arrival_of x = (let none = \<lparr>ga_status = True, ga_token = [], ga_peers = [], ga_msg = \<lparr>gm_peer = [], gm_bytes = []\<rparr>\<rparr> in
     case x of
       Reply_token t \<Rightarrow> none\<lparr>ga_token := t\<rparr>
     | Reply_time now \<Rightarrow> none
     | Reply_peers names \<Rightarrow> none\<lparr>ga_peers := names\<rparr>
     | Reply_cancelled \<Rightarrow> none\<lparr>ga_status := False\<rparr>)"

text \<open>The answer to a listing with a known token holds the name it was given to.\<close>

lemma listing_contains:
  assumes "reg_inv {} r" and "m < length (rg_pending r)" "rg_pending r ! m = (j, Request HandleListPeers)"
    and p: "map_of (rg_ids r) t = Some p" "pi_name (rg_infos r ! p) = cred"
  obtains r' names where "complete_op sha1 now True (request_of (List_finish t)) m r = (Inr (), r')"
    "(j, Finish (Reply_peers names)) \<in> set (rg_pending r')" "cred \<in> set names"
proof -
  let ?names = "map (\<lambda>(t, q). pi_name (rg_infos r ! q)) (rg_ids r)"
  obtain r' where "complete_op sha1 now True (request_of (List_finish t)) m r = (Inr (), r')"
      "(j, Finish (Reply_peers ?names)) \<in> set (rg_pending r')"
    using list_answered [OF assms(1-3) _ p(1), where a = "request_of (List_finish t)" and ?sha1.0 = sha1 and now = now]
    by (auto simp: request_of_def)
  moreover have "cred \<in> set ?names" using map_of_SomeD [OF p(1)] p(2) by force
  ultimately show ?thesis using that by blast
qed

lemma arrival_fields [simp]:
  "ga_status (arrival_of (Reply_token t))" "ga_token (arrival_of (Reply_token t)) = t"
  "ga_status (arrival_of (Reply_peers names))" "ga_peers (arrival_of (Reply_peers names)) = names"
  by (simp_all add: arrival_of_def Let_def)

text \<open>
  C31: A user logs in at a server that has not given away the token yet: the window is handed the token, asks for
  the peers with it, and whatever calls the server completes in between, the answer to that request makes the
  window show a list in which the user's own name stands.
\<close>

theorem user_sees_himself:
  assumes server: "server_run sha1 es registry_new = (Inr (), r)" and win: "window_new js old cred = Inr w"
    and n: "n < length (rg_pending r)" "rg_pending r ! n = (i, Request HandleLogin)"
    and new: "map_of (rg_ids r) (access_token sha1 cred) = None"
  shows "\<exists>r1 x w1 op. gc_pending (mw_client w) = [(0, Login_finish cred)]
    \<and> complete_op sha1 now True (request_of (Login_finish cred)) n r = (Inr (), r1) \<and> (i, Finish x) \<in> set (rg_pending r1)
    \<and> for_each window_step [Net True (arrival_of x) 0, Deliver] w = (Inr (), w1) \<and> gc_pending (mw_client w1) ! 1 = (2, op)
    \<and> (\<forall>es' r2 m j. for_each (on_completion sha1) es' r1 = (Inr (), r2) \<and> m < length (rg_pending r2)
        \<and> rg_pending r2 ! m = (j, Request HandleListPeers) \<longrightarrow>
      (\<exists>r3 y w2 names. complete_op sha1 later True (request_of op) m r2 = (Inr (), r3) \<and> (j, Finish y) \<in> set (rg_pending r3)
        \<and> for_each window_step [Net True (arrival_of y) 1, Deliver] w1 = (Inr (), w2)
        \<and> mw_model w2 = Some names \<and> cred \<in> set names))"
proof -
  let ?t = "access_token sha1 cred" and ?p = "length (rg_infos r)"
  note inv = server_run_inv [OF server]
  have sorted: "sorted_keys (rg_ids r)" using reg_invD(1) [OF inv] by (simp add: tables_ok_def)
  obtain r1 where r1: "complete_op sha1 now True (request_of (Login_finish cred)) n r = (Inr (), r1)"
      "(i, Finish (Reply_token ?t)) \<in> set (rg_pending r1)" "rg_ids r1 = map_insert ?t ?p (rg_ids r)"
      "rg_infos r1 = rg_infos r @ [peer_info_new cred now]"
    using login_answered [OF inv n, where a = "request_of (Login_finish cred)" and ?sha1.0 = sha1 and now = now] by (auto simp: request_of_def)
  have inv1: "reg_inv {} r1" using complete_op_inv [OF inv] r1(1) by (metis Pair_inject)
  have ids1: "map_of (rg_ids r1) ?t = Some ?p" "sorted_keys (rg_ids r1)" "?p < length (rg_infos r1)"
      "pi_name (rg_infos r1 ! ?p) = cred"
    using sorted new by (simp_all add: r1(3,4) smap.find_insert smap.ok_insert peer_info_new_def)
  obtain w1 where w1: "for_each window_step [Net True (arrival_of (Reply_token ?t)) 0, Deliver] w = (Inr (), w1)"
      "gc_pending (mw_client w1) = [(1, Stream_start ?t), (2, List_finish ?t)]"
      "ga_status b \<Longrightarrow> \<exists>w2. for_each window_step [Net True b 1, Deliver] w1 = (Inr (), w2) \<and> mw_model w2 = Some (ga_peers b)" for b
    using window_shows_peers [OF win arrival_fields(1), of True ?t] unfolding arrival_fields(2) by blast
  have lists: "\<exists>r3 y w2 names. complete_op sha1 later True (request_of (List_finish ?t)) m r2 = (Inr (), r3)
      \<and> (j, Finish y) \<in> set (rg_pending r3) \<and> for_each window_step [Net True (arrival_of y) 1, Deliver] w1 = (Inr (), w2)
      \<and> mw_model w2 = Some names \<and> cred \<in> set names"
    if r2: "for_each (on_completion sha1) es' r1 = (Inr (), r2)" "m < length (rg_pending r2)"
      "rg_pending r2 ! m = (j, Request HandleListPeers)" for es' r2 m j
  proof -
    have inv2: "reg_inv {} r2" using completions_safe [OF inv1, of sha1 es'] r2(1) by auto
    have keeps: "keeps_ids r1 r2" using moves_state [OF keeps_completions, of r1 sha1 es'] r2(1) by simp
    have ids2: "map_of (rg_ids r2) ?t = Some ?p" "pi_name (rg_infos r2 ! ?p) = cred"
      using keeps ids1 unfolding keeps_ids_def by blast+
    obtain r3 names where "complete_op sha1 later True (request_of (List_finish ?t)) m r2 = (Inr (), r3)"
        "(j, Finish (Reply_peers names)) \<in> set (rg_pending r3)" "cred \<in> set names"
      using listing_contains [OF inv2 r2(2,3) ids2] .
    then show ?thesis using w1(3) [OF arrival_fields(3) [of names]] unfolding arrival_fields(4) by blast
  qed
  have "gc_pending (mw_client w) = [(0, Login_finish cred)]"
    using win by (auto simp: window_new_def client_run_def login_started started_def gclient_new_def split: option.splits sum.splits)
  moreover have "gc_pending (mw_client w1) ! 1 = (2, List_finish ?t)" by (simp add: w1(2))
  ultimately show ?thesis using r1(1,2) w1(1) lists by blast
qed

theorem user_sees_himself_witness:
  "\<exists>r1 x w1. complete_op (\<lambda>nm. nm) 5 True (request_of (Login_finish [])) 0 (snd (run_server registry_new)) = (Inr (), r1)
    \<and> (0, Finish x) \<in> set (rg_pending r1)
    \<and> for_each window_step [Net True (arrival_of x) 0, Deliver] sample_window = (Inr (), w1)"
proof -
  let ?r = "snd (run_server registry_new)"
  have run: "server_run (\<lambda>nm. nm) [] registry_new = (Inr (), ?r)" by (simp add: server_run_def act run_server_state)
  have r: "0 < length (rg_pending ?r)" "rg_pending ?r ! 0 = (0, Request HandleLogin)"
      "map_of (rg_ids ?r) (access_token (\<lambda>nm. nm) []) = None"
    by (simp_all add: run_server_state) (simp_all add: registry_new_def)
  from user_sees_himself [OF run sample_window_new r, of 5 0] show ?thesis by blast
qed

section \<open>A message from one user to another\<close>

definition message_arrival :: "rmessage \<Rightarrow> garrival" where
  "message_arrival m = \<lparr>ga_status = True, ga_token = [], ga_peers = [],
     ga_msg = \<lparr>gm_peer = rm_peer m, gm_bytes = rm_content m\<rparr>\<rparr>"

text \<open>An idle sender of the client starts the write at once.\<close>

lemma idle_send_writes:
  assumes "client_reach g" and "gc_ctx g = Some k" and "gx_sender (gc_ctxs g ! k) = Some s" and "\<not> gx_running (gc_ctxs g ! k)"
  obtains g' where "client_send m g = (Inr (), g')" "(s, Stream_write m) \<in> set (gc_pending g')"
  using that client_send_state(1) [OF client_reach_inv [OF assms(1)] assms(2,3), of m] assms(4) by (simp add: moved_def)

text \<open>The registry hands a message for a peer whose writer is idle to that writer's stream at once.\<close>

lemma idle_writer_sends:
  assumes inv: "reg_inv {} r" and n: "n < length (rg_pending r)" "rg_pending r ! n = (i, Read)"
    and c: "rg_calls r i = Some c" "cl_peer c = Some p"
    and q: "map_of (rg_names r) (rm_peer (ar_msg a)) = Some q" "pi_writer (rg_infos r ! q) = Some v"
    and w: "rg_writers r v = Some w" "\<not> wr_running w"
  obtains r' w' where "complete_op sha1 now True a n r = (Inr (), r')" "(v, Write) \<in> set (rg_pending r')"
    "rg_writers r' v = Some w'" "wr_sent w' = wr_sent w @ [(ar_msg a)\<lparr>rm_peer := pi_name (rg_infos r ! p)\<rparr>]"
proof -
  let ?m = "(ar_msg a)\<lparr>rm_peer := pi_name (rg_infos r ! p)\<rparr>"
  have to: "target (d\<lparr>cl_msg := ar_msg a\<rparr>) r = Some v" for d using q by (simp add: target_def)
  obtain d o' r' where d: "rg_calls r i = Some d" "cl_peer d = Some o'" "complete_op sha1 now True a n r = (Inr (), r')"
      "\<exists>w. rg_writers r v = Some w \<and> r' = parked i (d\<lparr>cl_msg := relabelled o' (d\<lparr>cl_msg := ar_msg a\<rparr>) r\<rparr>) Read
         (with_writer v (writer_put (relabelled o' (d\<lparr>cl_msg := ar_msg a\<rparr>) r) w) (\<not> wr_running w) (taken True a n i Read r))"
    by (rule read_passes [OF inv n, of sha1 now a]) (simp only: to option.case)
  have "o' = p" using c d(1,2) by simp
  then have r': "r' = parked i (d\<lparr>cl_msg := ?m\<rparr>) Read (with_writer v (writer_put ?m w) True (taken True a n i Read r))"
    using d(4) w by (auto simp: relabelled_def)
  have "wr_to_write w = []" using reg_invD(3) [OF inv] w by (auto simp: writers_ok_def)
  then have "wr_sent (writer_put ?m w) = wr_sent w @ [?m]" using w(2) by (simp add: writer_put_def)
  then show thesis using that [OF d(3)] by (simp add: r' parked_def with_writer_def)
qed

text \<open>A client that waits for a message hands it to its user.\<close>

lemma waiting_client_receives:
  assumes "client_reach h" and m: "m < length (gc_pending h)" "gc_pending h ! m = (j, Stream_read)"
  obtains h' where "client_completes True a m h = (Inr (), h')"
    "gc_signals h' = gc_signals h @ [OnMessageReceived \<lparr>gm_peer = [], gm_bytes = gm_bytes (ga_msg a)\<rparr>]"
proof -
  note inv = client_reach_inv [OF assms(1)]
  have "(j, Stream_read) \<in> set (gc_pending h)" using m by (metis nth_mem)
  then have "fits (gc_calls h j) Stream_read" using gopsD(2) [OF ginvD(1) [OF inv]] by simp
  then obtain k where "gc_calls h j = Some (SwitchMessagesCall k READING)"
    by (cases "(gc_calls h j, Stream_read)" rule: fits.cases) auto
  from received_from_nobody [OF m this, of a] show thesis
    using client_completes_inv [OF inv, of True m a] that by (cases "client_completes True a m h") (simp add: quiet_step_def)
qed

text \<open>
  C32: A message one user sends to another through the registry reaches the other's client and gets no further: with
  all three idle the client starts a write, the server completes its read of the sender's stream by handing the
  message, relabelled with the sender's name, to the receiver's stream, and the receiver's client emits
  \<^verbatim>\<open>OnMessageReceived\<close> with the same bytes and an empty name. When the event loop of the receiver's window comes to
  this signal, nothing is connected to it: the window is as before, only without the signal, so the user sees nothing.
\<close>

theorem message_arrives:
  assumes server: "server_run sha1 es registry_new = (Inr (), r)"
    and sender: "client_reach g" "gc_ctx g = Some k" "gx_sender (gc_ctxs g ! k) = Some s" "\<not> gx_running (gc_ctxs g ! k)"
    and stream: "n < length (rg_pending r)" "rg_pending r ! n = (i, Read)" "rg_calls r i = Some c" "cl_peer c = Some p"
    and to: "map_of (rg_names r) name = Some q" "pi_writer (rg_infos r ! q) = Some v"
    and idle: "rg_writers r v = Some w" "\<not> wr_running w"
    and receiver: "client_reach (mw_client u)" "m < length (gc_pending (mw_client u))"
      "gc_pending (mw_client u) ! m = (j, Stream_read)"
  shows "\<exists>g' op r' w' h'. client_send \<lparr>gm_peer = name, gm_bytes = data\<rparr> g = (Inr (), g') \<and> (s, op) \<in> set (gc_pending g')
    \<and> complete_op sha1 now True (request_of op) n r = (Inr (), r') \<and> (v, Write) \<in> set (rg_pending r')
    \<and> rg_writers r' v = Some w'
    \<and> wr_sent w' = wr_sent w @ [\<lparr>rm_peer = pi_name (rg_infos r ! p), rm_type = 0, rm_content = data\<rparr>]
    \<and> window_step (Net True (message_arrival (last (wr_sent w'))) m) u = (Inr (), u\<lparr>mw_client := h'\<rparr>)
    \<and> gc_signals h' = gc_signals (mw_client u) @ [OnMessageReceived \<lparr>gm_peer = [], gm_bytes = data\<rparr>]
    \<and> (\<forall>t ss. gc_signals (mw_client t) = OnMessageReceived \<lparr>gm_peer = [], gm_bytes = data\<rparr> # ss \<longrightarrow>
        window_step Deliver t = (Inr (), t\<lparr>mw_client := (mw_client t)\<lparr>gc_signals := ss\<rparr>\<rparr>))"
proof -
  let ?msg = "\<lparr>gm_peer = name, gm_bytes = data\<rparr>"
  let ?sent = "\<lparr>rm_peer = pi_name (rg_infos r ! p), rm_type = 0, rm_content = data\<rparr>"
  have arrives: "ar_msg (request_of (Stream_write ?msg)) = \<lparr>rm_peer = name, rm_type = 0, rm_content = data\<rparr>"
    by (simp add: request_of_def Let_def)
  obtain g' where g': "client_send ?msg g = (Inr (), g')" "(s, Stream_write ?msg) \<in> set (gc_pending g')"
    using idle_send_writes [OF sender, of ?msg] .
  obtain r' w' where r': "complete_op sha1 now True (request_of (Stream_write ?msg)) n r = (Inr (), r')"
      "(v, Write) \<in> set (rg_pending r')" "rg_writers r' v = Some w'" "wr_sent w' = wr_sent w @ [?sent]"
    using idle_writer_sends [OF server_run_inv [OF server] stream _ to(2) idle, of "request_of (Stream_write ?msg)" sha1 now]
      to(1) unfolding arrives by auto
  obtain h' where "client_completes True (message_arrival (last (wr_sent w'))) m (mw_client u) = (Inr (), h')"
      and h': "gc_signals h' = gc_signals (mw_client u) @ [OnMessageReceived \<lparr>gm_peer = [], gm_bytes = data\<rparr>]"
    using waiting_client_receives [OF receiver, of "message_arrival (last (wr_sent w'))"] r'(4)
    by (auto simp: message_arrival_def)
  then have "window_step (Net True (message_arrival (last (wr_sent w'))) m) u = (Inr (), u\<lparr>mw_client := h'\<rparr>)"
    by (simp add: on_client_def)
  moreover have "window_step Deliver t = (Inr (), t\<lparr>mw_client := (mw_client t)\<lparr>gc_signals := ss\<rparr>\<rparr>)"
    if "gc_signals (mw_client t) = OnMessageReceived \<lparr>gm_peer = [], gm_bytes = data\<rparr> # ss" for t ss
    using that by (simp add: next_signal_def act)
  ultimately show ?thesis using g' r' h' by blast
qed

theorem message_arrives_witness:
  "\<exists>r' w' h'. complete_op (\<lambda>nm. nm) 5 True (request_of (Stream_write \<lparr>gm_peer = [97], gm_bytes = [1, 2]\<rparr>)) 4 (sample_state 2) = (Inr (), r')
    \<and> rg_writers r' 5 = Some w'
    \<and> window_step (Net True (message_arrival (last (wr_sent w'))) 0) chatting_window = (Inr (), chatting_window\<lparr>mw_client := h'\<rparr>)
    \<and> gc_signals h' = [OnLogin [7], OnMessageReceived \<lparr>gm_peer = [], gm_bytes = [1, 2]\<rparr>]"
proof -
  let ?r = "sample_state 2"
  have n: "4 < length (rg_pending ?r)" "rg_pending ?r ! 4 = (2, Read)" by (simp_all add: sample_two)
  obtain c p r' where c: "rg_calls ?r 2 = Some c" "cl_peer c = Some p"
    using read_passes [OF server_run_inv [OF sample_state_run] n, where ?sha1.0 = "\<lambda>nm. nm" and now = 5] by metis
  obtain w where w: "rg_writers ?r 5 = Some w" "\<not> wr_running w" using sample_two_more(2) by auto
  have to: "map_of (rg_names ?r) [97] = Some 0" "pi_writer (rg_infos ?r ! 0) = Some 5"
    by (simp_all add: sample_two sample_infos)
  have g: "gc_ctx sample_ready = Some 0" "gx_sender (gc_ctxs sample_ready ! 0) = Some 2"
      "\<not> gx_running (gc_ctxs sample_ready ! 0)" "0 < length (gc_pending sample_ready)"
      "gc_pending sample_ready ! 0 = (1, Stream_read)" "gc_signals sample_ready = [OnLogin [7]]"
    by (simp_all add: sample_ready_def context_new_def)
  have u: "mw_client chatting_window = sample_ready" by (simp add: chatting_window_def)
  obtain g' op r' w' h' where run: "client_send \<lparr>gm_peer = [97], gm_bytes = [1, 2]\<rparr> sample_ready = (Inr (), g')"
      "(2, op) \<in> set (gc_pending g')" "complete_op (\<lambda>nm. nm) 5 True (request_of op) 4 ?r = (Inr (), r')"
      "rg_writers r' 5 = Some w'"
      "window_step (Net True (message_arrival (last (wr_sent w'))) 0) chatting_window = (Inr (), chatting_window\<lparr>mw_client := h'\<rparr>)"
      "gc_signals h' = gc_signals sample_ready @ [OnMessageReceived \<lparr>gm_peer = [], gm_bytes = [1, 2]\<rparr>]"
    using message_arrives [OF sample_state_run sample_ready_reach g(1-3) n c to w, of chatting_window 0 1 "[1, 2]" 5]
      sample_ready_reach g(4,5) unfolding u by blast
  then have "op = Stream_write \<lparr>gm_peer = [97], gm_bytes = [1, 2]\<rparr>"
    by (auto simp: sample_ready_def client_send_def send_message_on_def on_context_def act enqueue_def context_new_def
        Let_def sender_proceed_def run_sender_def sender_round_def dequeue_def begin_op_def)
  then show ?thesis using run g(6) by auto
qed

end
