(* ===== verification/Web_Socket.thy ===== *)
theory Web_Socket
  imports Wire_Message
begin

text \<open>
  \<^verbatim>\<open>ws/WebSocket.cpp\<close>: the web socket server. Every session is a coroutine that waits for one
  operation of its socket at a time; what it waits for is its stage, and the completion of that
  operation runs the coroutine to its next wait. Sessions are objects in a store, their table is
  a partial function from endpoints to weak pointers (\<open>None\<close> is the empty pointer). The pointer an object
  has to itself through \<^verbatim>\<open>std::enable_shared_from_this\<close> is a member like the others: empty while the
  constructor runs and set by \<^verbatim>\<open>std::make_shared\<close> when it is done.
\<close>

section \<open>Data\<close>

text \<open>The endpoints of Boost.Asio; \<^verbatim>\<open>to_v4\<close> of an IPv6 address throws.\<close>

datatype tcp_endpoint = V4 u32 u16 | V6 "128 word" u16

definition hash_endpoint :: "tcp_endpoint \<Rightarrow> err + nat" where
  "hash_endpoint e = (case e of V4 ip port \<Rightarrow> Inr (unat ip) | V6 ip port \<Rightarrow> Inl Std_runtime_error)"

text \<open>The waits of \<^verbatim>\<open>do_session\<close>: for the handshake, for a message, for the write of a reply with the messages still to handle.\<close>

datatype ws_stage = Accepting | Receiving | Replying "wire_message list"

record ws_session =
  we_self :: "nat option"
  we_endp :: tcp_endpoint
  we_ctx :: bytes
  we_stage :: ws_stage
  we_written :: "bytes list"

record ws_server =
  wv_table :: "tcp_endpoint \<rightharpoonup> nat option"
  wv_store :: "nat \<rightharpoonup> ws_session"
  wv_next :: nat

definition ws_server_new :: ws_server where
  "ws_server_new = \<lparr>wv_table = Map.empty, wv_store = Map.empty, wv_next = 0\<rparr>"

section \<open>Answers\<close>

definition handle_pong :: "wire_message \<Rightarrow> wire_message" where
  "handle_pong m = create_message PONG []"

text \<open>The list of peers is built from the table and dropped.\<close>

definition handle_list_peers_ws :: "wire_message \<Rightarrow> wire_message" where
  "handle_list_peers_ws m = create_message PONG []"

text \<open>The other handlers end without returning their message, which is undefined behaviour; the first is never called.\<close>

definition handle_connect_ws :: "wire_message \<Rightarrow> err + wire_message" where
  "handle_connect_ws m = Inl Undefined"

definition handle_send_msg_ws :: "wire_message \<Rightarrow> err + wire_message" where
  "handle_send_msg_ws m = Inl Undefined"

definition handle_want_to_connect_ws :: "wire_message \<Rightarrow> err + wire_message" where
  "handle_want_to_connect_ws m = Inl Undefined"

lemmas no_return [simp] = handle_connect_ws_def handle_send_msg_ws_def handle_want_to_connect_ws_def

definition ws_reply :: "wire_message \<Rightarrow> err + wire_message" where
  "ws_reply m = (case wm_type m of
     NOP \<Rightarrow> Inr wire_message_new
   | PONG \<Rightarrow> Inr (handle_pong m)
   | LIST_PEERS \<Rightarrow> Inr (handle_list_peers_ws m)
   | SEND_MSG \<Rightarrow> handle_send_msg_ws m
   | WANT_TO_CONNECT \<Rightarrow> handle_want_to_connect_ws m
   | _ \<Rightarrow> Inr wire_message_new)"

section \<open>The coroutine of a session\<close>

text \<open>
  The inner loop of \<^verbatim>\<open>do_session\<close>: the next message is answered, or the endpoint is printed, which
  throws when the peer is gone (\<open>remote\<close> is \<open>None\<close>), and the next message is awaited.
\<close>

definition handle_rest :: "codec \<Rightarrow> tcp_endpoint option \<Rightarrow> wire_message list \<Rightarrow> (ws_session, unit) action" where
  "handle_rest cd remote msgs = (case msgs of
     [] \<Rightarrow> (case remote of
       None \<Rightarrow> throw Std_runtime_error
     | Some e \<Rightarrow> modify (\<lambda>s. s\<lparr>we_stage := Receiving\<rparr>))
   | m # ms \<Rightarrow> seq (lift (ws_reply m)) (\<lambda>reply.
       modify (\<lambda>s. s\<lparr>we_written := we_written s @ [cd_pack cd reply], we_stage := Replying ms\<rparr>)))"

definition session_received :: "codec \<Rightarrow> tcp_endpoint option \<Rightarrow> bytes \<Rightarrow> (ws_session, unit) action" where
  "session_received cd remote data =
     seq (\<lambda>s. case feed cd data (we_ctx s) of (x, c) \<Rightarrow> (x, s\<lparr>we_ctx := c\<rparr>)) (handle_rest cd remote)"

definition session_replied :: "codec \<Rightarrow> tcp_endpoint option \<Rightarrow> (ws_session, unit) action" where
  "session_replied cd remote = (\<lambda>s. case we_stage s of
     Replying ms \<Rightarrow> handle_rest cd remote ms s
   | _ \<Rightarrow> (Inr (), s))"

section \<open>The server\<close>

type_synonym 'a ws_action = "(ws_server, 'a) action"

text \<open>
  \<^verbatim>\<open>weak_from_this\<close> and \<^verbatim>\<open>shared_from_this\<close> read the object's pointer to itself; the second throws when it
  is empty. \<^verbatim>\<open>emplace\<close> keeps an entry that is there.
\<close>

definition weak_from_this :: "nat \<Rightarrow> ws_server \<Rightarrow> nat option" where
  "weak_from_this i v = (case wv_store v i of None \<Rightarrow> None | Some s \<Rightarrow> we_self s)"

definition shared_from_this :: "nat \<Rightarrow> nat ws_action" where
  "shared_from_this i = (\<lambda>v. case weak_from_this i v of
     None \<Rightarrow> (Inl Std_runtime_error, v)
   | Some j \<Rightarrow> (Inr j, v))"

definition table_emplace :: "tcp_endpoint \<Rightarrow> nat option \<Rightarrow> unit ws_action" where
  "table_emplace e w = (case hash_endpoint e of
     Inl x \<Rightarrow> throw x
   | Inr _ \<Rightarrow> modify (\<lambda>v. v\<lparr>wv_table := (if wv_table v e = None then (wv_table v)(e \<mapsto> w) else wv_table v)\<rparr>))"

text \<open>
  The constructor reads the remote endpoint, which fails when the peer is gone, and enters the object under
  it. It is \<^verbatim>\<open>noexcept\<close>: an exception in it ends the process.
\<close>

definition ws_construct :: "nat \<Rightarrow> tcp_endpoint option \<Rightarrow> unit ws_action" where
  "ws_construct i remote = (\<lambda>v. case remote of
     None \<Rightarrow> (Inl Aborted, v)
   | Some e \<Rightarrow> (let u = v\<lparr>wv_store := (wv_store v)(i \<mapsto>
          \<lparr>we_self = None, we_endp = e, we_ctx = [], we_stage = Accepting, we_written = []\<rparr>)\<rparr>
       in case table_emplace e (weak_from_this i u) u of
         (Inl _, _) \<Rightarrow> (Inl Aborted, v)
       | r \<Rightarrow> r))"

text \<open>\<^verbatim>\<open>std::make_shared\<close> constructs the object and then lets its pointer to itself point at it.\<close>

definition ws_make_shared :: "tcp_endpoint option \<Rightarrow> nat ws_action" where
  "ws_make_shared remote = (\<lambda>v. let i = wv_next v in
     seq (ws_construct i remote) (\<lambda>_.
     seq (modify (\<lambda>v. v\<lparr>wv_store := (wv_store v)(i := map_option (\<lambda>s. s\<lparr>we_self := Some i\<rparr>) (wv_store v i)),
       wv_next := Suc i\<rparr>)) (\<lambda>_. ret i)) v)"

text \<open>A connection is accepted; the new coroutine first takes a shared pointer to its session.\<close>

definition ws_accept :: "bool \<Rightarrow> tcp_endpoint option \<Rightarrow> unit ws_action" where
  "ws_accept failed remote = whenever (\<not> failed)
     (seq (ws_make_shared remote) (\<lambda>i. seq (shared_from_this i) (\<lambda>_. ret ())))"

lemma ws_accept_eval:
  "ws_accept failed remote v =
    (if failed then (Inr (), v)
     else case remote of
       None \<Rightarrow> (Inl Aborted, v)
     | Some e \<Rightarrow> (case hash_endpoint e of
         Inl _ \<Rightarrow> (Inl Aborted, v)
       | Inr _ \<Rightarrow> (Inr (), v\<lparr>
           wv_table := (if wv_table v e = None then (wv_table v)(e \<mapsto> None) else wv_table v),
           wv_store := (wv_store v)(wv_next v \<mapsto>
             \<lparr>we_self = Some (wv_next v), we_endp = e, we_ctx = [], we_stage = Accepting, we_written = []\<rparr>),
           wv_next := Suc (wv_next v)\<rparr>)))"
  by (cases remote; cases "hash_endpoint (the remote)")
    (simp_all add: ws_accept_def ws_make_shared_def ws_construct_def table_emplace_def weak_from_this_def
      shared_from_this_def act Let_def)

text \<open>
  \<^verbatim>\<open>do_listen\<close>: the acceptor is set up in four calls, the first that fails is reported and ends the
  coroutine; then connections are accepted for ever. \<open>failed\<close> says which calls fail, the list has the
  outcomes of the accepts so far.
\<close>

datatype listen_call = Open | Set_option | Bind | Listen

definition listen_setup :: "(listen_call \<Rightarrow> bool) \<Rightarrow> listen_call option" where
  "listen_setup failed =
     (if failed Open then Some Open
      else if failed Set_option then Some Set_option
      else if failed Bind then Some Bind
      else if failed Listen then Some Listen
      else None)"

definition do_listen :: "(listen_call \<Rightarrow> bool) \<Rightarrow> (bool \<times> tcp_endpoint option) list \<Rightarrow> unit ws_action" where
  "do_listen failed accepts = (case listen_setup failed of
     Some c \<Rightarrow> ret ()
   | None \<Rightarrow> for_each (\<lambda>(ec, remote). ws_accept ec remote) accepts)"

text \<open>The coroutine ends and the destructor runs.\<close>

definition ws_finish :: "nat \<Rightarrow> ws_server \<Rightarrow> ws_server" where
  "ws_finish i v = (case wv_store v i of
     None \<Rightarrow> v
   | Some s \<Rightarrow> v\<lparr>wv_table := (wv_table v)(we_endp s := None), wv_store := (wv_store v)(i := None)\<rparr>)"

definition on_ws :: "nat \<Rightarrow> (ws_session, unit) action \<Rightarrow> unit ws_action" where
  "on_ws i m = (\<lambda>v. case wv_store v i of
     None \<Rightarrow> (Inr (), v)
   | Some s \<Rightarrow> (case m s of (x, s') \<Rightarrow> (x, v\<lparr>wv_store := (wv_store v)(i \<mapsto> s')\<rparr>)))"

definition ws_stage_of :: "nat \<Rightarrow> ws_server \<Rightarrow> ws_stage option" where
  "ws_stage_of i v = map_option we_stage (wv_store v i)"

text \<open>The completions of the handshake, of a read and of a write.\<close>

definition ws_handshaken :: "bool \<Rightarrow> nat \<Rightarrow> unit ws_action" where
  "ws_handshaken failed i = (\<lambda>v.
     if ws_stage_of i v \<noteq> Some Accepting then (Inr (), v)
     else if failed then (Inr (), ws_finish i v)
     else on_ws i (modify (\<lambda>s. s\<lparr>we_stage := Receiving\<rparr>)) v)"

text \<open>\<open>None\<close>: the peer closed the session, or the read failed.\<close>

definition ws_received :: "codec \<Rightarrow> tcp_endpoint option \<Rightarrow> bytes option \<Rightarrow> nat \<Rightarrow> unit ws_action" where
  "ws_received cd remote got i = (\<lambda>v.
     if ws_stage_of i v \<noteq> Some Receiving then (Inr (), v)
     else (case got of
       None \<Rightarrow> (Inr (), ws_finish i v)
     | Some data \<Rightarrow> on_ws i (session_received cd remote data) v))"

definition ws_replied :: "codec \<Rightarrow> tcp_endpoint option \<Rightarrow> bool \<Rightarrow> nat \<Rightarrow> unit ws_action" where
  "ws_replied cd remote failed i = (\<lambda>v. case ws_stage_of i v of
     Some (Replying ms) \<Rightarrow> (if failed then (Inr (), ws_finish i v) else on_ws i (session_replied cd remote) v)
   | _ \<Rightarrow> (Inr (), v))"

section \<open>A session answers every message\<close>

text \<open>The peer sends the chunks one after the other, each after the replies to the one before.\<close>

definition serve_chunk :: "codec \<Rightarrow> tcp_endpoint \<Rightarrow> bytes \<Rightarrow> (ws_session, unit) action" where
  "serve_chunk cd e data = andthen (session_received cd (Some e) data)
     (\<lambda>s. case we_stage s of
        Replying ms \<Rightarrow> for_each (\<lambda>_. session_replied cd (Some e)) (replicate (Suc (length ms)) ()) s
      | _ \<Rightarrow> (Inr (), s))"

definition answer :: "wire_message \<Rightarrow> wire_message" where
  "answer m = (case ws_reply m of Inl e \<Rightarrow> wire_message_new | Inr r \<Rightarrow> r)"

definition answerable :: "wire_message \<Rightarrow> bool" where
  "answerable m \<longleftrightarrow> wm_type m \<noteq> SEND_MSG \<and> wm_type m \<noteq> WANT_TO_CONNECT"

lemma ws_reply_answer: "answerable m \<Longrightarrow> ws_reply m = Inr (answer m)"
  by (cases "wm_type m") (simp_all add: answerable_def answer_def ws_reply_def)

lemma ws_reply_unanswerable: "\<not> answerable m \<Longrightarrow> ws_reply m = Inl Undefined"
  by (cases "wm_type m") (simp_all add: answerable_def ws_reply_def)

lemma replies_run:
  assumes "\<forall>m\<in>set ms. answerable m" and "we_stage s = Replying ms"
  shows "for_each (\<lambda>_. session_replied cd (Some e)) (replicate (Suc (length ms)) ()) s
    = (Inr (), s\<lparr>we_written := we_written s @ map (\<lambda>m. cd_pack cd (answer m)) ms, we_stage := Receiving\<rparr>)"
  using assms
proof (induction ms arbitrary: s)
  case Nil
  then show ?case by (simp add: act session_replied_def handle_rest_def)
next
  case (Cons m ms)
  let ?s = "s\<lparr>we_written := we_written s @ [cd_pack cd (answer m)], we_stage := Replying ms\<rparr>"
  have "session_replied cd (Some e) s = (Inr (), ?s)"
    using Cons.prems by (simp add: session_replied_def handle_rest_def act ws_reply_answer)
  then show ?case using Cons.IH [of ?s] Cons.prems by (simp add: act)
qed

lemma serve_chunk_run:
  assumes "\<forall>m\<in>set ms. answerable m" and "feed cd data (we_ctx s) = (Inr ms, c)"
  shows "serve_chunk cd e data s
    = (Inr (), s\<lparr>we_ctx := c, we_written := we_written s @ map (\<lambda>m. cd_pack cd (answer m)) ms, we_stage := Receiving\<rparr>)"
proof (cases ms)
  case Nil
  then show ?thesis using assms(2)
    by (simp add: serve_chunk_def session_received_def act handle_rest_def)
next
  case (Cons m ns)
  let ?s = "s\<lparr>we_ctx := c, we_written := we_written s @ [cd_pack cd (answer m)], we_stage := Replying ns\<rparr>"
  have "session_received cd (Some e) data s = (Inr (), ?s)"
    using assms Cons by (simp add: session_received_def act handle_rest_def ws_reply_answer)
  then show ?thesis using replies_run [of ns ?s cd e] assms(1) Cons
    by (simp add: serve_chunk_def act del: for_each.simps replicate_Suc)
qed

lemma serve_chunks:
  assumes "feed_all cd chunks (we_ctx s) = (Inr ms, c)" and "\<forall>m\<in>set ms. answerable m" and "we_stage s = Receiving"
  shows "for_each (serve_chunk cd e) chunks s
    = (Inr (), s\<lparr>we_ctx := c, we_written := we_written s @ map (\<lambda>m. cd_pack cd (answer m)) ms\<rparr>)"
  using assms
proof (induction chunks arbitrary: s ms)
  case Nil
  then show ?case by (simp add: act)
next
  case (Cons d ds)
  obtain ks b where f: "feed cd d (we_ctx s) = (Inr ks, b)"
    using Cons.prems(1) by (auto simp: act split: prod.splits sum.splits)
  obtain ls where l: "feed_all cd ds b = (Inr ls, c)" "ms = ks @ ls"
    using Cons.prems(1) f by (auto simp: act split: prod.splits sum.splits)
  let ?s = "s\<lparr>we_ctx := b, we_written := we_written s @ map (\<lambda>m. cd_pack cd (answer m)) ks, we_stage := Receiving\<rparr>"
  have "serve_chunk cd e d s = (Inr (), ?s)"
    using Cons.prems(2) l(2) by (intro serve_chunk_run [OF _ f]) simp
  then show ?case using Cons.IH [of ?s ls] Cons.prems l by (simp add: act)
qed

text \<open>A message without an answer ends the run after the answers to the messages before it.\<close>

lemma replies_stop:
  assumes "\<forall>m\<in>set ms. answerable m" and "\<not> answerable m" and "we_stage s = Replying (ms @ m # rest)"
    and "length ms < n"
  shows "\<exists>s'. for_each (\<lambda>_. session_replied cd (Some e)) (replicate n ()) s = (Inl Undefined, s')
    \<and> we_written s' = we_written s @ map (\<lambda>m. cd_pack cd (answer m)) ms"
  using assms
proof (induction ms arbitrary: s n)
  case Nil
  then show ?case
    by (cases n) (auto simp: act session_replied_def handle_rest_def ws_reply_unanswerable)
next
  case (Cons k ms)
  let ?s = "s\<lparr>we_written := we_written s @ [cd_pack cd (answer k)], we_stage := Replying (ms @ m # rest)\<rparr>"
  have k: "session_replied cd (Some e) s = (Inr (), ?s)"
    using Cons.prems by (simp add: session_replied_def handle_rest_def act ws_reply_answer)
  obtain n' where n: "n = Suc n'" "length ms < n'" using Cons.prems(4) by (cases n) simp_all
  show ?case using Cons.IH [of ?s n'] Cons.prems n k by (simp add: act)
qed

lemma serve_chunk_stops:
  assumes "\<forall>m\<in>set ms. answerable m" and "\<not> answerable m" and "feed cd data (we_ctx s) = (Inr (ms @ m # rest), c)"
  shows "\<exists>s'. serve_chunk cd e data s = (Inl Undefined, s')
    \<and> we_written s' = we_written s @ map (\<lambda>m. cd_pack cd (answer m)) ms"
proof (cases ms)
  case Nil
  then show ?thesis using assms
    by (simp add: serve_chunk_def session_received_def act handle_rest_def ws_reply_unanswerable)
next
  case (Cons k ks)
  let ?s = "s\<lparr>we_ctx := c, we_written := we_written s @ [cd_pack cd (answer k)], we_stage := Replying (ks @ m # rest)\<rparr>"
  have "session_received cd (Some e) data s = (Inr (), ?s)"
    using assms Cons by (simp add: session_received_def act handle_rest_def ws_reply_answer)
  then show ?thesis
    using replies_stop [of ks m ?s rest "Suc (length (ks @ m # rest))" cd e] assms(1,2) Cons
    by (simp add: serve_chunk_def act del: for_each.simps replicate_Suc)
qed

lemma serve_chunks_stop:
  assumes "feed_all cd chunks (we_ctx s) = (Inr (ms @ m # rest), c)" and "\<forall>m\<in>set ms. answerable m"
    and "\<not> answerable m" and "we_stage s = Receiving"
  shows "\<exists>s'. for_each (serve_chunk cd e) chunks s = (Inl Undefined, s')
    \<and> we_written s' = we_written s @ map (\<lambda>m. cd_pack cd (answer m)) ms"
  using assms
proof (induction chunks arbitrary: s ms)
  case Nil
  then show ?case by (simp add: act)
next
  case (Cons d ds)
  obtain ks b where f: "feed cd d (we_ctx s) = (Inr ks, b)"
    using Cons.prems(1) by (auto simp: act split: prod.splits sum.splits)
  obtain ls where l: "feed_all cd ds b = (Inr ls, c)" "ms @ m # rest = ks @ ls"
    using Cons.prems(1) f by (auto simp: act split: prod.splits sum.splits)
  from l(2) consider (within) k where "ks = ms @ m # k" | (later) ns where "ms = ks @ ns" "ls = ns @ m # rest"
    by (fastforce simp: append_eq_append_conv2 Cons_eq_append_conv)
  then show ?case
  proof cases
    case within
    obtain s' where "serve_chunk cd e d s = (Inl Undefined, s')"
      "we_written s' = we_written s @ map (\<lambda>m. cd_pack cd (answer m)) ms"
      using serve_chunk_stops [OF Cons.prems(2,3) f [unfolded within]] by blast
    then show ?thesis by (simp add: act)
  next
    case later
    let ?s = "s\<lparr>we_ctx := b, we_written := we_written s @ map (\<lambda>m. cd_pack cd (answer m)) ks, we_stage := Receiving\<rparr>"
    have "serve_chunk cd e d s = (Inr (), ?s)"
      using Cons.prems(2) later(1) by (intro serve_chunk_run [OF _ f]) simp
    then show ?thesis using Cons.IH [of ?s ns] Cons.prems(2,3) l(1) later by (simp add: act)
  qed
qed

text \<open>
  C33: However the messages of a peer are cut into web socket messages, as long as the connection lasts and no write
  fails, a session answers every message of a kind it has an answer for (not \<^verbatim>\<open>SEND_MSG\<close> and \<^verbatim>\<open>WANT_TO_CONNECT\<close>) with exactly one message, in order, and when all
  of them have one it waits for more with nothing left in its decoder. At the first message of one of those
  two kinds, whatever follows it, its run ends in undefined behaviour: the messages before it have been answered, it and
  the later ones have not.
\<close>

theorem ws_answers_in_order:
  assumes "\<forall>m\<in>set ms. framed cd m \<and> answerable m" and "we_stage s = Receiving" and "we_ctx s = []"
  shows "(concat chunks = packed cd ms \<longrightarrow> for_each (serve_chunk cd e) chunks s
      = (Inr (), s\<lparr>we_written := we_written s @ map (\<lambda>m. cd_pack cd (answer m)) ms\<rparr>))
    \<and> (\<forall>m rest. (\<forall>k\<in>set (m # rest). framed cd k) \<and> \<not> answerable m \<and> concat chunks = packed cd (ms @ m # rest) \<longrightarrow>
      (\<exists>s'. for_each (serve_chunk cd e) chunks s = (Inl Undefined, s')
        \<and> we_written s' = we_written s @ map (\<lambda>m. cd_pack cd (answer m)) ms))"
proof (intro conjI allI impI)
  assume "concat chunks = packed cd ms"
  then have "feed_all cd chunks (we_ctx s) = (Inr ms, [])" using feed_chunks [of ms cd chunks] assms by simp
  then show "for_each (serve_chunk cd e) chunks s
      = (Inr (), s\<lparr>we_written := we_written s @ map (\<lambda>m. cd_pack cd (answer m)) ms\<rparr>)"
    using serve_chunks [of cd chunks s ms "[]" e] assms by simp
next
  fix m rest
  assume m: "(\<forall>k\<in>set (m # rest). framed cd k) \<and> \<not> answerable m \<and> concat chunks = packed cd (ms @ m # rest)"
  then have "feed_all cd chunks (we_ctx s) = (Inr (ms @ m # rest), [])"
    using feed_chunks [of "ms @ m # rest" cd chunks] assms by auto
  then show "\<exists>s'. for_each (serve_chunk cd e) chunks s = (Inl Undefined, s')
      \<and> we_written s' = we_written s @ map (\<lambda>m. cd_pack cd (answer m)) ms"
    using serve_chunks_stop [of cd chunks s ms m rest "[]" e] m assms by blast
qed

text \<open>A codec of messages without content, one byte each.\<close>

definition kind_codec :: codec where
  "kind_codec = \<lparr>
     cd_pack = (\<lambda>m. [if wm_type m = SEND_MSG then 1 else 0]),
     cd_unpack = (\<lambda>buf. case buf of [] \<Rightarrow> Incomplete
       | b # bs \<Rightarrow> Object (create_message (if b = 1 then SEND_MSG else NOP) []) 0),
     cd_json = (\<lambda>_. [])\<rparr>"

lemma kind_framed: "framed kind_codec (create_message NOP [])" "framed kind_codec (create_message SEND_MSG [])"
  by (auto simp: framed_def kind_codec_def create_message_def take_Cons')

theorem ws_answers_in_order_witness:
  "for_each (serve_chunk kind_codec (V4 1 2)) [[0], [0]]
      \<lparr>we_self = Some 0, we_endp = V4 1 2, we_ctx = [], we_stage = Receiving, we_written = []\<rparr>
    = (Inr (), \<lparr>we_self = Some 0, we_endp = V4 1 2, we_ctx = [], we_stage = Receiving, we_written = [[0], [0]]\<rparr>)
  \<and> (\<exists>s'. for_each (serve_chunk kind_codec (V4 1 2)) [[0, 1], [0]]
      \<lparr>we_self = Some 0, we_endp = V4 1 2, we_ctx = [], we_stage = Receiving, we_written = []\<rparr>
    = (Inl Undefined, s') \<and> we_written s' = [[0]])"
proof -
  let ?s = "\<lparr>we_self = Some 0, we_endp = V4 1 2, we_ctx = [], we_stage = Receiving, we_written = []\<rparr>"
  let ?n = "create_message NOP []" and ?d = "create_message SEND_MSG []"
  have k: "answerable ?n" "\<not> answerable ?d" "cd_pack kind_codec ?n = [0]" "cd_pack kind_codec ?d = [1]"
    "cd_pack kind_codec (answer ?n) = [0]"
    by (simp_all add: answerable_def answer_def ws_reply_def kind_codec_def create_message_def wire_message_new_def)
  have "for_each (serve_chunk kind_codec (V4 1 2)) [[0], [0]] ?s = (Inr (), ?s\<lparr>we_written := [[0], [0]]\<rparr>)"
    using ws_answers_in_order [of "[?n, ?n]" kind_codec ?s "[[0], [0]]" "V4 1 2"] kind_framed k
    by (simp del: for_each.simps)
  moreover have "\<exists>s'. for_each (serve_chunk kind_codec (V4 1 2)) [[0, 1], [0]] ?s = (Inl Undefined, s')
      \<and> we_written s' = we_written ?s @ map (\<lambda>m. cd_pack kind_codec (answer m)) [?n]"
    by (rule conjunct2 [OF ws_answers_in_order [of "[?n]" kind_codec ?s "[[0, 1], [0]]" "V4 1 2"],
        THEN spec [of _ ?d], THEN spec [of _ "[?n]"], THEN mp]) (simp_all add: kind_framed k)
  ultimately show ?thesis using k by simp
qed

section \<open>The table of sessions\<close>

text \<open>
  An exception in the constructor, or one that leaves a coroutine, ends the process, so that only successful
  steps are followed. Nothing in the code keeps two sessions that live at the same time from having the same
  endpoint: a session lives until its coroutine ends, which may be long after its connection. \<open>apart\<close> says
  that no connection is accepted from the endpoint of a session that is still alive.
\<close>

definition ws_endpoints :: "ws_server \<Rightarrow> tcp_endpoint set" where
  "ws_endpoints v = we_endp ` ran (wv_store v)"

inductive ws_reach :: "bool \<Rightarrow> codec \<Rightarrow> ws_server \<Rightarrow> bool" for apart cd where
  ws_init: "ws_reach apart cd ws_server_new"
| ws_accepts: "ws_reach apart cd v \<Longrightarrow> (\<And>e. apart \<Longrightarrow> remote = Some e \<Longrightarrow> e \<notin> ws_endpoints v) \<Longrightarrow>
    ws_accept failed remote v = (Inr (), v') \<Longrightarrow> ws_reach apart cd v'"
| ws_handshakes: "ws_reach apart cd v \<Longrightarrow> ws_handshaken failed i v = (Inr (), v') \<Longrightarrow> ws_reach apart cd v'"
| ws_receives: "ws_reach apart cd v \<Longrightarrow> ws_received cd remote got i v = (Inr (), v') \<Longrightarrow> ws_reach apart cd v'"
| ws_replies: "ws_reach apart cd v \<Longrightarrow> ws_replied cd remote failed i v = (Inr (), v') \<Longrightarrow> ws_reach apart cd v'"

definition ws_ok :: "bool \<Rightarrow> ws_server \<Rightarrow> bool" where
  "ws_ok apart v \<longleftrightarrow> dom (wv_table v) \<subseteq> ws_endpoints v
     \<and> (\<forall>e w. wv_table v e = Some w \<longrightarrow> w = None)
     \<and> (\<forall>i s. wv_store v i = Some s \<longrightarrow> i < wv_next v)
     \<and> (apart \<longrightarrow> ws_endpoints v \<subseteq> dom (wv_table v)
       \<and> (\<forall>i j s t. wv_store v i = Some s \<and> wv_store v j = Some t \<and> we_endp s = we_endp t \<longrightarrow> i = j))"

lemma ws_endpoints_iff: "e \<in> ws_endpoints v \<longleftrightarrow> (\<exists>i s. wv_store v i = Some s \<and> we_endp s = e)"
  by (auto simp: ws_endpoints_def ran_def)

lemma ws_okD:
  assumes "ws_ok apart v"
  shows "dom (wv_table v) \<subseteq> ws_endpoints v" "wv_table v e = Some w \<Longrightarrow> w = None"
    "wv_store v i = Some s \<Longrightarrow> i < wv_next v"
    "apart \<Longrightarrow> ws_endpoints v \<subseteq> dom (wv_table v)"
    "apart \<Longrightarrow> wv_store v i = Some s \<Longrightarrow> wv_store v j = Some t \<Longrightarrow> we_endp s = we_endp t \<Longrightarrow> i = j"
  using assms unfolding ws_ok_def by blast+

text \<open>The coroutine never touches the endpoint.\<close>

lemma session_endp [simp]:
  "we_endp (snd (handle_rest cd remote ms s)) = we_endp s"
  "we_endp (snd (session_received cd remote data s)) = we_endp s"
  "we_endp (snd (session_replied cd remote s)) = we_endp s"
proof -
  show rest: "we_endp (snd (handle_rest cd remote ms s)) = we_endp s" for ms s
    by (cases ms; cases remote; cases "ws_reply (hd ms)") (simp_all add: handle_rest_def act)
  show "we_endp (snd (session_received cd remote data s)) = we_endp s"
    using rest by (simp add: session_received_def act split: prod.splits sum.splits)
  show "we_endp (snd (session_replied cd remote s)) = we_endp s"
    using rest by (simp add: session_replied_def split: ws_stage.splits)
qed

lemma on_ws_ok:
  assumes "ws_ok apart v" and "\<And>s. we_endp (snd (m s)) = we_endp s"
  shows "ws_ok apart (snd (on_ws i m v))"
proof (cases "wv_store v i")
  case None
  then show ?thesis using assms(1) by (simp add: on_ws_def)
next
  case (Some s)
  let ?s = "snd (m s)"
  have eq: "snd (on_ws i m v) = v\<lparr>wv_store := (wv_store v)(i \<mapsto> ?s)\<rparr>"
    using Some by (simp add: on_ws_def split: prod.splits)
  have "ws_endpoints (v\<lparr>wv_store := (wv_store v)(i \<mapsto> ?s)\<rparr>) = ws_endpoints v"
    using Some assms(2) [of s] by (simp add: set_eq_iff ws_endpoints_iff) (metis option.inject)
  then show ?thesis unfolding eq
    using ws_okD [OF assms(1)] Some assms(2) [of s]
    by (auto simp: ws_ok_def split: if_splits)
qed

lemma ws_finish_ok:
  assumes "ws_ok apart v"
  shows "ws_ok apart (ws_finish i v)"
proof (cases "wv_store v i")
  case None
  then show ?thesis using assms by (simp add: ws_finish_def)
next
  case (Some s)
  let ?v = "v\<lparr>wv_table := (wv_table v)(we_endp s := None), wv_store := (wv_store v)(i := None)\<rparr>"
  have "dom (wv_table ?v) \<subseteq> ws_endpoints ?v"
  proof
    fix e assume "e \<in> dom (wv_table ?v)"
    then have "e \<noteq> we_endp s" "e \<in> ws_endpoints v" using ws_okD(1) [OF assms] by (auto split: if_splits)
    then obtain j t where "wv_store v j = Some t" "we_endp t = e" "j \<noteq> i"
      using Some unfolding ws_endpoints_iff by force
    then show "e \<in> ws_endpoints ?v" by (auto simp: ws_endpoints_iff)
  qed
  moreover have "ws_endpoints ?v \<subseteq> dom (wv_table ?v)" if apart
  proof
    fix e assume "e \<in> ws_endpoints ?v"
    then obtain j t where j: "wv_store v j = Some t" "we_endp t = e" "j \<noteq> i"
      by (auto simp: ws_endpoints_iff split: if_splits)
    then have "e \<noteq> we_endp s" using ws_okD(5) [OF assms that _ Some, of j t] by auto
    moreover have "e \<in> dom (wv_table v)" using ws_okD(4) [OF assms that] j unfolding ws_endpoints_iff [symmetric]
      using ws_endpoints_iff by blast
    ultimately show "e \<in> dom (wv_table ?v)" by auto
  qed
  ultimately have "ws_ok apart ?v"
    unfolding ws_ok_def using ws_okD(2,3,5) [OF assms] by (auto split: if_splits)
  then show ?thesis using Some by (simp add: ws_finish_def)
qed

lemma ws_accept_ok:
  assumes ok: "ws_ok apart v" and new: "\<And>e. apart \<Longrightarrow> remote = Some e \<Longrightarrow> e \<notin> ws_endpoints v"
    and run: "ws_accept failed remote v = (Inr (), v')"
  shows "ws_ok apart v'"
proof (cases failed)
  case True
  then show ?thesis using ok run by (simp add: ws_accept_eval)
next
  case False
  then obtain e where e: "remote = Some e" using run by (cases remote) (simp_all add: ws_accept_eval)
  let ?s = "\<lparr>we_self = Some (wv_next v), we_endp = e, we_ctx = [], we_stage = Accepting, we_written = []\<rparr>"
  let ?t = "if wv_table v e = None then (wv_table v)(e \<mapsto> None) else wv_table v"
  have v': "v' = v\<lparr>wv_table := ?t, wv_store := (wv_store v)(wv_next v \<mapsto> ?s), wv_next := Suc (wv_next v)\<rparr>"
    using run e False by (auto simp: ws_accept_eval split: sum.splits)
  have fresh: "wv_store v (wv_next v) = None" using ws_okD(3) [OF ok, of "wv_next v"] by fastforce
  have ends: "ws_endpoints v' = insert e (ws_endpoints v)" using fresh by (simp add: v' ws_endpoints_def)
  have tab: "dom (wv_table v') = insert e (dom (wv_table v))" by (auto simp: v')
  have "i = j" if a: apart and "wv_store v' i = Some s" "wv_store v' j = Some t" "we_endp s = we_endp t" for i j s t
  proof -
    have "we_endp x \<noteq> e" if "wv_store v k = Some x" for k x
      using new [OF a e] that by (auto simp: ws_endpoints_iff)
    then have "we_endp s \<noteq> e \<or> i = wv_next v" "we_endp t \<noteq> e \<or> j = wv_next v"
      using that(2,3) by (auto simp: v' split: if_splits)
    then show ?thesis using that ws_okD(5) [OF ok a] by (auto simp: v' split: if_splits)
  qed
  moreover have "w = None" if "wv_table v' k = Some w" for k w
    using that ws_okD(2) [OF ok] by (auto simp: v' split: if_splits)
  moreover have "i < wv_next v'" if "wv_store v' i = Some s" for i s
    using that ws_okD(3) [OF ok] by (auto simp: v' less_SucI split: if_splits)
  ultimately show ?thesis unfolding ws_ok_def ends tab using ws_okD(1,4) [OF ok] by blast
qed

lemma ws_reach_ok: "ws_reach apart cd v \<Longrightarrow> ws_ok apart v"
proof (induction rule: ws_reach.induct)
  case ws_init
  then show ?case by (simp add: ws_ok_def ws_server_new_def ws_endpoints_def)
next
  case (ws_accepts v remote failed v')
  then show ?case using ws_accept_ok by blast
next
  case (ws_handshakes v failed i v')
  then show ?case using ws_finish_ok [of apart v i] on_ws_ok [of apart v "modify (we_stage_update (\<lambda>_. Receiving))" i]
    by (auto simp: ws_handshaken_def act split: if_splits)
next
  case (ws_receives v remote got i v')
  then show ?case using ws_finish_ok [of apart v i] on_ws_ok [of apart v "session_received cd remote (the got)" i]
    by (auto simp: ws_received_def split: if_splits option.splits)
next
  case (ws_replies v remote failed i v')
  then show ?case using ws_finish_ok [of apart v i] on_ws_ok [of apart v "session_replied cd remote" i]
    by (auto simp: ws_replied_def split: if_splits option.splits ws_stage.splits)
qed

text \<open>
  C34: In every state the web socket server reaches its table has entries only for endpoints of sessions that are
  alive, and every entry is an empty pointer, so that no session can be found through it. As long as no
  connection is accepted from the endpoint of a session that is still alive, every live session has its entry.
\<close>

theorem ws_table_sound:
  "ws_reach apart cd v \<Longrightarrow> dom (wv_table v) \<subseteq> ws_endpoints v \<and> (\<forall>e w. wv_table v e = Some w \<longrightarrow> w = None)
    \<and> (apart \<longrightarrow> dom (wv_table v) = ws_endpoints v)"
  using ws_okD [OF ws_reach_ok] by blast

lemma ws_table_sound_witness:
  "dom (wv_table (snd (ws_accept False (Some (V4 1 2)) ws_server_new))) = {V4 1 2}"
proof -
  have "ws_reach True sample_codec (snd (ws_accept False (Some (V4 1 2)) ws_server_new))"
    by (rule ws_accepts [OF ws_init, of True "Some (V4 1 2)" False])
      (simp_all add: ws_accept_eval hash_endpoint_def ws_endpoints_def ws_server_new_def)
  from ws_table_sound [OF this] show ?thesis
    by (simp add: ws_accept_eval hash_endpoint_def ws_endpoints_def ws_server_new_def)
qed

text \<open>
  The condition is needed: of two live sessions with one endpoint the second is not entered, and the end of the
  first leaves it without an entry.
\<close>

lemma same_endpoint_forgotten:
  "\<exists>v. ws_reach False cd v \<and> wv_store v 1 \<noteq> None \<and> wv_table v = Map.empty"
proof -
  let ?a = "snd (ws_accept False (Some (V4 1 2)) ws_server_new)"
  let ?b = "snd (ws_accept False (Some (V4 1 2)) ?a)"
  let ?c = "snd (ws_handshaken True 0 ?b)"
  note evals = ws_accept_eval hash_endpoint_def ws_server_new_def ws_handshaken_def ws_stage_of_def ws_finish_def
  have "ws_reach False cd ?a" by (rule ws_accepts [OF ws_init, of False "Some (V4 1 2)" False]) (simp_all add: evals)
  then have "ws_reach False cd ?b"
    by (rule ws_accepts [of _ _ _ "Some (V4 1 2)" False]) (simp_all add: evals)
  then have "ws_reach False cd ?c" by (rule ws_handshakes [of _ _ _ True 0]) (simp add: evals)
  moreover have "wv_store ?c 1 \<noteq> None \<and> wv_table ?c = Map.empty" by (simp add: evals)
  ultimately show ?thesis by blast
qed

text \<open>A connection from an IPv6 address ends the process.\<close>

lemma ipv6_aborts: "ws_accept False (Some (V6 ip port)) v = (Inl Aborted, v)"
  by (simp add: ws_accept_eval hash_endpoint_def)

text \<open>
  The listener that could be set up takes the connections from different IPv4 endpoints in, each under its
  endpoint; the first from an IPv6 endpoint ends the process, and nothing is accepted when a call of
  the set-up failed.
\<close>

lemma do_listen_stays:
  "listen_setup failed \<noteq> None \<Longrightarrow> do_listen failed accepts v = (Inr (), v)"
  by (auto simp: do_listen_def act)

lemma ws_accept_v4:
  assumes "ec \<or> (\<exists>ip port. remote = Some (V4 ip port))"
  shows "\<exists>u. ws_accept ec remote v = (Inr (), u)
    \<and> dom (wv_table u) = dom (wv_table v) \<union> {e. (False, Some e) = (ec, remote)}"
proof (cases ec)
  case True
  then show ?thesis by (simp add: ws_accept_eval)
next
  case False
  then obtain ip port where "remote = Some (V4 ip port)" using assms by blast
  then show ?thesis using False by (simp add: ws_accept_eval hash_endpoint_def) auto
qed

lemma do_listen_accepts:
  assumes "listen_setup failed = None" and "\<forall>(ec, remote) \<in> set accepts. ec \<or> (\<exists>ip port. remote = Some (V4 ip port))"
  shows "\<exists>v'. do_listen failed accepts v = (Inr (), v')
    \<and> dom (wv_table v') = dom (wv_table v) \<union> {e. (False, Some e) \<in> set accepts}"
proof -
  have "\<exists>v'. for_each (\<lambda>(ec, remote). ws_accept ec remote) accepts v = (Inr (), v')
      \<and> dom (wv_table v') = dom (wv_table v) \<union> {e. (False, Some e) \<in> set accepts}"
    using assms(2)
  proof (induction accepts arbitrary: v)
    case Nil
    then show ?case by (simp add: act)
  next
    case (Cons a accepts)
    obtain ec remote where a: "a = (ec, remote)" by fastforce
    have ok: "ec \<or> (\<exists>ip port. remote = Some (V4 ip port))" using Cons.prems by (simp add: a)
    obtain u where u: "ws_accept ec remote v = (Inr (), u)"
        "dom (wv_table u) = dom (wv_table v) \<union> {e. (False, Some e) = (ec, remote)}"
      using ws_accept_v4 [OF ok] by blast
    obtain w where w: "for_each (\<lambda>(ec, remote). ws_accept ec remote) accepts u = (Inr (), w)"
        "dom (wv_table w) = dom (wv_table u) \<union> {e. (False, Some e) \<in> set accepts}"
      using Cons.IH [of u] Cons.prems by (meson list.set_intros(2))
    have "for_each (\<lambda>(ec, remote). ws_accept ec remote) (a # accepts) v = (Inr (), w)"
      using u(1) w(1) by (simp add: a act)
    moreover have "{e. (False, Some e) = (ec, remote)} \<union> {e. (False, Some e) \<in> set accepts} =
        {e. (False, Some e) \<in> set (a # accepts)}" by (auto simp: a)
    ultimately show ?case using u(2) w(2) by (simp add: Un_assoc)
  qed
  then show ?thesis using assms(1) by (simp add: do_listen_def)
qed

text \<open>A message for another peer reaches the end of a handler that returns nothing.\<close>

lemma send_msg_undefined:
  "wm_type m = SEND_MSG \<or> wm_type m = WANT_TO_CONNECT \<Longrightarrow> fst (handle_rest cd remote (m # ms) s) = Inl Undefined"
  by (auto simp: handle_rest_def ws_reply_def act)

end
