(* ===== verification/Program_Start.thy ===== *)
theory Program_Start
  imports Address Relay Web_Socket
begin

text \<open>
  The \<^verbatim>\<open>main\<close> functions of \<^verbatim>\<open>ws/WebSocket.cpp\<close> and \<^verbatim>\<open>server/server.cpp\<close>, from the command line to the
  running server or the end of the process. Which calls of the operating system fail is a parameter.
\<close>

text \<open>How a \<^verbatim>\<open>main\<close> goes on: it returns, \<^verbatim>\<open>std::terminate\<close> is called, the behaviour is undefined, or it serves.\<close>

datatype 's outcome = Exits int | Aborts | Undefined_start | Serves 's

section \<open>Arguments\<close>

text \<open>\<^verbatim>\<open>std::atoi\<close>: no digits give 0, and a value that is no \<^verbatim>\<open>int\<close> is undefined behaviour.\<close>

definition c_atoi :: "bytes \<Rightarrow> err + int" where
  "c_atoi s =
     (let s1 = dropWhile is_space s;
          neg = (s1 \<noteq> [] \<and> hd s1 = 45);
          s2 = (if s1 \<noteq> [] \<and> (hd s1 = 45 \<or> hd s1 = 43) then tl s1 else s1);
          v = int (digits_value (takeWhile is_digit s2));
          n = (if neg then - v else v)
      in if - (2 ^ 31) \<le> n \<and> n < 2 ^ 31 then Inr n else Inl Undefined)"

lemma c_atoi_decimal: "n < 2 ^ 31 \<Longrightarrow> c_atoi (decimal n) = Inr (int n)"
  using is_digit_not [OF decimal_digits [of "hd (decimal n)" n]]
  by (simp add: c_atoi_def decimal_scanned digits_value_decimal)

section \<open>The web socket server\<close>

text \<open>The loop that starts the threads beside the main thread; one that cannot be started throws.\<close>

function extra_threads :: "(int \<Rightarrow> bool) \<Rightarrow> int \<Rightarrow> nat \<Rightarrow> nat option" where
  "extra_threads starts i n =
     (if i > 0 then (if starts i then extra_threads starts (i - 1) (Suc n) else None) else Some n)"
  by auto
termination by (relation "measure (\<lambda>(_, i, _). nat i)") auto

declare extra_threads.simps [simp del]

text \<open>
  \<^verbatim>\<open>run\<close> returns when no work is left, which is when the set-up of the acceptor has failed; the
  threads are never joined, so the end of their vector ends the process. Exceptions leave
  \<^verbatim>\<open>main\<close>. A server that runs is given by its endpoint and the number of its threads.
\<close>

definition ws_main :: "(int \<Rightarrow> bool) \<Rightarrow> (int \<Rightarrow> bool) \<Rightarrow> (bytes \<Rightarrow> (u16 \<Rightarrow> tcp_endpoint) option)
    \<Rightarrow> (listen_call \<Rightarrow> bool) \<Rightarrow> bytes list \<Rightarrow> (tcp_endpoint \<times> nat) outcome" where
  "ws_main reserves starts make_address failed argv =
     (if length argv \<noteq> 4 then Exits 1
      else case make_address (argv ! 1) of None \<Rightarrow> Aborts
      | Some endpoint \<Rightarrow> (case (c_atoi (argv ! 2), c_atoi (argv ! 3)) of
          (Inr port, Inr n) \<Rightarrow>
            (let threads = max 1 n in
             if \<not> reserves (threads - 1) then Aborts
             else case extra_threads starts (threads - 1) 0 of None \<Rightarrow> Aborts
             | Some extra \<Rightarrow>
                 if listen_setup failed = None then Serves (endpoint (word_of_int port), Suc extra)
                 else if extra = 0 then Exits 0 else Aborts)
        | _ \<Rightarrow> Undefined_start))"

lemma extra_threads_all: "extra_threads (\<lambda>_. True) i n = Some (n + nat i)"
proof (induction "\<lambda>_ :: int. True" i n rule: extra_threads.induct)
  case (1 i n)
  have "0 < i \<Longrightarrow> Suc (nat (i - 1)) = nat i" by simp
  with 1 show ?case by (subst extra_threads.simps) simp
qed

section \<open>The relay\<close>

text \<open>The constructor of \<^verbatim>\<open>server\<close>: the acceptor and the TLS context, in order; a call that fails throws.\<close>

datatype relay_call = Bind_acceptor | Set_options | Load_verify_file | Use_certificate_file
  | Use_private_key_file | Set_verify_mode

definition relay_server_new :: "(relay_call \<Rightarrow> bool) \<Rightarrow> err + relay" where
  "relay_server_new failed =
     (case find failed [Bind_acceptor, Set_options, Load_verify_file, Use_certificate_file,
        Use_private_key_file, Set_verify_mode] of
        Some c \<Rightarrow> Inl Std_runtime_error
      | None \<Rightarrow> Inr relay_new)"

lemma all_relay_calls:
  "(\<forall>c. P c) \<longleftrightarrow> P Bind_acceptor \<and> P Set_options \<and> P Load_verify_file \<and> P Use_certificate_file
     \<and> P Use_private_key_file \<and> P Set_verify_mode"
  by (metis relay_call.exhaust)

text \<open>An exception is printed, and \<^verbatim>\<open>main\<close> returns 0.\<close>

definition relay_main :: "(relay_call \<Rightarrow> bool) \<Rightarrow> bytes list \<Rightarrow> (u16 \<times> relay) outcome" where
  "relay_main failed argv =
     (if length argv \<noteq> 2 then Exits 1
      else case c_atoi (argv ! 1) of Inl e \<Rightarrow> Undefined_start
      | Inr port \<Rightarrow> (case relay_server_new failed of
          Inl e \<Rightarrow> Exits 0
        | Inr r \<Rightarrow> Serves (word_of_int port, r)))"

section \<open>Properties\<close>

text \<open>
  C36: Started with an address, a port and a number of threads, the web socket server serves that
  address with at least one thread and as many as asked for, at the port modulo 65536; when the
  acceptor cannot be set up, it reports success if it runs in one thread and is aborted otherwise.
  Any other number of arguments ends it with a failure. The relay takes its port in the same way and reports success
  when it cannot start.
\<close>

theorem servers_start:
  assumes "make_address ip = Some endpoint" and "p < 2 ^ 31" and "n < 2 ^ 31"
    and "\<forall>i. starts i" and "\<forall>i. reserves i"
  shows "ws_main reserves starts make_address failed [prog, ip, decimal p, decimal n] =
      (if listen_setup failed = None then Serves (endpoint (word_of_nat p), max 1 n)
       else if n \<le> 1 then Exits 0 else Aborts)
    \<and> relay_main broken [prog, decimal p] =
      (if \<forall>c. \<not> broken c then Serves (word_of_nat p, relay_new) else Exits 0)
    \<and> (length argv \<noteq> 4 \<longrightarrow> ws_main reserves starts make_address failed argv = Exits 1)
    \<and> (length argv \<noteq> 2 \<longrightarrow> relay_main broken argv = Exits 1)"
proof -
  have count: "\<not> n \<le> Suc 0 \<Longrightarrow> Suc (nat (int n - 1)) = n" by simp
  have all: "starts = (\<lambda>_. True)" "reserves = (\<lambda>_. True)" using assms(4,5) by auto
  have "ws_main reserves starts make_address failed [prog, ip, decimal p, decimal n] =
      (if listen_setup failed = None then Serves (endpoint (word_of_nat p), max 1 n)
       else if n \<le> 1 then Exits 0 else Aborts)"
    using assms c_atoi_decimal [OF assms(2)] c_atoi_decimal [OF assms(3)]
    by (simp add: ws_main_def extra_threads_all all Let_def max_def count)
  moreover have "relay_main broken [prog, decimal p] =
      (if \<forall>c. \<not> broken c then Serves (word_of_nat p, relay_new) else Exits 0)"
    using c_atoi_decimal [OF assms(2)] by (simp add: relay_main_def relay_server_new_def all_relay_calls)
  ultimately show ?thesis by (simp add: ws_main_def relay_main_def)
qed

text \<open>Port 70000 of the command line is port 4464; two threads and a port in use end the process.\<close>

lemma servers_start_witness:
  "ws_main (\<lambda>_. True) (\<lambda>_. True) (\<lambda>_. Some (V4 0)) (\<lambda>_. False) [[], [], decimal 70000, decimal 4] = Serves (V4 0 4464, 4)
   \<and> ws_main (\<lambda>_. True) (\<lambda>_. True) (\<lambda>_. Some (V4 0)) (\<lambda>c. c = Bind) [[], [], decimal 70000, decimal 4] = Aborts"
  using servers_start [of "\<lambda>_. Some (V4 0)" "[]" "V4 0" 70000 4 "\<lambda>_. True" "\<lambda>_. True" "\<lambda>_. False" "[]"]
    servers_start [of "\<lambda>_. Some (V4 0)" "[]" "V4 0" 70000 4 "\<lambda>_. True" "\<lambda>_. True" "\<lambda>c. c = Bind" "[]"]
  by (simp add: listen_setup_def)

end
