(* ===== verification/Log_Text.thy ===== *)
theory Log_Text
  imports Datagram Address
begin

text \<open>
  The text of a datagram for the log: \<^verbatim>\<open>string_format\<close> of \<^verbatim>\<open>client/sml/config.h\<close> with what it uses of
  \<^verbatim>\<open>snprintf\<close>, the conversion of \<^verbatim>\<open>datagram.cpp\<close>, and \<^verbatim>\<open>logger.h\<close>, which appends to the output.
\<close>

section \<open>Formatting\<close>

text \<open>The directives \<^verbatim>\<open>%d\<close> and \<^verbatim>\<open>%s\<close>; anything else that begins with a percent sign, and an argument of
  the wrong type, is undefined behaviour (\<open>None\<close>).\<close>

datatype printf_arg = Int_arg "32 word" | Str_arg bytes

definition int_text :: "int \<Rightarrow> bytes" where
  "int_text v = (if v < 0 then 45 # decimal (nat (- v)) else decimal (nat v))"

definition c_str :: "bytes \<Rightarrow> bytes" where
  "c_str s = takeWhile (\<lambda>b. b \<noteq> 0) s"

fun c_printf :: "bytes \<Rightarrow> printf_arg list \<Rightarrow> bytes option" where
  "c_printf [] args = Some []"
| "c_printf (c # f) args =
     (if c \<noteq> 37 then map_option ((#) c) (c_printf f args)
      else case (f, args) of
        (d # f', Int_arg v # args') \<Rightarrow> if d = 100 then map_option ((@) (int_text (sint v))) (c_printf f' args') else None
      | (d # f', Str_arg s # args') \<Rightarrow> if d = 115 then map_option ((@) (c_str s)) (c_printf f' args') else None
      | _ \<Rightarrow> None)"

text \<open>\<^verbatim>\<open>snprintf\<close> into a buffer of \<open>size\<close> bytes: the length of the whole text, and what fits in before the final zero.\<close>

definition c_snprintf :: "nat \<Rightarrow> bytes \<Rightarrow> printf_arg list \<Rightarrow> (nat \<times> bytes) option" where
  "c_snprintf n f args = map_option (\<lambda>t. (length t, take n (take (n - 1) t @ [0]))) (c_printf (c_str f) args)"

text \<open>The first call measures, the second writes; the final zero is left out.\<close>

definition string_format :: "bytes \<Rightarrow> printf_arg list \<Rightarrow> err + bytes" where
  "string_format f args =
     (case c_snprintf 0 f args of None \<Rightarrow> Inl Undefined
      | Some (len, _) \<Rightarrow> (case c_snprintf (len + 1) f args of None \<Rightarrow> Inl Undefined
          | Some (_, buf) \<Rightarrow> Inr (take (len + 1 - 1) buf)))"

text \<open>The two calls together give the whole text.\<close>

lemma string_format_eq:
  "string_format f args = (case c_printf (c_str f) args of None \<Rightarrow> Inl Undefined | Some t \<Rightarrow> Inr t)"
  by (simp add: string_format_def c_snprintf_def split: option.split)

section \<open>The text of a datagram\<close>

definition datagram_text :: "datagram \<Rightarrow> err + bytes" where
  "datagram_text d = string_format
     (str ''id: %d'' @ [10] @ str ''type: %d'' @ [10] @ str ''offset: %d'' @ [10] @ str ''length %d'' @ [10]
      @ str ''payload: %s'' @ [10])
     [Int_arg (dg_id d), Int_arg (ucast (type_byte (dg_type d))), Int_arg (dg_offset d), Int_arg (dg_length d),
      Str_arg (dg_payload d)]"

text \<open>The numbers are unsigned and printed as signed; the payload is printed up to its first zero byte.\<close>

lemma datagram_text_eq:
  "datagram_text d = Inr (str ''id: '' @ int_text (sint (dg_id d)) @ [10]
     @ str ''type: '' @ int_text (sint (ucast (type_byte (dg_type d)) :: u32)) @ [10]
     @ str ''offset: '' @ int_text (sint (dg_offset d)) @ [10]
     @ str ''length '' @ int_text (sint (dg_length d)) @ [10]
     @ str ''payload: '' @ c_str (dg_payload d) @ [10])"
  by (simp add: datagram_text_def string_format_eq c_str_def str_def)

lemma large_offset_negative:
  "datagram_text (create_ack 0 0xFFFFFFFF) = Inr (str ''id: 0'' @ [10] @ str ''type: 1'' @ [10]
     @ str ''offset: -1'' @ [10] @ str ''length 0'' @ [10] @ str ''payload: '' @ [10])"
  by (simp add: datagram_text_eq create_defs int_text_def c_str_def decimal_small digit_def str_def)

section \<open>The log\<close>

text \<open>Every value goes to the standard output at once.\<close>

definition logger_put :: "bytes \<Rightarrow> (bytes, unit) action" where
  "logger_put t = modify (\<lambda>out. out @ t)"

lemma logger_puts: "for_each logger_put ts out = (Inr (), out @ concat ts)"
  by (induction ts arbitrary: out) (simp_all add: logger_put_def act)

end
