(* ===== verification/Spec2Isabelle.thy ===== *)
theory Spec2Isabelle
  imports Prelude Std_Map Utilities Byte_String_Life Address Encrypt Datagram Ring Messages Settings_File Dh Service_Delivery
    Wire_Message Certificate Tls_Client Directory_Facts Registry_Facts Client_Threads Chat_Session Program_Start Log_Text
begin

text \<open>
  A verification development for ShadowTalk (Whisper), a chat tool. Paths are relative to \<^verbatim>\<open>src/\<close>.

  \<^bold>\<open>The program.\<close> It holds two generations of one system. The peer-to-peer library \<^verbatim>\<open>client/sml\<close> sends
  encrypted datagrams over UDP: a \<^verbatim>\<open>service\<close> owns one \<^verbatim>\<open>udp_layer\<close>, which owns the table of \<^verbatim>\<open>peer\<close>s; a peer
  runs a handshake (hello, Diffie-Hellman public keys, an encrypted echo) and then carries \<^verbatim>\<open>stream\<close>s,
  which cut data into datagrams and acknowledge them one by one. The user talks to the service through
  two \<^verbatim>\<open>ring\<close>s of \<^verbatim>\<open>message\<close>s, and the service asks a directory server (\<^verbatim>\<open>server/sml.cpp\<close>, \<^verbatim>\<open>udp_service.cpp\<close>,
  \<^verbatim>\<open>peer.cpp\<close>) for the addresses of other peers. The later parts put a server between the users: the TLS
  relay of \<^verbatim>\<open>server/server.cpp\<close> and the web socket server of \<^verbatim>\<open>ws/WebSocket.cpp\<close>, which speak the MessagePack
  messages of \<^verbatim>\<open>common/Message.hpp\<close>, and the gRPC registry of \<^verbatim>\<open>grpc-server/GRPCServer.cpp\<close>, whose client is
  \<^verbatim>\<open>client/GRPCClient.cpp\<close> behind the window of \<^verbatim>\<open>client/MainWindow.cpp\<close>.

  \<^bold>\<open>Conventions\<close> (\<open>Prelude\<close>, \<open>Std_Map\<close>). A member function that changes its object is an action, a function
  from a state to an exception or a result together with the state left behind, so that what was done before a
  \<^verbatim>\<open>throw\<close> survives it; \<open>err\<close> has the exceptions of the source, two values for undefined behaviour and one for
  the end of the process. Fixed-width integers that can wrap are words, or integers with \<open>s32\<close> and \<open>u64\<close>
  written out. A \<^verbatim>\<open>std::map\<close> is a list in key order, an unordered table a partial function; both are
  interpretations of the locale \<open>key_table\<close>. Asynchronous operations are flags, or lists of operations under
  way, and their completions are events in any order; pointers to objects that delete themselves are numbers
  into a store. The rules \<open>act\<close> evaluate actions, \<open>wps\<close> are weakest preconditions, and the rules for \<open>moves\<close>
  carry a preorder on states through an action.

  \<^bold>\<open>The theories\<close>, in the order of the code.
  \<^item> \<open>Byte_String\<close>, \<open>Byte_Stream\<close> (\<^verbatim>\<open>byte_string\<close>): the growable buffer cell by cell, and the proof that it
    implements a byte sequence with a cursor (locale \<open>byte_stream\<close>); growth terminates, and the space suffices
    up to 2^30 bytes. \<open>Byte_String_Life\<close>: the strings that constructors and operations build when they keep to the
    bounds (\<open>bs_fits\<close>, \<open>bs_built\<close>) are well-formed, and further operations within the bounds go well. \<open>Utilities\<close>: the templates of \<^verbatim>\<open>utils.h\<close> and their references.
  \<^item> \<open>Address\<close>, \<open>Encrypt\<close>, \<open>Datagram\<close>: printing and parsing of addresses, key folding and framing of the cipher,
    the codec of datagrams (the locales \<open>scalar_codec\<close> and \<open>scalar_stream\<close>), with round trips and totality.
  \<^item> \<open>Ring\<close> (locale \<open>fifo\<close>), \<open>Messages\<close>, \<open>Configuration\<close>, \<open>Settings_File\<close>, \<open>Dh\<close>: the queues and the data of the service, and
    the configuration read from YAML.
  \<^item> \<open>Stream\<close>, \<open>Segments\<close>, \<open>Reassembly\<close>, \<open>Link\<close>: a stream as its effects in order; segmentation against a
    specification; what the receiver delivers; two streams over a network that loses, repeats and reorders
    (relation \<open>link_step\<close>).
  \<^item> \<open>Peer\<close>, \<open>Peer_Invariant\<close>, \<open>Peer_Lifetime\<close>, \<open>Handshake\<close>, \<open>Sample\<close>: the handshake's state machine, its
    invariant under every operation and over every sequence of events (\<open>peer_life\<close>), timers that fire late included, and
    two peers that complete it.
  \<^item> \<open>Peer_Identity\<close>: the name a peer is reported under and the key of its session (\<open>named\<close>, \<open>titled\<close>, kept by every
    event), and how little the handshake asks of the other side.
  \<^item> \<open>Session\<close>, \<open>Secure_Link\<close>: what an established peer does for its streams (encrypting what they send, feeding what
    arrives, keeping them apart), and two connected peers with the bytes in flight between them (\<open>channel_step\<close>). A
    simulation relation (\<open>tracks\<close>) makes every run of theirs one of \<open>Link\<close>, so the theorems about streams hold from the
    first hello on. Datagrams of the handshake that are repeated later are not part of these runs: a late hello ends a
    session (\<open>late_hello_timer_destroys_session\<close>).
  \<^item> \<open>Udp_Layer\<close>, \<open>Udp_Facts\<close>, \<open>Service\<close>: the tables and the receive loop, posting and the message loop, and the
    life of a whole service (\<open>service_life\<close>).
  \<^item> \<open>Service_Link\<close>, \<open>Service_Handshake\<close>, \<open>Service_Delivery\<close>: two whole services and the bytes in flight between them
    (\<open>pair_step\<close>). What others send and what the users do elsewhere is shown to leave a session alone (\<open>keeps\<close>), so
    every run is one of \<open>Secure_Link\<close> (\<open>mirrors\<close>); left out of these runs is what ends or changes the session or the stream
    followed (adding or deleting the peer, another send on the stream, datagrams and late timers of the handshake). The handshake starts with the message that adds the peer, and the other
    service makes its peer when the first hello arrives. Both services stand behind plain addresses: nobody
    else sends from the address of the other, and neither has the other for its directory server.
  \<^item> \<open>Directory\<close>, \<open>Directory_Facts\<close>: the directory server with its two containers, which refines a map from
    endpoints to the times they were heard last.
  \<^item> \<open>Serial_Writer\<close>: the contract of a queue that writes one message at a time, with the relay's session, the
    registry's writer and the client's sender as interpretations.
  \<^item> \<open>Wire_Message\<close>, \<open>Relay\<close>, \<open>Web_Socket\<close>: the incremental decoder, the sessions of the two servers and their
    tables (\<open>relay_reach\<close>; \<open>ws_reach\<close>, whose first argument says whether endpoints of live sessions differ). \<open>Certificate\<close>: the loop over the common names of a certificate. \<open>Tls_Client\<close>: the
    former client \<^verbatim>\<open>client/Client.cpp\<close>, which the preprocessor removes, and its request at the relay.
  \<^item> \<open>Registry\<close>, \<open>Registry_Invariant\<close>, \<open>Registry_Facts\<close>: the call objects of the registry driven by completions;
    memory safety over every run; what leaves the state of calls alone (locale \<open>registry_frame\<close>).
  \<^item> \<open>Rpc_Client\<close>, \<open>Rpc_Client_Facts\<close>: the call objects of the client, safe while no write fails and nothing is sent
    too early (\<open>client_reach\<close>), and what happens otherwise. \<open>Client_Threads\<close>: the thread of the user interface and
    the completion thread access by access (\<open>thread_step\<close>), failed writes included, with what the missing lock spoils and
    what it does not once the sender has been published before the first message.
  \<^item> \<open>Chat_Window\<close>, \<open>Chat_Session\<close>: settings and their file, the slots of the window over the client; window and
    registry together: a login, a listing, and a message from one user to another, which ends at a signal nothing is
    connected to.
  \<^item> \<open>Program_Start\<close>: the \<^verbatim>\<open>main\<close> functions of the web socket server and the relay, from the command line to the running
    server. \<open>Log_Text\<close>: \<^verbatim>\<open>string_format\<close>, the text of a datagram, the logger.
  \<^item> This theory: the directory server and the client of the library together.

  \<^bold>\<open>Bounds and fuel.\<close> The doubling loop of \<^verbatim>\<open>adjust_buffer_size\<close> has fuel for 34 rounds: after 31 doublings its
  32-bit size has reached the request or left the positive range, which ends the loop. Buffers are shown to grow up
  to 2^30 bytes, where the source's arithmetic first overflows; stream data up to 2^32 bytes, the range of the
  offsets. The loop over a certificate need not end and is a \<^verbatim>\<open>partial_function\<close>; that it returns is proved from
  the documented behaviour of OpenSSL. All other loops are structural or have a measure.

  \<^bold>\<open>Parameters.\<close> Not in the repository, and therefore arguments: AES in CFB mode, the random pool and the
  Diffie-Hellman arithmetic of Crypto++ (record \<open>crypto\<close> and the parameters beside it), the resolver and the
  validity of IP texts (\<open>platform\<close>), MessagePack and the JSON printer (\<open>codec\<close>), yaml-cpp (\<open>yaml\<close>), the
  entries of a certificate (\<open>openssl_name\<close>), SHA-1, Qt's JSON (\<open>json\<close>), the
  endpoints of Boost.Asio in the directory server (\<open>endpoints\<close>), the clock, and whatever an operating system or the
  gRPC runtime delivers with a completion. What a theorem needs of them is a named hypothesis, and the witnesses
  give concrete functions for them.

  \<^bold>\<open>Not modelled.\<close> The calls of the logger inside the operations, what a loaded certificate contains, the set-up of
  channels and TLS beyond which call fails, the one-line \<^verbatim>\<open>main\<close> functions of the registry and the window, and widgets beyond the data they show. Timers are flags; a handler that was already
  queued when its timer was cancelled is an event of its own (\<open>Late_timer\<close>, \<open>Late_stream_timer\<close>) for any small datagram,
  also one no timer was ever armed with, which only adds behaviour. Such a handler of a peer or stream that is gone
  runs on freed memory in the source and is not an event here. What a stream asks of its peer is done after the
  stream's own state has changed. Handlers are one step each, except for the message queue of the gRPC client, where
  two threads meet: there each access is a step (that an access itself is indivisible is more than C++ promises). The
  several threads that may run the web socket server change its table under a mutex and are not told apart: their
  steps come one at a time, in any order. The bytes of an
  asynchronous write are taken when it starts; the relay hands over a buffer that dies before the write is done. The
  relay's flag \<^verbatim>\<open>writing_started_\<close> starts with an arbitrary value, as in the code.
  Sizes: \<^verbatim>\<open>aes_128::encrypt\<close> computes the length of its result in an \<^verbatim>\<open>int\<close>, which overflows for data of
  2^31 - 16 bytes and more; the model has no such bound there (streams encrypt at most 1000 bytes at a time). What a read of the former
  client delivers is an argument, also when it is more than the 1024 bytes of its buffer. The JSON printer never fails, while \<^verbatim>\<open>dump\<close>
  throws for common names that are not UTF-8. The operators of \<^verbatim>\<open>byte_string\<close> for strings are the specialisations that
  \<^verbatim>\<open>byte_string.cpp\<close> defines; the header does not declare them, so that a program in which another file uses the generic ones
  is ill-formed, and the codec of datagrams relies on the linker choosing these.
\<close>

section \<open>The client and its directory server\<close>

definition endpoint_address :: "'e endpoints \<Rightarrow> 'e \<Rightarrow> address" where
  "endpoint_address eps x = mk_address (ep_text eps x) (ep_port eps x)"

lemma ep_address_prints: "ep_address eps x = address_to_string (endpoint_address eps x)"
  by (simp add: ep_address_def endpoint_address_def address_to_string_def mk_address_def)

text \<open>
  C26: Directory server and client together: after any run of the server, the datagrams with which it answers a
  client's query are taken in by the client without error, and at its next query the client's peer list is
  exactly the set of endpoints the server heard within the last 30 seconds, the client's own included.
\<close>

theorem client_learns_directory:
  fixes evs :: "'e dir_event list" and now :: int and e :: 'e
  assumes eps: "ep_ok eps" and hears: "h = hear now e (fold spec_event evs Map.empty)"
    and short: "\<And>x. x \<in> dom h \<Longrightarrow> length (ep_address eps x) \<le> 1500"
    and "u_receiving (sv_udp s)" and "u_filters (sv_udp s) srv = Some server_datagram_filter"
    and "conf_server (u_conf (sv_udp s)) = srv" and "pl_new_peer_list (u_service (sv_udp s)) = []"
    and "pl_valid_ip pl (ip_addr srv)"
  shows "\<exists>d d' answers u s'. for_each (on_dir_event eps) evs directory_new = (Inr (), d)
    \<and> dir_handle_receive eps now False request e d = (Inr (), d') \<and> dv_sent d' = dv_sent d @ map (\<lambda>t. (t, e)) answers
    \<and> for_each (\<lambda>t. datagram_arrives pl t srv) answers (sv_udp s) = (Inr (), u)
    \<and> query_server pl (Inr ip) False (s\<lparr>sv_udp := u\<rparr>) = (Inr (), s')
    \<and> set (peer_list s') = endpoint_address eps ` dom h \<and> endpoint_address eps e \<in> set (peer_list s')"
proof -
  obtain d where d: "for_each (on_dir_event eps) evs directory_new = (Inr (), d)" "dir_ok eps d"
      "heard d = fold spec_event evs Map.empty"
    using dir_run_refines [OF eps directory_new_ok(1,2), of evs] unfolding directory_new_ok(3) by blast
  obtain d' xs where d': "dir_handle_receive eps now False request e d = (Inr (), d')"
      "heard d' = h" "listing eps (dom h) xs" "dv_sent d' = dv_sent d @ map (\<lambda>x. (ep_address eps x, e)) xs"
    using dir_receive_hears [OF eps d(2)] d(3) unfolding hears by metis
  have xs: "set xs = dom h" "e \<in> dom h" using d'(3) by (auto simp: listing_def hears hear_def)
  have "\<forall>p \<in> set (map (endpoint_address eps) xs). length (address_to_string p) \<le> 1500"
    using short xs(1) by (simp add: ep_address_prints)
  note round = directory_round [OF assms(4-7) this assms(8), of ip, unfolded for_each_map, folded ep_address_prints]
  obtain u s' where u: "for_each (\<lambda>t. datagram_arrives pl t srv) (map (ep_address eps) xs) (sv_udp s) = (Inr (), u)"
      "query_server pl (Inr ip) False (s\<lparr>sv_udp := u\<rparr>) = (Inr (), s')"
      "peer_list s' = (if xs = [] then peer_list s else map (endpoint_address eps) xs)"
    using round by (auto simp: for_each_map)
  have "xs \<noteq> []" using xs by auto
  then have "set (peer_list s') = endpoint_address eps ` dom h" using u(3) xs(1) by simp
  moreover have "dv_sent d' = dv_sent d @ map (\<lambda>t. (t, e)) (map (ep_address eps) xs)" using d'(4) by (simp add: comp_def)
  ultimately show ?thesis using d(1) d'(1) u(1,2) xs(2) by blast
qed

theorem client_learns_directory_witness:
  "\<exists>d' answers u s'. dir_handle_receive text_endpoints 5 False [] (str ''9.9.9.9'', 7) directory_new = (Inr (), d')
    \<and> dv_sent d' = map (\<lambda>t. (t, (str ''9.9.9.9'', 7))) answers
    \<and> for_each (\<lambda>t. datagram_arrives sample_platform t (mk_address [] 0)) answers
        (sv_udp (service_new (sample_conf [1] [2] [3] [4]))) = (Inr (), u)
    \<and> query_server sample_platform (Inr []) False ((service_new (sample_conf [1] [2] [3] [4]))\<lparr>sv_udp := u\<rparr>) = (Inr (), s')
    \<and> set (peer_list s') = {mk_address (str ''9.9.9.9'') 7}"
proof -
  let ?s = "service_new (sample_conf [1] [2] [3] [4])"
  let ?h = "hear 5 (str ''9.9.9.9'', 7) (fold spec_event [] Map.empty)"
  have s: "u_receiving (sv_udp ?s)" "u_filters (sv_udp ?s) (mk_address [] 0) = Some server_datagram_filter"
    "conf_server (u_conf (sv_udp ?s)) = mk_address [] 0" "pl_new_peer_list (u_service (sv_udp ?s)) = []"
    by (simp_all add: service_new_def register_filter_def udp_new_def act umap_assign_def sample_conf_def
        configuration_new_def)
  have h: "dom ?h = {(str ''9.9.9.9'', 7)}" by (auto simp: hear_def dom_def split: if_splits)
  have short: "length (ep_address text_endpoints x) \<le> 1500" if "x \<in> dom ?h" for x
    using that unfolding h by (simp add: ep_address_def text_endpoints_def decimal.simps)
  have valid: "pl_valid_ip sample_platform (ip_addr (mk_address [] 0))" by (simp add: sample_platform_def)
  from client_learns_directory [where request = "[]" and ip = "[]" and evs = "[]" and now = 5 and e = "(str ''9.9.9.9'', 7)",
      OF text_endpoints_ok refl short s valid]
  show ?thesis unfolding h by (auto simp: act directory_new_def endpoint_address_def text_endpoints_def)
qed

end
